(* ===== verification/Prelude.thy ===== *)
theory Prelude
  imports Complex_Main "HOL-Library.Word" "HOL-Library.Signed_Division"
begin

text \<open>
  Shared vocabulary of the development: Go's time and integer types, panics and errors as values,
  the small part of package \<open>strings\<close>/\<open>strconv\<close> that the repository uses, and the lemmas on lists,
  modular indices and truncated division that several components need.
\<close>

section \<open>Collections of facts\<close>

named_theorems go_arith \<open>truncated division and conversions of Go integers\<close>
named_theorems ring_index \<open>indices modulo the length of a circular buffer\<close>
named_theorems defs \<open>definitions of model operations\<close>

section \<open>Time, durations and integers\<close>

text \<open>
  A \<open>time.Time\<close> is a number of nanoseconds on the process clock and a \<open>time.Duration\<close> a signed number
  of nanoseconds. Both are unbounded integers here; the places of the source where a 64-bit or a
  32-bit wrap-around can be observed are modelled with words.
\<close>

type_synonym time = int
type_synonym duration = int

definition Microsecond :: duration where "Microsecond = 1000"
definition Millisecond :: duration where "Millisecond = 1000000"
definition Second :: duration where "Second = 1000000000"
definition Minute :: duration where "Minute = 60000000000"

lemmas duration_units = Microsecond_def Millisecond_def Second_def Minute_def

text \<open>Go's \<open>/\<close> and \<open>%\<close> truncate towards zero: they are \<open>sdiv\<close> and \<open>smod\<close> of the library.\<close>

lemma sdiv_nonneg [go_arith, simp]:
  assumes "0 \<le> a" "0 \<le> b"
  shows "(a::int) sdiv b = a div b"
  using assms by (simp add: signed_divide_int_def sgn_if)

lemma smod_nonneg [go_arith, simp]:
  assumes "0 \<le> a" "0 \<le> b"
  shows "(a::int) smod b = a mod b"
  using assms by (cases "a = 0") (simp_all add: signed_modulo_int_def)

lemma int_le_div_iff [go_arith]:
  assumes "0 < c"
  shows "(a::int) \<le> b div c \<longleftrightarrow> a * c \<le> b"
proof
  assume "a \<le> b div c"
  then have "a * c \<le> b div c * c" using assms by (simp add: mult_right_mono)
  also have "\<dots> \<le> b" using pos_mod_sign [OF assms, of b] div_mult_mod_eq [of b c] by linarith
  finally show "a * c \<le> b" .
next
  assume "a * c \<le> b"
  then have "a * c div c \<le> b div c" using assms by (rule zdiv_mono1)
  then show "a \<le> b div c" using assms by simp
qed

text \<open>A 64-bit or 32-bit signed value as Go keeps it after an operation that may leave the range.\<close>

definition int64 :: "int \<Rightarrow> int" where
  "int64 x = (x + 2 ^ 63) mod 2 ^ 64 - 2 ^ 63"

lemma int64_id: "- (2 ^ 63) \<le> x \<Longrightarrow> x < 2 ^ 63 \<Longrightarrow> int64 x = x"
  by (simp add: int64_def)

definition int32 :: "int \<Rightarrow> int" where
  "int32 x = (x + 2 ^ 31) mod 2 ^ 32 - 2 ^ 31"

lemma int32_id: "- (2 ^ 31) \<le> x \<Longrightarrow> x < 2 ^ 31 \<Longrightarrow> int32 x = x"
  by (simp add: int32_def)

lemma int64_range: "- (2 ^ 63) \<le> int64 x \<and> int64 x < 2 ^ 63"
  using pos_mod_bound [of "2 ^ 64" "x + 2 ^ 63"] pos_mod_sign [of "2 ^ 64" "x + 2 ^ 63"]
  by (simp add: int64_def)

text \<open>\<open>float64\<close> values are exact rationals: rounding is not modelled.\<close>

type_synonym float64 = rat

text \<open>Conversion of a \<open>float64\<close> to an integer type truncates towards zero.\<close>

definition float_to_int :: "float64 \<Rightarrow> int" where
  "float_to_int x = (if 0 \<le> x then \<lfloor>x\<rfloor> else \<lceil>x\<rceil>)"

lemma float_to_int_of_int [simp]: "float_to_int (of_int n) = n"
  by (simp add: float_to_int_def)

lemma float_to_int_mono: "x \<le> y \<Longrightarrow> float_to_int x \<le> float_to_int y"
proof -
  have "\<lceil>x\<rceil> \<le> \<lfloor>y\<rfloor>" if "x < 0" "0 \<le> y"
  proof -
    have "\<lceil>x\<rceil> \<le> 0" using that by simp
    also have "0 \<le> \<lfloor>y\<rfloor>" using that by simp
    finally show ?thesis .
  qed
  moreover assume "x \<le> y"
  ultimately show ?thesis by (auto simp: float_to_int_def floor_mono ceiling_mono)
qed

lemma float_to_int_bounds:
  assumes "of_int a \<le> x" and "x \<le> of_int b"
  shows "a \<le> float_to_int x" and "float_to_int x \<le> b"
  using float_to_int_mono [OF assms(1)] float_to_int_mono [OF assms(2)] by simp_all

section \<open>Panics and errors as values\<close>

datatype go_panic = Panic string

text \<open>A call that can panic returns \<open>Inl\<close> of the panic value.\<close>

type_synonym 'a go = "go_panic + 'a"

lemma sum_case_Inr_iff:
  "(case x of Inl e \<Rightarrow> Inl e | Inr y \<Rightarrow> f y) = Inr z \<longleftrightarrow> (\<exists>y. x = Inr y \<and> f y = Inr z)"
  by (cases x) auto

section \<open>Lists\<close>

text \<open>The last \<open>n\<close> elements of a list.\<close>

definition last_n :: "nat \<Rightarrow> 'a list \<Rightarrow> 'a list" where
  "last_n n xs = drop (length xs - n) xs"

lemma length_last_n [simp]: "length (last_n n xs) = min n (length xs)"
  by (auto simp: last_n_def)

lemma last_n_short: "length xs \<le> n \<Longrightarrow> last_n n xs = xs"
  by (simp add: last_n_def)

lemma last_n_append_last_n [simp]: "last_n n (last_n n xs @ ys) = last_n n (xs @ ys)"
proof (cases "length xs \<le> n")
  case True
  then show ?thesis by (simp add: last_n_short)
next
  case False
  then have "length xs - (length xs - n) + length ys - n = length ys" by simp
  moreover have "drop (length ys) (drop (length xs - n) xs @ ys) =
      drop (length xs + length ys - n) (xs @ ys)"
  proof -
    have "drop (length ys) (drop (length xs - n) (xs @ ys)) =
        drop (length ys + (length xs - n)) (xs @ ys)" by simp
    moreover have "length ys + (length xs - n) = length xs + length ys - n" using False by simp
    ultimately show ?thesis by (simp only: drop_append) simp
  qed
  ultimately show ?thesis by (simp add: last_n_def)
qed

lemma set_last_n: "set (last_n n xs) \<subseteq> set xs"
  by (simp add: last_n_def set_drop_subset)

lemma map_upt_Suc_shift: "map f [0..<Suc n] = f 0 # map (\<lambda>i. f (Suc i)) [0..<n]"
  by (simp add: upt_conv_Cons map_Suc_upt [symmetric] del: upt_Suc map_Suc_upt)

lemma map_upt_Suc_last: "map f [0..<Suc n] = map f [0..<n] @ [f n]"
  by simp

section \<open>Maps of slices\<close>

text \<open>
  A map from strings to slices as a list of pairs with distinct keys; \<open>m[k]\<close> of a missing key is the empty
  slice, and \<open>m[k] = append(m[k], ys...)\<close> is \<open>append_at\<close>.
\<close>

definition slice_of :: "'a list option \<Rightarrow> 'a list" where
  "slice_of x = (case x of None \<Rightarrow> [] | Some ys \<Rightarrow> ys)"

lemma slice_of_simps [simp]: "slice_of None = []" "slice_of (Some ys) = ys"
  by (simp_all add: slice_of_def)

fun append_at :: "'k \<Rightarrow> 'a list \<Rightarrow> ('k \<times> 'a list) list \<Rightarrow> ('k \<times> 'a list) list" where
  "append_at k ys [] = [(k, ys)]"
| "append_at k ys ((k', old) # m) = (if k' = k then (k', old @ ys) # m else (k', old) # append_at k ys m)"

lemma map_of_append_at:
  "map_of (append_at k ys m) q = (if q = k then Some (slice_of (map_of m k) @ ys) else map_of m q)"
  by (induction m) auto

lemma keys_append_at: "fst ` set (append_at k ys m) = insert k (fst ` set m)"
proof (induction m)
  case (Cons x m)
  then show ?case by (cases x) (simp add: insert_commute)
qed simp

lemma distinct_append_at: "distinct (map fst m) \<Longrightarrow> distinct (map fst (append_at k ys m))"
proof (induction m)
  case (Cons x m)
  then show ?case using keys_append_at [of k ys m] by (cases x) auto
qed simp

section \<open>Circular indices\<close>

text \<open>Within a window of at most \<open>n\<close> consecutive offsets no circular index repeats.\<close>

lemma mod_add_inj [ring_index]:
  fixes i j n s :: nat
  assumes "i < n" "j < n" "(s + i) mod n = (s + j) mod n"
  shows "i = j"
proof -
  have le: "i = j" if "i \<le> j" "i < n" "j < n" "(s + i) mod n = (s + j) mod n" for i j :: nat
  proof -
    have "n dvd (s + j) - (s + i)" using that by (subst mod_eq_dvd_iff_nat [symmetric]) simp_all
    then have "n dvd j - i" by simp
    moreover have "j - i < n" using that by simp
    ultimately have "j - i = 0" by (meson dvd_imp_le linorder_not_less neq0_conv)
    then show ?thesis using that by simp
  qed
  show ?thesis using le [of i j] le [of j i] assms by (cases "i \<le> j") simp_all
qed

end
