(* ===== verification/Ring_Queue.thy ===== *)
theory Ring_Queue
  imports Prelude
begin

text \<open>
  The two circular buffers of \<open>pkg/core/collection\<close>: \<open>Ring\<close> (\<open>ring.go\<close>), which keeps the most recent
  elements, and the growing FIFO \<open>Queue\<close> (\<open>fifo.go\<close>). A Go slice of \<open>any\<close> is a list of \<open>'a option\<close>
  (\<open>None\<close> for \<open>nil\<close>); every operation holds the object's lock from its first to its last line, so it is
  one atomic step of the model.
\<close>

section \<open>Ring\<close>

record 'a ring =
  relements :: "'a option list"
  rindex :: nat

definition NewRing :: "int \<Rightarrow> 'a ring go" where
  "NewRing n =
     (if n < 1 then Inl (Panic ''collection: ring size must be positive'')
      else Inr \<lparr>relements = replicate (nat n) None, rindex = 0\<rparr>)"

definition Ring_Add :: "'a ring \<Rightarrow> 'a option \<Rightarrow> 'a ring" where
  "Ring_Add r v =
     (let rlen = length (relements r);
          r = r\<lparr>relements := (relements r)[rindex r mod rlen := v], rindex := rindex r + 1\<rparr>
      in if rindex r \<ge> 2 * rlen then r\<lparr>rindex := rindex r - rlen\<rparr> else r)"

definition Ring_Take :: "'a ring \<Rightarrow> 'a option list" where
  "Ring_Take r =
     (let rlen = length (relements r);
          (size, start) = (if rindex r > rlen then (rlen, rindex r mod rlen) else (rindex r, 0))
      in map (\<lambda>i. relements r ! ((start + i) mod rlen)) [0..<size])"

text \<open>The index stays below twice the length (so it cannot overflow) and the buffer is not empty.\<close>

definition ring_inv :: "'a ring \<Rightarrow> bool" where
  "ring_inv r \<longleftrightarrow> 0 < length (relements r) \<and> rindex r < 2 * length (relements r)"

lemma ring_inv_New: "NewRing n = Inr r \<Longrightarrow> ring_inv r \<and> Ring_Take r = [] \<and> length (relements r) = nat n"
  by (auto simp: NewRing_def ring_inv_def Ring_Take_def split: if_splits)

lemma ring_inv_Add: "ring_inv r \<Longrightarrow> ring_inv (Ring_Add r v)"
  by (auto simp: ring_inv_def Ring_Add_def Let_def)

lemma length_relements_Add [simp]: "length (relements (Ring_Add r v)) = length (relements r)"
  by (simp add: Ring_Add_def Let_def)

lemma length_Ring_Take:
  "ring_inv r \<Longrightarrow> length (Ring_Take r) = min (rindex r) (length (relements r))"
  by (auto simp: Ring_Take_def ring_inv_def Let_def min_def)

text \<open>Both branches of \<open>Take\<close> read the same circular segment, ending just before the index.\<close>

lemma Ring_Take_full:
  assumes "ring_inv r" "length (relements r) \<le> rindex r"
  shows "Ring_Take r = map (\<lambda>i. relements r ! ((rindex r + i) mod length (relements r)))
           [0..<length (relements r)]"
  using assms by (auto simp: Ring_Take_def ring_inv_def Let_def mod_add_left_eq)

lemma Ring_Take_partial:
  assumes "ring_inv r" "rindex r < length (relements r)"
  shows "Ring_Take r = take (rindex r) (relements r)"
  using assms by (auto simp: Ring_Take_def ring_inv_def Let_def intro!: nth_equalityI)

text \<open>
  One \<open>Add\<close> appends at the end of what \<open>Take\<close> shows and drops the oldest element beyond the capacity.
\<close>

lemma Ring_Add_below:
  assumes "ring_inv r" "rindex r < length (relements r)"
  shows "Ring_Take (Ring_Add r v) = Ring_Take r @ [v]"
proof -
  let ?n = "length (relements r)"
  have idx: "rindex (Ring_Add r v) = Suc (rindex r)"
    and el: "relements (Ring_Add r v) = (relements r)[rindex r := v]"
    if "Suc (rindex r) < 2 * ?n"
    using that assms by (auto simp: Ring_Add_def Let_def)
  show ?thesis
  proof (cases "Suc (rindex r) < ?n")
    case True
    then have lt: "Suc (rindex r) < 2 * ?n" by simp
    have "Ring_Take (Ring_Add r v) = take (Suc (rindex r)) ((relements r)[rindex r := v])"
      using Ring_Take_partial [OF ring_inv_Add [OF assms(1)], of v] True idx [OF lt] el [OF lt]
      by simp
    then show ?thesis
      using assms True by (simp add: Ring_Take_partial take_Suc_conv_app_nth)
  next
    case False
    then have n: "Suc (rindex r) = ?n" using assms by simp
    show ?thesis
    proof (cases "?n = 1")
      case True
      then have "rindex r = 0" and "length (relements r) = 1" using n by simp_all
      then show ?thesis
        by (cases "relements r") (auto simp: Ring_Take_def Ring_Add_def Let_def)
    next
      case False
      then have lt: "Suc (rindex r) < 2 * ?n" using n by linarith
      have "Ring_Take (Ring_Add r v) = (relements r)[rindex r := v]"
        using idx [OF lt] el [OF lt] n
        by (auto simp: Ring_Take_def Let_def intro!: nth_equalityI)
      moreover have "(relements r)[rindex r := v] = take (rindex r) (relements r) @ [v]"
        using n by (simp add: upd_conv_take_nth_drop)
      ultimately show ?thesis using assms by (simp add: Ring_Take_partial)
    qed
  qed
qed

lemma Ring_Add_full:
  assumes inv: "ring_inv r" and full: "length (relements r) \<le> rindex r"
  shows "Ring_Take (Ring_Add r v) = tl (Ring_Take r) @ [v]"
proof (rule nth_equalityI)
  let ?n = "length (relements r)" and ?r = "Ring_Add r v"
  have n: "0 < ?n" "rindex r < 2 * ?n" using inv by (simp_all add: ring_inv_def)
  have modeq: "rindex ?r mod ?n = Suc (rindex r) mod ?n"
    using n by (auto simp: Ring_Add_def Let_def mod_if)
  have el: "relements ?r = (relements r)[rindex r mod ?n := v]" by (simp add: Ring_Add_def Let_def)
  have ge: "?n \<le> rindex ?r" using n full by (auto simp: Ring_Add_def Let_def)
  have taker: "Ring_Take ?r = map (\<lambda>i. relements ?r ! ((Suc (rindex r) + i) mod ?n)) [0..<?n]"
  proof -
    have "(rindex ?r + i) mod ?n = (Suc (rindex r) + i) mod ?n" for i
      using modeq by (metis mod_add_left_eq)
    then show ?thesis using Ring_Take_full [OF ring_inv_Add [OF inv], of v] ge by simp
  qed
  have take: "Ring_Take r = map (\<lambda>i. relements r ! ((rindex r + i) mod ?n)) [0..<?n]"
    using Ring_Take_full [OF inv full] .
  show "length (Ring_Take ?r) = length (tl (Ring_Take r) @ [v])" using n taker take by simp
  fix i assume "i < length (Ring_Take ?r)"
  then have i: "i < ?n" using taker by simp
  show "Ring_Take ?r ! i = (tl (Ring_Take r) @ [v]) ! i"
  proof (cases "Suc i < ?n")
    case True
    have ne: "(rindex r + Suc i) mod ?n \<noteq> (rindex r + 0) mod ?n"
      using mod_add_inj [of "Suc i" ?n 0 "rindex r"] True n by auto
    have "Ring_Take ?r ! i = relements r ! ((rindex r + Suc i) mod ?n)"
      using i ne by (simp add: taker el)
    also have "\<dots> = tl (Ring_Take r) ! i" using True i by (simp add: take nth_tl)
    also have "\<dots> = (tl (Ring_Take r) @ [v]) ! i"
    proof -
      have "i < length (tl (Ring_Take r))" using True take by simp
      then show ?thesis by (simp only: nth_append if_True)
    qed
    finally show ?thesis .
  next
    case False
    then have "Suc i = ?n" using i by simp
    then have "(Suc (rindex r) + i) mod ?n = rindex r mod ?n"
      by (metis add_Suc_shift mod_add_self2)
    moreover have "length (tl (Ring_Take r)) = i" using \<open>Suc i = ?n\<close> take by simp
    ultimately show ?thesis using i n by (simp add: taker el nth_append_right)
  qed
qed

lemma Ring_Take_Add:
  assumes "ring_inv r"
  shows "Ring_Take (Ring_Add r v) = last_n (length (relements r)) (Ring_Take r @ [v])"
proof (cases "rindex r < length (relements r)")
  case True
  then show ?thesis
    using Ring_Add_below [OF assms True] length_Ring_Take [OF assms] by (simp add: last_n_short)
next
  case False
  then have len: "length (Ring_Take r) = length (relements r)"
    using length_Ring_Take [OF assms] by simp
  moreover have "Ring_Take r \<noteq> []" using len assms by (auto simp: ring_inv_def)
  ultimately show ?thesis
    using False Ring_Add_full [OF assms] by (cases "Ring_Take r") (simp_all add: last_n_def)
qed

text \<open>A ring after any sequence of \<open>Add\<close> calls.\<close>

definition Ring_Adds :: "'a ring \<Rightarrow> 'a option list \<Rightarrow> 'a ring" where
  "Ring_Adds = foldl Ring_Add"

lemma Ring_Adds_spec:
  assumes "ring_inv r"
  shows "ring_inv (Ring_Adds r vs) \<and> length (relements (Ring_Adds r vs)) = length (relements r)
    \<and> Ring_Take (Ring_Adds r vs) = last_n (length (relements r)) (Ring_Take r @ vs)"
  using assms
proof (induction vs rule: rev_induct)
  case Nil
  then show ?case using length_Ring_Take [OF Nil] by (simp add: Ring_Adds_def last_n_short)
next
  case (snoc v vs)
  then have IH: "ring_inv (Ring_Adds r vs)"
      "length (relements (Ring_Adds r vs)) = length (relements r)"
      "Ring_Take (Ring_Adds r vs) = last_n (length (relements r)) (Ring_Take r @ vs)" by simp_all
  have step: "Ring_Adds r (vs @ [v]) = Ring_Add (Ring_Adds r vs) v" by (simp add: Ring_Adds_def)
  show ?case unfolding step using IH Ring_Take_Add [OF IH(1)] ring_inv_Add [OF IH(1)] by simp
qed

section \<open>Queue\<close>

definition queueGrowThreshold :: nat where "queueGrowThreshold = 256"

record 'a queue =
  elements :: "'a option list"
  head :: nat
  tail :: nat
  count :: nat

definition NewQueue :: "int \<Rightarrow> 'a queue go" where
  "NewQueue n =
     (if n < 1 then Inl (Panic ''collection: queue size must be positive'')
      else Inr \<lparr>elements = replicate (nat n) None, head = 0, tail = 0, count = 0\<rparr>)"

definition Queue_Empty :: "'a queue \<Rightarrow> bool" where
  "Queue_Empty q \<longleftrightarrow> count q = 0"

definition nextQueueCapacity :: "nat \<Rightarrow> nat" where
  "nextQueueCapacity capacity =
     (if capacity < queueGrowThreshold then 2 * capacity
      else capacity + (capacity + 3 * queueGrowThreshold) div 4)"

text \<open>The growth branch of \<open>Put\<close>: the live segment is copied to the front of a larger slice.\<close>

definition Queue_grow :: "'a queue \<Rightarrow> 'a queue" where
  "Queue_grow q =
     (let n = length (elements q);
          nodes = drop (head q) (elements q) @ take (head q) (elements q)
                    @ replicate (nextQueueCapacity n - n) None
      in q\<lparr>head := 0, tail := count q, elements := nodes\<rparr>)"

definition Queue_Put :: "'a queue \<Rightarrow> 'a option \<Rightarrow> 'a queue" where
  "Queue_Put q element =
     (let q = (if count q = length (elements q) then Queue_grow q else q)
      in q\<lparr>elements := (elements q)[tail q := element],
           tail := (tail q + 1) mod length (elements q),
           count := count q + 1\<rparr>)"

definition Queue_Take :: "'a queue \<Rightarrow> ('a option \<times> bool) \<times> 'a queue" where
  "Queue_Take q =
     (if count q = 0 then ((None, False), q)
      else ((elements q ! head q, True),
            q\<lparr>elements := (elements q)[head q := None],
              head := (head q + 1) mod length (elements q),
              count := count q - 1\<rparr>))"

text \<open>The queue's contents, oldest first, and what every operation keeps of the indices.\<close>

definition queue_list :: "'a queue \<Rightarrow> 'a option list" where
  "queue_list q = map (\<lambda>i. elements q ! ((head q + i) mod length (elements q))) [0..<count q]"

definition queue_inv :: "'a queue \<Rightarrow> bool" where
  "queue_inv q \<longleftrightarrow> head q < length (elements q) \<and> count q \<le> length (elements q)
     \<and> tail q = (head q + count q) mod length (elements q)"

lemma length_queue_list [simp]: "length (queue_list q) = count q"
  by (simp add: queue_list_def)

lemma nextQueueCapacity_grows: "0 < n \<Longrightarrow> n < nextQueueCapacity n"
  by (auto simp: nextQueueCapacity_def queueGrowThreshold_def div_greater_zero_iff)

lemma queue_inv_New:
  "NewQueue n = Inr q \<Longrightarrow> queue_inv q \<and> queue_list q = []"
  by (auto simp: NewQueue_def queue_inv_def queue_list_def split: if_splits)

lemma Queue_grow_spec:
  assumes "queue_inv q" "count q = length (elements q)"
  shows "queue_inv (Queue_grow q) \<and> queue_list (Queue_grow q) = queue_list q
    \<and> count (Queue_grow q) = count q \<and> count q < length (elements (Queue_grow q))"
proof -
  let ?n = "length (elements q)" and ?g = "Queue_grow q"
  have n: "0 < ?n" "head q < ?n" using assms by (auto simp: queue_inv_def)
  have gt: "?n < nextQueueCapacity ?n" by (rule nextQueueCapacity_grows [OF n(1)])
  have len: "length (elements ?g) = nextQueueCapacity ?n"
    using n gt by (simp add: Queue_grow_def Let_def)
  have nth: "elements ?g ! i = elements q ! ((head q + i) mod ?n)" if "i < ?n" for i
  proof (cases "i < ?n - head q")
    case True
    then show ?thesis using n by (simp add: Queue_grow_def Let_def nth_append)
  next
    case False
    then have "head q + i = ?n + (i - (?n - head q))" using n that by simp
    then have "(head q + i) mod ?n = (i - (?n - head q)) mod ?n" by (metis mod_add_self1)
    then have "(head q + i) mod ?n = i - (?n - head q)" using that by simp
    moreover have "i - (?n - head q) < head q" using False that n by linarith
    ultimately show ?thesis using False that n by (simp add: Queue_grow_def Let_def nth_append)
  qed
  have "queue_list ?g = map (\<lambda>i. elements ?g ! i) [0..<?n]"
    using gt assms(2) len by (auto simp: queue_list_def Queue_grow_def Let_def)
  also have "\<dots> = queue_list q" using nth assms(2) by (simp add: queue_list_def)
  finally show ?thesis
    using gt len n assms(2) by (simp add: queue_inv_def Queue_grow_def Let_def)
qed

lemma Queue_Put_room:
  assumes inv: "queue_inv q" and room: "count q < length (elements q)"
  shows "queue_inv (Queue_Put q v) \<and> queue_list (Queue_Put q v) = queue_list q @ [v]"
proof -
  let ?n = "length (elements q)"
  have t: "tail q = (head q + count q) mod ?n" "head q < ?n" using inv by (simp_all add: queue_inv_def)
  have other: "tail q \<noteq> (head q + i) mod ?n" if "i < count q" for i
    using mod_add_inj [of i ?n "count q" "head q"] that room t by auto
  have "0 < ?n" using t(2) by linarith
  then have lt: "(head q + i) mod ?n < ?n" for i by (rule mod_less_divisor)
  have pl: "queue_list (Queue_Put q v) =
      map (\<lambda>i. (elements q)[tail q := v] ! ((head q + i) mod ?n)) [0..<Suc (count q)]"
    using room by (simp add: queue_list_def Queue_Put_def)
  have "map (\<lambda>i. (elements q)[tail q := v] ! ((head q + i) mod ?n)) [0..<count q] = queue_list q"
    using other by (simp add: queue_list_def)
  then have "queue_list (Queue_Put q v) = queue_list q @ [v]"
    unfolding pl map_upt_Suc_last using t(1) lt by simp
  moreover have "queue_inv (Queue_Put q v)"
    using t room by (simp add: queue_inv_def Queue_Put_def Let_def mod_Suc_eq)
  ultimately show ?thesis by simp
qed

lemma Queue_Put_spec:
  assumes "queue_inv q"
  shows "queue_inv (Queue_Put q v)" and "queue_list (Queue_Put q v) = queue_list q @ [v]"
proof -
  have "queue_inv (Queue_Put q v) \<and> queue_list (Queue_Put q v) = queue_list q @ [v]"
  proof (cases "count q = length (elements q)")
    case True
    note g = Queue_grow_spec [OF assms True]
    have "Queue_Put q v = Queue_Put (Queue_grow q) v"
      using g True by (simp add: Queue_Put_def [of q] Queue_Put_def [of "Queue_grow q"] Let_def)
    then show ?thesis using g Queue_Put_room [of "Queue_grow q" v] by simp
  next
    case False
    then show ?thesis using assms Queue_Put_room [OF assms] by (simp add: queue_inv_def)
  qed
  then show "queue_inv (Queue_Put q v)" and "queue_list (Queue_Put q v) = queue_list q @ [v]"
    by simp_all
qed

lemma Queue_Take_spec:
  assumes "queue_inv q"
  shows "queue_inv (snd (Queue_Take q))"
    and "fst (Queue_Take q) = (case queue_list q of [] \<Rightarrow> (None, False) | x # _ \<Rightarrow> (x, True))"
    and "queue_list (snd (Queue_Take q)) = tl (queue_list q)"
proof -
  let ?n = "length (elements q)"
  have hd: "head q < ?n" and c: "count q \<le> ?n" and t: "tail q = (head q + count q) mod ?n"
    using assms by (simp_all add: queue_inv_def)
  have cons: "queue_list q = elements q ! head q #
      map (\<lambda>i. elements q ! ((head q + Suc i) mod ?n)) [0..<count q - 1]" if "count q \<noteq> 0"
  proof -
    obtain k where k: "count q = Suc k" using \<open>count q \<noteq> 0\<close> by (cases "count q") auto
    show ?thesis unfolding queue_list_def k map_upt_Suc_shift using hd by simp
  qed
  have ne: "head q \<noteq> (head q + Suc i) mod ?n" if "i < count q - 1" for i
  proof -
    have "Suc i < ?n" using that c by linarith
    then show ?thesis using mod_add_inj [of "Suc i" ?n 0 "head q"] hd by fastforce
  qed
  show "queue_inv (snd (Queue_Take q))"
  proof (cases "count q")
    case 0
    then show ?thesis using assms by (simp add: Queue_Take_def)
  next
    case (Suc k)
    have "0 < ?n" using hd by linarith
    then have "Suc (head q) mod ?n < ?n" by (rule mod_less_divisor)
    then show ?thesis
      using c t Suc by (simp add: queue_inv_def Queue_Take_def mod_add_left_eq)
  qed
  show "fst (Queue_Take q) = (case queue_list q of [] \<Rightarrow> (None, False) | x # _ \<Rightarrow> (x, True))"
  proof (cases "count q = 0")
    case True
    then show ?thesis by (simp add: Queue_Take_def queue_list_def)
  next
    case False
    then show ?thesis by (simp add: Queue_Take_def cons)
  qed
  show "queue_list (snd (Queue_Take q)) = tl (queue_list q)"
  proof (cases "count q = 0")
    case True
    then show ?thesis by (simp add: Queue_Take_def queue_list_def)
  next
    case False
    then have "queue_list (snd (Queue_Take q)) =
        map (\<lambda>i. (elements q)[head q := None] ! ((Suc (head q) mod ?n + i) mod ?n)) [0..<count q - 1]"
      by (simp add: Queue_Take_def queue_list_def)
    also have "\<dots> = map (\<lambda>i. elements q ! ((head q + Suc i) mod ?n)) [0..<count q - 1]"
      using ne by (simp add: mod_add_left_eq)
    finally show ?thesis using cons [OF False] by simp
  qed
qed

section \<open>The contract of a FIFO queue\<close>

text \<open>
  What a client of a FIFO queue relies on, over the list of waiting elements. A \<open>take\<close> reports whether
  there was an element.
\<close>

locale fifo =
  fixes put :: "'q \<Rightarrow> 'a \<Rightarrow> 'q"
    and take_first :: "'q \<Rightarrow> ('a \<times> bool) \<times> 'q"
    and contents :: "'q \<Rightarrow> 'a list"
    and wf :: "'q \<Rightarrow> bool"
    and dummy :: 'a
  assumes put_contents: "wf q \<Longrightarrow> contents (put q x) = contents q @ [x]"
    and put_wf: "wf q \<Longrightarrow> wf (put q x)"
    and take_wf: "wf q \<Longrightarrow> wf (snd (take_first q))"
    and take_value: "wf q \<Longrightarrow>
      fst (take_first q) = (case contents q of [] \<Rightarrow> (dummy, False) | x # _ \<Rightarrow> (x, True))"
    and take_contents: "wf q \<Longrightarrow> contents (snd (take_first q)) = tl (contents q)"
begin

primrec puts :: "'q \<Rightarrow> 'a list \<Rightarrow> 'q" where
  "puts q [] = q"
| "puts q (x # xs) = puts (put q x) xs"

primrec takes :: "nat \<Rightarrow> 'q \<Rightarrow> ('a \<times> bool) list \<times> 'q" where
  "takes 0 q = ([], q)"
| "takes (Suc n) q =
     (let (r, q') = take_first q; (rs, q'') = takes n q' in (r # rs, q''))"

lemma puts_contents: "wf q \<Longrightarrow> wf (puts q xs) \<and> contents (puts q xs) = contents q @ xs"
  by (induction xs arbitrary: q) (simp_all add: put_wf put_contents)

lemma takes_all:
  assumes "wf q"
  shows "fst (takes (length (contents q)) q) = map (\<lambda>x. (x, True)) (contents q)
    \<and> contents (snd (takes (length (contents q)) q)) = []"
  using assms
proof (induction "length (contents q)" arbitrary: q)
  case 0
  then show ?case by simp
next
  case (Suc n)
  then obtain x xs where c: "contents q = x # xs" by (cases "contents q") simp_all
  have tl: "contents (snd (take_first q)) = xs" using take_contents [OF Suc.prems] c by simp
  have v: "fst (take_first q) = (x, True)" using take_value [OF Suc.prems] c by simp
  have "fst (takes (length xs) (snd (take_first q))) = map (\<lambda>x. (x, True)) xs
      \<and> contents (snd (takes (length xs) (snd (take_first q)))) = []"
    using Suc.hyps(1) [OF _ take_wf [OF Suc.prems]] Suc.hyps(2) tl c by simp
  with v c show ?case by (simp add: case_prod_unfold Let_def)
qed

lemma drain_after_puts:
  assumes "wf q"
  shows "fst (takes (length (contents q) + length xs) (puts q xs)) =
    map (\<lambda>x. (x, True)) (contents q @ xs)"
  using takes_all [of "puts q xs"] puts_contents [OF assms] by simp

end

interpretation growing_queue: fifo Queue_Put Queue_Take queue_list queue_inv None
  by unfold_locales (simp_all add: Queue_Put_spec Queue_Take_spec)

end
