(* ===== verification/RollingWindow.thy ===== *)
theory RollingWindow
  imports Prelude
begin

text \<open>
  \<open>pkg/core/collection/rollingwindow.go\<close>: a circular array of time buckets. The bucket type and its
  \<open>Add\<close> and \<open>Reset\<close> methods are the interface \<open>BucketInterface\<close>, here the locale \<open>bucket\<close>. A call reads
  the clock once in \<open>span\<close> and, when it moves the window, a second time to align \<open>lastTime\<close>; both
  readings are arguments. \<open>Reduce\<close> folds its callback over the buckets it visits.
\<close>

section \<open>State and operations\<close>

record 'b rollingWindow =
  wsize :: nat
  buckets :: "'b list"
  interval :: duration
  offset :: nat
  ignoreCurrent :: bool
  lastTime :: time

definition NewRollingWindow :: "'b \<Rightarrow> int \<Rightarrow> duration \<Rightarrow> bool \<Rightarrow> time \<Rightarrow> 'b rollingWindow go" where
  "NewRollingWindow newBucket sz ivl ignore now =
     (if sz < 1 then Inl (Panic ''collection: rolling window size must be greater than 0'')
      else Inr \<lparr>wsize = nat sz, buckets = replicate (nat sz) newBucket, interval = ivl,
                offset = 0, ignoreCurrent = ignore, lastTime = now\<rparr>)"

text \<open>The number of elapsed buckets, clamped to the size; integer division by zero panics in Go.\<close>

definition span :: "'b rollingWindow \<Rightarrow> time \<Rightarrow> nat" where
  "span rw now =
     (let off = (now - lastTime rw) sdiv interval rw
      in if 0 \<le> off \<and> off < int (wsize rw) then nat off else wsize rw)"

definition resetBucket :: "('b \<Rightarrow> 'b) \<Rightarrow> 'b list \<Rightarrow> nat \<Rightarrow> 'b list" where
  "resetBucket reset bs i = bs[i mod length bs := reset (bs ! (i mod length bs))]"

definition updateOffset :: "('b \<Rightarrow> 'b) \<Rightarrow> 'b rollingWindow \<Rightarrow> time \<Rightarrow> time \<Rightarrow> 'b rollingWindow" where
  "updateOffset reset rw t1 t2 =
     (let sp = span rw t1
      in if sp \<le> 0 then rw
         else rw\<lparr>buckets := foldl (\<lambda>bs i. resetBucket reset bs ((offset rw + i + 1) mod wsize rw))
                              (buckets rw) [0..<sp],
                 offset := (offset rw + sp) mod wsize rw,
                 lastTime := t2 - ((t2 - lastTime rw) smod interval rw)\<rparr>)"

definition RW_Add :: "('b \<Rightarrow> 'v \<Rightarrow> 'b) \<Rightarrow> ('b \<Rightarrow> 'b) \<Rightarrow> 'b rollingWindow \<Rightarrow> time \<Rightarrow> time \<Rightarrow> 'v
    \<Rightarrow> 'b rollingWindow go" where
  "RW_Add add reset rw t1 t2 v =
     (if interval rw = 0 then Inl (Panic ''runtime error: integer divide by zero'')
      else let rw = updateOffset reset rw t1 t2; i = offset rw mod length (buckets rw)
           in Inr (rw\<lparr>buckets := (buckets rw)[i := add (buckets rw ! i) v]\<rparr>))"

text \<open>The buckets that \<open>Reduce\<close> visits, in its order.\<close>

definition RW_visited :: "'b rollingWindow \<Rightarrow> time \<Rightarrow> 'b list" where
  "RW_visited rw now =
     (let sp = span rw now;
          diff = (if sp = 0 \<and> ignoreCurrent rw then wsize rw - 1 else wsize rw - sp);
          start = (offset rw + sp + 1) mod wsize rw
      in map (\<lambda>i. buckets rw ! ((start + i) mod length (buckets rw))) [0..<diff])"

definition RW_Reduce :: "('s \<Rightarrow> 'b \<Rightarrow> 's) \<Rightarrow> 's \<Rightarrow> 'b rollingWindow \<Rightarrow> time \<Rightarrow> 's go" where
  "RW_Reduce f s rw now =
     (if interval rw = 0 then Inl (Panic ''runtime error: integer divide by zero'')
      else Inr (foldl f s (RW_visited rw now)))"

text \<open>The standard bucket \<open>Bucket[int64]\<close>.\<close>

record bucketS =
  Sum :: int
  Count :: int

definition emptyBucket :: bucketS where "emptyBucket = \<lparr>Sum = 0, Count = 0\<rparr>"

definition Bucket_Add :: "bucketS \<Rightarrow> int \<Rightarrow> bucketS" where
  "Bucket_Add b v = b\<lparr>Sum := Sum b + v, Count := Count b + 1\<rparr>"

definition Bucket_Reset :: "bucketS \<Rightarrow> bucketS" where
  "Bucket_Reset b = b\<lparr>Sum := 0, Count := 0\<rparr>"

text \<open>A window after a sequence of additions, each at the instant its clock readings gave.\<close>

fun RW_Adds :: "('b \<Rightarrow> 'v \<Rightarrow> 'b) \<Rightarrow> ('b \<Rightarrow> 'b) \<Rightarrow> 'b rollingWindow \<Rightarrow> (time \<times> 'v) list
    \<Rightarrow> 'b rollingWindow go" where
  "RW_Adds add reset rw [] = Inr rw"
| "RW_Adds add reset rw ((t, v) # h) =
     (case RW_Add add reset rw t t v of Inl p \<Rightarrow> Inl p | Inr rw' \<Rightarrow> RW_Adds add reset rw' h)"

section \<open>Well-formedness\<close>

definition rw_wf :: "'b rollingWindow \<Rightarrow> bool" where
  "rw_wf rw \<longleftrightarrow> 0 < wsize rw \<and> length (buckets rw) = wsize rw \<and> offset rw < wsize rw \<and> 0 < interval rw"

lemma rw_wf_New: "NewRollingWindow b sz ivl ig now = Inr rw \<Longrightarrow> 0 < ivl \<Longrightarrow> rw_wf rw"
  by (auto simp: NewRollingWindow_def rw_wf_def split: if_splits)

lemma length_resetBucket [simp]: "length (resetBucket reset bs i) = length bs"
  by (simp add: resetBucket_def)

lemma length_reset_loop [simp]:
  "length (foldl (\<lambda>bs i. resetBucket reset bs (f i)) bs is) = length bs"
  by (induction "is" arbitrary: bs) simp_all

lemma updateOffset_simps [simp]:
  "wsize (updateOffset reset rw t1 t2) = wsize rw"
  "interval (updateOffset reset rw t1 t2) = interval rw"
  "ignoreCurrent (updateOffset reset rw t1 t2) = ignoreCurrent rw"
  "length (buckets (updateOffset reset rw t1 t2)) = length (buckets rw)"
  by (simp_all add: updateOffset_def Let_def)

lemma rw_wf_updateOffset: "rw_wf rw \<Longrightarrow> rw_wf (updateOffset reset rw t1 t2)"
  by (auto simp: rw_wf_def updateOffset_def Let_def)

lemma RW_Add_wf: "rw_wf rw \<Longrightarrow> RW_Add add reset rw t1 t2 v = Inr rw' \<Longrightarrow> rw_wf rw'"
  using rw_wf_updateOffset [of rw reset t1 t2]
  by (auto simp: RW_Add_def rw_wf_def Let_def split: if_splits)

lemma RW_Add_total: "rw_wf rw \<Longrightarrow> \<exists>rw'. RW_Add add reset rw t1 t2 v = Inr rw' \<and> rw_wf rw'
    \<and> wsize rw' = wsize rw \<and> interval rw' = interval rw \<and> ignoreCurrent rw' = ignoreCurrent rw"
  using rw_wf_updateOffset [of rw reset t1 t2] by (auto simp: RW_Add_def rw_wf_def Let_def)

lemma RW_Reduce_wf: "rw_wf rw \<Longrightarrow> RW_Reduce f s rw now = Inr (foldl f s (RW_visited rw now))"
  by (simp add: RW_Reduce_def rw_wf_def)

lemma span_le: "span rw now \<le> wsize rw"
  by (auto simp: span_def Let_def)

lemma RW_visited_length: "length (RW_visited rw now) \<le> wsize rw"
  by (simp add: RW_visited_def Let_def)

lemma RW_visited_subset: "rw_wf rw \<Longrightarrow> set (RW_visited rw now) \<subseteq> set (buckets rw)"
  by (auto simp: RW_visited_def rw_wf_def Let_def)

text \<open>The bucket \<open>j\<close> intervals before the current one.\<close>

definition bucket_back :: "'b rollingWindow \<Rightarrow> nat \<Rightarrow> 'b" where
  "bucket_back rw j = buckets rw ! ((offset rw + (wsize rw - j)) mod wsize rw)"

lemma reset_loop_nth:
  assumes "length bs = n" "0 < n" "k \<le> n" "i < n"
  shows "foldl (\<lambda>bs i. resetBucket reset bs ((off + i + 1) mod n)) bs [0..<k] ! ((off + i + 1) mod n)
    = (if i < k then reset (bs ! ((off + i + 1) mod n)) else bs ! ((off + i + 1) mod n))"
  using assms(3)
proof (induction k)
  case 0
  then show ?case by simp
next
  case (Suc k)
  let ?bs = "foldl (\<lambda>bs i. resetBucket reset bs ((off + i + 1) mod n)) bs [0..<k]"
  have same: "((off + i + 1) mod n = (off + k + 1) mod n) = (i = k)"
    using mod_add_inj [of i n k "off + 1"] assms(4) Suc.prems
    by (auto simp: add.assoc add.commute add.left_commute)
  have "(off + i + 1) mod n < n" "(off + k + 1) mod n < n" using assms(2) by simp_all
  moreover have "length ?bs = n" using assms(1) by simp
  ultimately have "resetBucket reset ?bs ((off + k + 1) mod n) ! ((off + i + 1) mod n) =
      (if i = k then reset (?bs ! ((off + i + 1) mod n)) else ?bs ! ((off + i + 1) mod n))"
    using same by (auto simp: resetBucket_def)
  then show ?case using Suc by (auto simp: less_Suc_eq)
qed

lemma updateOffset_bucket_back:
  assumes wf: "rw_wf rw" and j: "j < wsize rw"
  shows "bucket_back (updateOffset reset rw t1 t2) j =
    (if j < span rw t1
     then reset (buckets rw ! ((offset rw + (span rw t1 - j - 1) + 1) mod wsize rw))
     else bucket_back rw (j - span rw t1))"
proof (cases "span rw t1 = 0")
  case True
  then show ?thesis by (simp add: updateOffset_def Let_def bucket_back_def)
next
  case False
  let ?n = "wsize rw" and ?sp = "span rw t1"
  have n: "0 < ?n" "length (buckets rw) = ?n" "offset rw < ?n" using wf by (simp_all add: rw_wf_def)
  have sp: "?sp \<le> ?n" by (rule span_le)
  define i where "i = (if j < ?sp then ?sp - j - 1 else ?n + ?sp - j - 1)"
  have i: "i < ?n" using j sp False by (auto simp: i_def)
  have idx: "((offset rw + ?sp) mod ?n + (?n - j)) mod ?n = (offset rw + i + 1) mod ?n"
  proof -
    have "((offset rw + ?sp) mod ?n + (?n - j)) mod ?n = (offset rw + ?sp + (?n - j)) mod ?n"
      by (simp add: mod_add_left_eq)
    also have "\<dots> = (offset rw + i + 1) mod ?n"
    proof (cases "j < ?sp")
      case True
      then have "offset rw + ?sp + (?n - j) = (offset rw + i + 1) + ?n" using j by (simp add: i_def)
      then show ?thesis by (metis mod_add_self2)
    next
      case False
      then have "offset rw + ?sp + (?n - j) = offset rw + i + 1" using j by (simp add: i_def)
      then show ?thesis by (simp only:)
    qed
    finally show ?thesis .
  qed
  have iff: "i < ?sp \<longleftrightarrow> j < ?sp" using j sp False by (auto simp: i_def)
  have "bucket_back (updateOffset reset rw t1 t2) j =
      (if i < ?sp then reset (buckets rw ! ((offset rw + i + 1) mod ?n))
       else buckets rw ! ((offset rw + i + 1) mod ?n))"
    using reset_loop_nth [OF n(2,1) sp i, of reset "offset rw"] False
    by (simp add: bucket_back_def updateOffset_def Let_def idx)
  also have "\<dots> = (if j < ?sp
     then reset (buckets rw ! ((offset rw + (?sp - j - 1) + 1) mod ?n)) else bucket_back rw (j - ?sp))"
  proof (cases "j < ?sp")
    case True
    then show ?thesis using iff by (simp add: i_def)
  next
    case False
    then have "offset rw + i + 1 = offset rw + (?n - (j - ?sp))" using j sp by (simp add: i_def)
    then show ?thesis using False iff by (simp only: bucket_back_def if_False)
  qed
  finally show ?thesis .
qed

section \<open>What the window means\<close>

text \<open>
  The interval in which an instant falls, counted from the creation of the window, and the values of a
  history of additions that fall in one interval.
\<close>

definition tick :: "time \<Rightarrow> duration \<Rightarrow> time \<Rightarrow> int" where
  "tick t0 ivl t = (t - t0) div ivl"

definition values_at :: "time \<Rightarrow> duration \<Rightarrow> (time \<times> 'v) list \<Rightarrow> int \<Rightarrow> 'v list" where
  "values_at t0 ivl h k = map snd (filter (\<lambda>(t, _). tick t0 ivl t = k) h)"

lemma values_at_append [simp]:
  "values_at t0 ivl (h @ [(t, v)]) k = values_at t0 ivl h k @ (if tick t0 ivl t = k then [v] else [])"
  by (simp add: values_at_def)

lemma values_at_later:
  assumes "\<And>t v. (t, v) \<in> set h \<Longrightarrow> tick t0 ivl t \<le> n" and "n < k"
  shows "values_at t0 ivl h k = []"
  using assms by (fastforce simp: values_at_def filter_empty_conv)

lemma tick_shift:
  assumes "0 < ivl"
  shows "(t - (t0 + n * ivl)) div ivl = tick t0 ivl t - n"
proof -
  have "t - (t0 + n * ivl) = (t - t0) + (- n) * ivl" by simp
  then show ?thesis using assms unfolding tick_def by (metis div_mult_self1 less_irrefl uminus_add_conv_diff add.commute)
qed

lemma tick_align:
  assumes "0 < ivl"
  shows "t - (t - (t0 + n * ivl)) mod ivl = t0 + tick t0 ivl t * ivl"
proof -
  have "t - (t0 + n * ivl) = (t - t0) + (- n) * ivl" by simp
  then have "(t - (t0 + n * ivl)) mod ivl = (t - t0) mod ivl" by (metis mod_mult_self1)
  then have "t - (t - (t0 + n * ivl)) mod ivl = t0 + ((t - t0) - (t - t0) mod ivl)" by simp
  then show ?thesis by (simp only: tick_def minus_mod_eq_div_mult)
qed

text \<open>
  The interface of a bucket: \<open>Reset\<close> restores the value a new bucket has. Everything the window
  promises follows from this law.
\<close>

locale bucket =
  fixes add :: "'b \<Rightarrow> 'v \<Rightarrow> 'b"
    and reset :: "'b \<Rightarrow> 'b"
    and fresh :: 'b
  assumes reset_fresh: "reset b = fresh"
begin

text \<open>The bucket that holds exactly the given values.\<close>

definition filled :: "'v list \<Rightarrow> 'b" where
  "filled vs = foldl add fresh vs"

text \<open>The window represents the history \<open>h\<close>, its last movement being in interval \<open>n\<close>.\<close>

definition represents :: "time \<Rightarrow> (time \<times> 'v) list \<Rightarrow> int \<Rightarrow> 'b rollingWindow \<Rightarrow> bool" where
  "represents t0 h n rw \<longleftrightarrow> rw_wf rw \<and> lastTime rw = t0 + n * interval rw
     \<and> (\<forall>(t, v) \<in> set h. tick t0 (interval rw) t \<le> n)
     \<and> (\<forall>j < wsize rw. bucket_back rw j = filled (values_at t0 (interval rw) h (n - int j)))"

lemma represents_New:
  assumes "NewRollingWindow fresh sz ivl ig t0 = Inr rw" "0 < ivl"
  shows "represents t0 [] 0 rw"
  using assms rw_wf_New [OF assms]
  by (auto simp: represents_def NewRollingWindow_def bucket_back_def values_at_def filled_def rw_wf_def
      split: if_splits)

lemma span_represents:
  assumes "represents t0 h n rw" "n \<le> tick t0 (interval rw) t"
  shows "span rw t = (if tick t0 (interval rw) t - n < int (wsize rw)
      then nat (tick t0 (interval rw) t - n) else wsize rw)"
proof -
  have pos: "0 < interval rw" and lt: "lastTime rw = t0 + n * interval rw"
    using assms(1) by (simp_all add: represents_def rw_wf_def)
  have "n * interval rw \<le> (t - t0)"
    using assms(2) pos by (simp add: tick_def int_le_div_iff)
  then have "(t - lastTime rw) sdiv interval rw = tick t0 (interval rw) t - n"
    using pos lt tick_shift [OF pos, of t t0 n] by simp
  then show ?thesis using assms(2) by (simp add: span_def Let_def)
qed

lemma represents_updateOffset:
  assumes rep: "represents t0 h n rw" and now: "n \<le> tick t0 (interval rw) t1"
    and same: "tick t0 (interval rw) t2 = tick t0 (interval rw) t1"
  shows "represents t0 h (tick t0 (interval rw) t1) (updateOffset reset rw t1 t2)"
proof -
  let ?n' = "tick t0 (interval rw) t1" and ?u = "updateOffset reset rw t1 t2"
  have wf: "rw_wf rw" and hist: "\<And>t v. (t, v) \<in> set h \<Longrightarrow> tick t0 (interval rw) t \<le> n"
    and bk: "\<And>j. j < wsize rw \<Longrightarrow> bucket_back rw j = filled (values_at t0 (interval rw) h (n - int j))"
    and lt: "lastTime rw = t0 + n * interval rw"
    using rep by (auto simp: represents_def)
  have pos: "0 < interval rw" "0 < wsize rw" using wf by (simp_all add: rw_wf_def)
  note sp = span_represents [OF rep now]
  have t2ge: "0 \<le> t2 - lastTime rw"
  proof -
    have "n \<le> (t2 - t0) div interval rw" using now same by (simp add: tick_def)
    then show ?thesis using pos lt by (simp add: int_le_div_iff)
  qed
  have lt': "lastTime ?u = t0 + ?n' * interval rw"
  proof (cases "span rw t1 = 0")
    case True
    then have "?n' = n" using sp now pos by (auto split: if_splits)
    then show ?thesis using True lt by (simp add: updateOffset_def Let_def)
  next
    case False
    then show ?thesis
      using tick_align [OF pos(1), of t2 t0 n] lt t2ge pos same by (simp add: updateOffset_def Let_def)
  qed
  have "bucket_back ?u j = filled (values_at t0 (interval rw) h (?n' - int j))" if "j < wsize rw" for j
  proof (cases "j < span rw t1")
    case True
    then have "n < ?n' - int j" using sp that by (auto split: if_splits)
    then have "values_at t0 (interval rw) h (?n' - int j) = []" using hist values_at_later by blast
    then show ?thesis
      using True updateOffset_bucket_back [OF wf that, of reset t1 t2]
      by (simp add: filled_def reset_fresh)
  next
    case False
    then have "int (span rw t1) = ?n' - n" using sp that now by (auto split: if_splits)
    then have "?n' - int j = n - int (j - span rw t1)" using False by simp
    moreover have "bucket_back ?u j = bucket_back rw (j - span rw t1)"
      using False updateOffset_bucket_back [OF wf that, of reset t1 t2] by simp
    ultimately show ?thesis using bk [of "j - span rw t1"] that by simp
  qed
  then show ?thesis
    using rw_wf_updateOffset [OF wf, of reset t1 t2] lt' hist now by (fastforce simp: represents_def)
qed

text \<open>\<open>Add\<close> never fails on a well-formed window and records the value in the current interval.\<close>

lemma represents_Add:
  assumes rep: "represents t0 h n rw" and now: "n \<le> tick t0 (interval rw) t1"
    and same: "tick t0 (interval rw) t2 = tick t0 (interval rw) t1"
  shows "\<exists>rw'. RW_Add add reset rw t1 t2 v = Inr rw' \<and> interval rw' = interval rw
    \<and> wsize rw' = wsize rw \<and> ignoreCurrent rw' = ignoreCurrent rw
    \<and> represents t0 (h @ [(t1, v)]) (tick t0 (interval rw) t1) rw'"
proof -
  let ?u = "updateOffset reset rw t1 t2" and ?n = "tick t0 (interval rw) t1"
  note u = represents_updateOffset [OF assms]
  have wf: "rw_wf ?u" using u by (simp add: represents_def)
  let ?i = "offset ?u mod length (buckets ?u)"
  let ?rw' = "?u\<lparr>buckets := (buckets ?u)[?i := add (buckets ?u ! ?i) v]\<rparr>"
  have i: "?i = offset ?u" "offset ?u < wsize ?u" "length (buckets ?u) = wsize ?u"
    using wf by (simp_all add: rw_wf_def)
  have eq: "RW_Add add reset rw t1 t2 v = Inr ?rw'"
    using wf by (simp add: RW_Add_def rw_wf_def Let_def)
  have "bucket_back ?rw' j = filled (values_at t0 (interval rw) (h @ [(t1, v)]) (?n - int j))"
    if "j < wsize rw" for j
  proof (cases "j = 0")
    case True
    have "bucket_back ?u 0 = filled (values_at t0 (interval rw) h ?n)"
      using u that True by (auto simp: represents_def)
    then show ?thesis using True i by (simp add: bucket_back_def filled_def)
  next
    case False
    have "(offset ?u + (wsize ?u - j)) mod wsize ?u \<noteq> (offset ?u + 0) mod wsize ?u"
      using mod_add_inj [of "wsize ?u - j" "wsize ?u" 0 "offset ?u"] that False by fastforce
    then have "bucket_back ?rw' j = bucket_back ?u j" using i by (simp add: bucket_back_def)
    then show ?thesis using u that False by (auto simp: represents_def)
  qed
  then have "represents t0 (h @ [(t1, v)]) ?n ?rw'"
    using u wf by (auto simp: represents_def rw_wf_def)
  then show ?thesis using eq by auto
qed

text \<open>
  \<open>Reduce\<close> visits exactly the intervals of the last \<open>size\<close> ones that can hold a value, oldest first.
\<close>

lemma visited_represents:
  assumes rep: "represents t0 h n rw" and now: "n \<le> tick t0 (interval rw) t"
  shows "RW_visited rw t = map (\<lambda>k. filled (values_at t0 (interval rw) h k))
    [tick t0 (interval rw) t - int (wsize rw) + 1 ..
      (if tick t0 (interval rw) t = n \<and> ignoreCurrent rw then n - 1 else n)]"
proof -
  let ?T = "tick t0 (interval rw) t" and ?N = "wsize rw" and ?sp = "span rw t"
  let ?hi = "if ?T = n \<and> ignoreCurrent rw then n - 1 else n"
  have wf: "rw_wf rw"
    and bk: "\<And>j. j < ?N \<Longrightarrow> bucket_back rw j = filled (values_at t0 (interval rw) h (n - int j))"
    using rep by (auto simp: represents_def)
  have N: "0 < ?N" "length (buckets rw) = ?N" "offset rw < ?N" using wf by (simp_all add: rw_wf_def)
  have sp: "?sp = (if ?T - n < int ?N then nat (?T - n) else ?N)" by (rule span_represents [OF assms])
  define diff where "diff = (if ?sp = 0 \<and> ignoreCurrent rw then ?N - 1 else ?N - ?sp)"
  have sp0: "?sp = 0 \<longleftrightarrow> ?T = n" using sp now N by auto
  have dl: "nat (?hi - (?T - int ?N + 1) + 1) = diff" using sp now N sp0 by (auto simp: diff_def)
  have elem: "buckets rw ! (((offset rw + ?sp + 1) mod ?N + i) mod ?N) =
      filled (values_at t0 (interval rw) h (?T - int ?N + 1 + int i))" if i: "i < diff" for i
  proof -
    have small: "?T - n < int ?N" using i sp sp0 by (auto simp: diff_def split: if_splits)
    have j: "?N - (?sp + 1 + i) < ?N" "?sp + 1 + i \<le> ?N"
      using i N by (auto simp: diff_def split: if_splits)
    have "bucket_back rw (?N - (?sp + 1 + i)) = buckets rw ! ((offset rw + (?sp + 1 + i)) mod ?N)"
      using j by (simp add: bucket_back_def)
    then have "buckets rw ! (((offset rw + ?sp + 1) mod ?N + i) mod ?N) =
        filled (values_at t0 (interval rw) h (n - int (?N - (?sp + 1 + i))))"
      using bk [OF j(1)] by (simp add: mod_add_left_eq add.assoc)
    moreover have "n - int (?N - (?sp + 1 + i)) = ?T - int ?N + 1 + int i"
      using j small sp now by (simp add: of_nat_diff)
    ultimately show ?thesis by simp
  qed
  show ?thesis
  proof (rule nth_equalityI)
    show "length (RW_visited rw t) = length (map (\<lambda>k. filled (values_at t0 (interval rw) h k))
        [?T - int ?N + 1 .. ?hi])"
      using dl by (simp add: RW_visited_def Let_def diff_def)
    fix i assume "i < length (RW_visited rw t)"
    then have i: "i < diff" by (simp add: RW_visited_def Let_def diff_def)
    then have "[?T - int ?N + 1 .. ?hi] ! i = ?T - int ?N + 1 + int i"
      using dl by (intro nth_upto) simp
    then show "RW_visited rw t ! i =
        map (\<lambda>k. filled (values_at t0 (interval rw) h k)) [?T - int ?N + 1 .. ?hi] ! i"
      using i dl elem [OF i] N(2) by (simp add: RW_visited_def Let_def flip: diff_def)
  qed
qed

text \<open>Every run of additions with a clock that does not go back succeeds and is represented.\<close>

lemma represents_Adds:
  assumes "represents t0 h n rw" "sorted (map fst h')"
    and "\<And>t v. (t, v) \<in> set h' \<Longrightarrow> t0 + n * interval rw \<le> t"
  shows "\<exists>rw' n'. RW_Adds add reset rw h' = Inr rw' \<and> represents t0 (h @ h') n' rw'
    \<and> interval rw' = interval rw \<and> wsize rw' = wsize rw \<and> ignoreCurrent rw' = ignoreCurrent rw
    \<and> n' = (if h' = [] then n else tick t0 (interval rw) (fst (last h')))"
  using assms
proof (induction h' arbitrary: h n rw)
  case Nil
  then show ?case by auto
next
  case (Cons tv h')
  obtain t v where tv: "tv = (t, v)" by (cases tv)
  have pos: "0 < interval rw" using Cons.prems(1) by (simp add: represents_def rw_wf_def)
  have "t0 + n * interval rw \<le> t" using Cons.prems(3) [of t v] tv by simp
  then have "n \<le> tick t0 (interval rw) t" using pos by (simp add: tick_def int_le_div_iff)
  then obtain rw' where rw': "RW_Add add reset rw t t v = Inr rw'" "interval rw' = interval rw"
      "wsize rw' = wsize rw" "ignoreCurrent rw' = ignoreCurrent rw"
      "represents t0 (h @ [(t, v)]) (tick t0 (interval rw) t) rw'"
    using represents_Add [OF Cons.prems(1), of t t v] by auto
  have later: "t0 + tick t0 (interval rw) t * interval rw' \<le> t'" if "(t', v') \<in> set h'" for t' v'
  proof -
    have "t \<le> t'" using Cons.prems(2) tv that by force
    moreover have "tick t0 (interval rw) t * interval rw \<le> t - t0"
      using pos by (simp add: tick_def flip: int_le_div_iff)
    ultimately show ?thesis using rw'(2) by simp
  qed
  show ?case
    using Cons.IH [OF rw'(5) _ later] Cons.prems(2) rw' tv by auto
qed

end

text \<open>Collecting the values of consecutive intervals is selecting the history by interval.\<close>

lemma sum_values_upto:
  fixes f :: "'v \<Rightarrow> int"
  shows "sum_list (map (\<lambda>k. sum_list (map f (values_at t0 ivl h k))) [a..b]) =
    sum_list (map (\<lambda>(t, v). f v) (filter (\<lambda>(t, _). a \<le> tick t0 ivl t \<and> tick t0 ivl t \<le> b) h))"
proof (induction h rule: rev_induct)
  case Nil
  then show ?case by (simp add: values_at_def)
next
  case (snoc tv h)
  obtain t v where tv: "tv = (t, v)" by (cases tv)
  have one: "sum_list (map (\<lambda>k. if tick t0 ivl t = k then f v else 0) [a..b]) =
      (if a \<le> tick t0 ivl t \<and> tick t0 ivl t \<le> b then f v else 0)"
    by (simp add: sum_list_distinct_conv_sum_set sum.delta)
  have "sum_list (map (\<lambda>k. sum_list (map f (values_at t0 ivl (h @ [(t, v)]) k))) [a..b]) =
      sum_list (map (\<lambda>k. sum_list (map f (values_at t0 ivl h k)) +
        (if tick t0 ivl t = k then f v else 0)) [a..b])"
    by (intro arg_cong [where f = sum_list] map_cong) simp_all
  then show ?case using snoc one tv by (simp add: sum_list_addf)
qed

interpretation sum_bucket: bucket Bucket_Add Bucket_Reset emptyBucket
  by unfold_locales (simp add: Bucket_Reset_def emptyBucket_def)

lemma Bucket_filled: "sum_bucket.filled vs = \<lparr>Sum = sum_list vs, Count = int (length vs)\<rparr>"
  unfolding sum_bucket.filled_def
  by (induction vs rule: rev_induct) (simp_all add: emptyBucket_def Bucket_Add_def)

end
