(* ===== verification/Errno.thy ===== *)
theory Errno
  imports Prelude
begin

text \<open>
  \<open>pkg/errno\<close>: the framework's sentinel errors and their classifiers. The error type \<open>ErrorX\<close> and the
  functions \<open>errorsx.Code\<close> and \<open>errorsx.Reason\<close> belong to the library \<open>onexstack/pkg/errorsx\<close>, which is
  not part of the repository: an error carries the fields the sources write into it, and the two
  accessors are parameters \<open>Code\<close> and \<open>Reason\<close> of the classifiers. The standard library's context
  errors and errors built from a plain message are further constructors. A nil \<open>error\<close> is \<open>None\<close> of
  \<open>err option\<close>.
\<close>

datatype err =
    ErrorX (ecode: int) (ereason: string) (emessage: string) (ecause: "err option")
  | ContextDeadlineExceeded
  | ContextCanceled
  | ErrString string

definition StatusUnauthorized :: int where "StatusUnauthorized = 401"
definition StatusForbidden :: int where "StatusForbidden = 403"
definition StatusTooManyRequests :: int where "StatusTooManyRequests = 429"
definition StatusServiceUnavailable :: int where "StatusServiceUnavailable = 503"
definition StatusGatewayTimeout :: int where "StatusGatewayTimeout = 504"
definition StatusBadRequest :: int where "StatusBadRequest = 400"
definition StatusNotFound :: int where "StatusNotFound = 404"
definition StatusInternalServerError :: int where "StatusInternalServerError = 500"

lemmas status_defs = StatusUnauthorized_def StatusForbidden_def StatusTooManyRequests_def
  StatusServiceUnavailable_def StatusGatewayTimeout_def StatusBadRequest_def StatusNotFound_def
  StatusInternalServerError_def

definition ReasonCircuitOpen :: string where "ReasonCircuitOpen = ''ServiceUnavailable.CircuitOpen''"
definition ReasonNoInstance :: string where "ReasonNoInstance = ''ServiceUnavailable.NoInstance''"
definition ReasonTimeout :: string where "ReasonTimeout = ''ServiceUnavailable.Timeout''"
definition ReasonRateLimited :: string where "ReasonRateLimited = ''ResourceExhausted.RateLimited''"
definition ReasonOverloaded :: string where "ReasonOverloaded = ''ServiceUnavailable.Overloaded''"
definition ReasonBulkheadFull :: string where "ReasonBulkheadFull = ''ResourceExhausted.BulkheadFull''"
definition ReasonUnauthenticated :: string where "ReasonUnauthenticated = ''Unauthenticated''"
definition ReasonPermissionDenied :: string where "ReasonPermissionDenied = ''PermissionDenied''"

lemmas reason_defs = ReasonCircuitOpen_def ReasonNoInstance_def ReasonTimeout_def
  ReasonRateLimited_def ReasonOverloaded_def ReasonBulkheadFull_def ReasonUnauthenticated_def
  ReasonPermissionDenied_def

definition ErrCircuitOpen :: err where
  "ErrCircuitOpen = ErrorX StatusServiceUnavailable ReasonCircuitOpen ''Circuit breaker is open.'' None"
definition ErrNoInstance :: err where
  "ErrNoInstance = ErrorX StatusServiceUnavailable ReasonNoInstance ''No available service instance.'' None"
definition ErrTimeout :: err where
  "ErrTimeout = ErrorX StatusGatewayTimeout ReasonTimeout ''Request timed out.'' None"
definition ErrRateLimited :: err where
  "ErrRateLimited = ErrorX StatusTooManyRequests ReasonRateLimited ''Rate limit exceeded.'' None"
definition ErrServiceOverloaded :: err where
  "ErrServiceOverloaded = ErrorX StatusServiceUnavailable ReasonOverloaded ''Service is overloaded.'' None"
definition ErrBulkheadFull :: err where
  "ErrBulkheadFull = ErrorX StatusTooManyRequests ReasonBulkheadFull ''Downstream bulkhead is full.'' None"
definition ErrUnauthenticated :: err where
  "ErrUnauthenticated = ErrorX StatusUnauthorized ReasonUnauthenticated ''Unauthenticated.'' None"
definition ErrPermissionDenied :: err where
  "ErrPermissionDenied = ErrorX StatusForbidden ReasonPermissionDenied ''Permission denied.'' None"

lemmas sentinel_defs = ErrCircuitOpen_def ErrNoInstance_def ErrTimeout_def ErrRateLimited_def
  ErrServiceOverloaded_def ErrBulkheadFull_def ErrUnauthenticated_def ErrPermissionDenied_def

text \<open>The mutators \<open>Wrap\<close> and \<open>WithMessage\<close> copy the sentinel.\<close>

definition Wrap :: "err \<Rightarrow> err \<Rightarrow> err" where
  "Wrap e c = (case e of ErrorX co r m _ \<Rightarrow> ErrorX co r m (Some c) | _ \<Rightarrow> e)"

definition WithMessage :: "err \<Rightarrow> string \<Rightarrow> err" where
  "WithMessage e msg = (case e of ErrorX co r _ c \<Rightarrow> ErrorX co r msg c | _ \<Rightarrow> e)"

text \<open>\<open>errors.Is\<close> walks the chain of causes.\<close>

fun errors_Is :: "err \<Rightarrow> err \<Rightarrow> bool" where
  "errors_Is e target \<longleftrightarrow> e = target \<or>
     (case e of ErrorX _ _ _ (Some c) \<Rightarrow> errors_Is c target | _ \<Rightarrow> False)"

declare errors_Is.simps [simp del]

lemma errors_Is_simps [simp]:
  "errors_Is e e"
  "errors_Is (ErrorX co r m (Some c)) t \<longleftrightarrow> ErrorX co r m (Some c) = t \<or> errors_Is c t"
  "errors_Is (ErrorX co r m None) t \<longleftrightarrow> ErrorX co r m None = t"
  "errors_Is ContextDeadlineExceeded t \<longleftrightarrow> ContextDeadlineExceeded = t"
  "errors_Is ContextCanceled t \<longleftrightarrow> ContextCanceled = t"
  "errors_Is (ErrString s) t \<longleftrightarrow> ErrString s = t"
  by (subst errors_Is.simps, simp)+

section \<open>Classifiers\<close>

definition IsNotFound :: "(err option \<Rightarrow> int) \<Rightarrow> err option \<Rightarrow> bool" where
  "IsNotFound Code e \<longleftrightarrow> Code e = StatusNotFound"
definition IsBadRequest :: "(err option \<Rightarrow> int) \<Rightarrow> err option \<Rightarrow> bool" where
  "IsBadRequest Code e \<longleftrightarrow> Code e = StatusBadRequest"
definition IsUnauthenticated :: "(err option \<Rightarrow> int) \<Rightarrow> err option \<Rightarrow> bool" where
  "IsUnauthenticated Code e \<longleftrightarrow> Code e = StatusUnauthorized"
definition IsPermissionDenied :: "(err option \<Rightarrow> int) \<Rightarrow> err option \<Rightarrow> bool" where
  "IsPermissionDenied Code e \<longleftrightarrow> Code e = StatusForbidden"
definition IsTooManyRequests :: "(err option \<Rightarrow> int) \<Rightarrow> err option \<Rightarrow> bool" where
  "IsTooManyRequests Code e \<longleftrightarrow> Code e = StatusTooManyRequests"
definition IsInternal :: "(err option \<Rightarrow> int) \<Rightarrow> err option \<Rightarrow> bool" where
  "IsInternal Code e \<longleftrightarrow> Code e = StatusInternalServerError"
definition IsServiceUnavailable :: "(err option \<Rightarrow> int) \<Rightarrow> err option \<Rightarrow> bool" where
  "IsServiceUnavailable Code e \<longleftrightarrow> Code e = StatusServiceUnavailable"
definition IsGatewayTimeout :: "(err option \<Rightarrow> int) \<Rightarrow> err option \<Rightarrow> bool" where
  "IsGatewayTimeout Code e \<longleftrightarrow> Code e = StatusGatewayTimeout"
definition IsCircuitOpen :: "(err option \<Rightarrow> string) \<Rightarrow> err option \<Rightarrow> bool" where
  "IsCircuitOpen Reason e \<longleftrightarrow> Reason e = ReasonCircuitOpen"
definition IsTimeout :: "(err option \<Rightarrow> string) \<Rightarrow> err option \<Rightarrow> bool" where
  "IsTimeout Reason e \<longleftrightarrow> Reason e = ReasonTimeout"
definition IsRateLimited :: "(err option \<Rightarrow> string) \<Rightarrow> err option \<Rightarrow> bool" where
  "IsRateLimited Reason e \<longleftrightarrow> Reason e = ReasonRateLimited"
definition IsOverloaded :: "(err option \<Rightarrow> string) \<Rightarrow> err option \<Rightarrow> bool" where
  "IsOverloaded Reason e \<longleftrightarrow> Reason e = ReasonOverloaded"

lemmas classifier_defs = IsNotFound_def IsBadRequest_def IsUnauthenticated_def IsPermissionDenied_def
  IsTooManyRequests_def IsInternal_def IsServiceUnavailable_def IsGatewayTimeout_def
  IsCircuitOpen_def IsTimeout_def IsRateLimited_def IsOverloaded_def

text \<open>
  The interface of the external accessors: on an \<open>ErrorX\<close> they read its own fields. The eight sentinels
  are told apart by their reasons, and each reason classifier selects exactly one of them.
\<close>

definition sentinels :: "err list" where
  "sentinels = [ErrCircuitOpen, ErrNoInstance, ErrTimeout, ErrRateLimited, ErrServiceOverloaded,
     ErrBulkheadFull, ErrUnauthenticated, ErrPermissionDenied]"

lemma ereason_inj: "inj_on ereason (set sentinels)"
proof -
  have "distinct (map ereason sentinels)"
    by (simp add: sentinels_def sentinel_defs) (simp add: reason_defs)
  then show ?thesis by (simp add: distinct_map)
qed

lemma sentinel_members [simp]:
  "ErrCircuitOpen \<in> set sentinels" "ErrTimeout \<in> set sentinels" "ErrRateLimited \<in> set sentinels"
  "ErrServiceOverloaded \<in> set sentinels"
  by (simp_all add: sentinels_def)

lemma sentinel_ErrorX: "e \<in> set sentinels \<Longrightarrow> \<exists>c r m w. e = ErrorX c r m w"
  by (auto simp: sentinels_def sentinel_defs)

locale errorx_accessors =
  fixes Code :: "err option \<Rightarrow> int"
    and Reason :: "err option \<Rightarrow> string"
  assumes Code_ErrorX: "Code (Some (ErrorX c r m w)) = c"
    and Reason_ErrorX: "Reason (Some (ErrorX c r m w)) = r"
begin

lemma reason_classifiers:
  assumes "e \<in> set sentinels"
  shows "IsCircuitOpen Reason (Some e) \<longleftrightarrow> e = ErrCircuitOpen"
    and "IsTimeout Reason (Some e) \<longleftrightarrow> e = ErrTimeout"
    and "IsRateLimited Reason (Some e) \<longleftrightarrow> e = ErrRateLimited"
    and "IsOverloaded Reason (Some e) \<longleftrightarrow> e = ErrServiceOverloaded"
proof -
  have R: "Reason (Some e) = ereason e"
    using sentinel_ErrorX [OF assms] Reason_ErrorX by (metis err.sel(2))
  have eq: "Reason (Some e) = ereason s \<longleftrightarrow> e = s" if "s \<in> set sentinels" for s
    using inj_on_eq_iff [OF ereason_inj assms that] R by simp
  show "IsCircuitOpen Reason (Some e) \<longleftrightarrow> e = ErrCircuitOpen"
    using eq [of ErrCircuitOpen] by (simp add: IsCircuitOpen_def) (simp add: ErrCircuitOpen_def)
  show "IsTimeout Reason (Some e) \<longleftrightarrow> e = ErrTimeout"
    using eq [of ErrTimeout] by (simp add: IsTimeout_def) (simp add: ErrTimeout_def)
  show "IsRateLimited Reason (Some e) \<longleftrightarrow> e = ErrRateLimited"
    using eq [of ErrRateLimited] by (simp add: IsRateLimited_def) (simp add: ErrRateLimited_def)
  show "IsOverloaded Reason (Some e) \<longleftrightarrow> e = ErrServiceOverloaded"
    using eq [of ErrServiceOverloaded]
    by (simp add: IsOverloaded_def) (simp add: ErrServiceOverloaded_def)
qed

end

text \<open>The accessors that read the outermost \<open>ErrorX\<close>, with 500 and an empty reason otherwise.\<close>

definition outer_code :: "err option \<Rightarrow> int" where
  "outer_code e = (case e of Some (ErrorX c _ _ _) \<Rightarrow> c | None \<Rightarrow> 200 | _ \<Rightarrow> 500)"

definition outer_reason :: "err option \<Rightarrow> string" where
  "outer_reason e = (case e of Some (ErrorX _ r _ _) \<Rightarrow> r | _ \<Rightarrow> '''')"

interpretation outer: errorx_accessors outer_code outer_reason
  by unfold_locales (simp_all add: outer_code_def outer_reason_def)

lemma Wrap_keeps_class:
  "errors_Is (Wrap ErrTimeout c) c" and "ecode (Wrap ErrTimeout c) = StatusGatewayTimeout"
  and "ereason (Wrap ErrTimeout c) = ReasonTimeout"
  by (simp_all add: Wrap_def ErrTimeout_def)

end
