(* ===== verification/SreBreaker.thy ===== *)
theory SreBreaker
  imports RollingWindow Errno
begin

text \<open>
  \<open>pkg/resilience/breaker.go\<close> and \<open>breaker_registry.go\<close>: the client-side throttling breaker over a rolling
  window of outcomes, and the table of named breakers. The random draw of \<open>accept\<close> and the clock are
  arguments; all readings of the clock within one call are the same instant. A request is a function of
  the state it may change, returning its error or a panic.
\<close>

section \<open>Configuration\<close>

definition minK :: float64 where "minK = 11 / 10"
definition protection :: int where "protection = 5"
definition defaultWindow :: duration where "defaultWindow = 10 * Second"
definition defaultBucket :: int where "defaultBucket = 40"
definition defaultK :: float64 where "defaultK = 3 / 2"
definition defaultProbe :: duration where "defaultProbe = Second"

record breakerConfig =
  cwindow :: duration
  cbuckets :: int
  ck :: float64
  cprobeInterval :: duration
  cacceptable :: "err option \<Rightarrow> bool"

definition defaultBreakerConfig :: breakerConfig where
  "defaultBreakerConfig = \<lparr>cwindow = defaultWindow, cbuckets = defaultBucket, ck = defaultK,
     cprobeInterval = defaultProbe, cacceptable = (\<lambda>e. e = None)\<rparr>"

datatype breakerOption =
    WithWindow duration
  | WithBuckets int
  | WithK float64
  | WithProbeInterval duration
  | WithAcceptable "err option \<Rightarrow> bool"

primrec apply_breakerOption :: "breakerConfig \<Rightarrow> breakerOption \<Rightarrow> breakerConfig" where
  "apply_breakerOption c (WithWindow d) = c\<lparr>cwindow := d\<rparr>"
| "apply_breakerOption c (WithBuckets n) = c\<lparr>cbuckets := n\<rparr>"
| "apply_breakerOption c (WithK k) = c\<lparr>ck := k\<rparr>"
| "apply_breakerOption c (WithProbeInterval d) = c\<lparr>cprobeInterval := d\<rparr>"
| "apply_breakerOption c (WithAcceptable f) = c\<lparr>cacceptable := f\<rparr>"

section \<open>Buckets\<close>

datatype resultCode = resultSuccess | resultFailure | resultDrop

record breakerBucket =
  bSum :: int
  bSuccess :: int
  bFailure :: int
  bDrop :: int

definition newBreakerBucket :: breakerBucket where
  "newBreakerBucket = \<lparr>bSum = 0, bSuccess = 0, bFailure = 0, bDrop = 0\<rparr>"

fun breakerBucket_Add :: "breakerBucket \<Rightarrow> resultCode \<Rightarrow> breakerBucket" where
  "breakerBucket_Add b resultFailure = b\<lparr>bSum := bSum b + 1, bFailure := bFailure b + 1\<rparr>"
| "breakerBucket_Add b resultDrop = b\<lparr>bSum := bSum b + 1, bDrop := bDrop b + 1\<rparr>"
| "breakerBucket_Add b resultSuccess = b\<lparr>bSum := bSum b + 1, bSuccess := bSuccess b + 1\<rparr>"

definition breakerBucket_Reset :: "breakerBucket \<Rightarrow> breakerBucket" where
  "breakerBucket_Reset b = b\<lparr>bSum := 0, bSuccess := 0, bFailure := 0, bDrop := 0\<rparr>"

interpretation breaker_bucket: bucket breakerBucket_Add breakerBucket_Reset newBreakerBucket
  by unfold_locales (simp add: breakerBucket_Reset_def newBreakerBucket_def)

definition occurrences :: "resultCode \<Rightarrow> resultCode list \<Rightarrow> int" where
  "occurrences r rs = int (count_list rs r)"

lemma breaker_filled:
  "breaker_bucket.filled rs = \<lparr>bSum = int (length rs), bSuccess = occurrences resultSuccess rs,
     bFailure = occurrences resultFailure rs, bDrop = occurrences resultDrop rs\<rparr>"
  unfolding breaker_bucket.filled_def
proof (induction rs rule: rev_induct)
  case Nil
  then show ?case by (simp add: newBreakerBucket_def occurrences_def)
next
  case (snoc r rs)
  then show ?case by (cases r) (simp_all add: occurrences_def)
qed

section \<open>The breaker\<close>

record sreBreaker =
  kfac :: float64
  nbuckets :: int
  stat :: "breakerBucket rollingWindow"
  probeInterval :: duration
  lastPass :: time

record windowResult =
  accepts :: int
  total :: int
  failingBuckets :: int
  workingBuckets :: int

definition newSREBreaker :: "breakerConfig \<Rightarrow> time \<Rightarrow> sreBreaker go" where
  "newSREBreaker cfg now =
     (let bk = (if cbuckets cfg < 1 then defaultBucket else cbuckets cfg);
          bucketDuration = cwindow cfg sdiv bk
      in case NewRollingWindow newBreakerBucket bk bucketDuration False now of
           Inl p \<Rightarrow> Inl p
         | Inr st \<Rightarrow> Inr \<lparr>kfac = ck cfg, nbuckets = bk, stat = st, probeInterval = cprobeInterval cfg,
                         lastPass = 0\<rparr>)"

definition atLeast :: "float64 \<Rightarrow> float64 \<Rightarrow> float64" where
  "atLeast x lower = (if x < lower then lower else x)"

definition history_step :: "windowResult \<Rightarrow> breakerBucket \<Rightarrow> windowResult" where
  "history_step r b = r\<lparr>accepts := accepts r + bSuccess b, total := total r + bSum b,
     workingBuckets := (if bSuccess b > 0 then workingBuckets r + 1 else workingBuckets r),
     failingBuckets := (if bFailure b > 0 then failingBuckets r + 1 else failingBuckets r)\<rparr>"

definition history :: "sreBreaker \<Rightarrow> time \<Rightarrow> windowResult go" where
  "history b now = RW_Reduce history_step
     \<lparr>accepts = 0, total = 0, failingBuckets = 0, workingBuckets = 0\<rparr> (stat b) now"

definition drop_ratio :: "sreBreaker \<Rightarrow> windowResult \<Rightarrow> float64" where
  "drop_ratio b h =
     (let w = kfac b - (kfac b - minK) * of_int (failingBuckets h) / of_int (nbuckets b);
          weightedAccepts = atLeast w minK * of_int (accepts h)
      in (of_int (total h - protection) - weightedAccepts) / of_int (total h + 1))"

text \<open>\<open>accept\<close> returns the error of a rejected request; \<open>rnd\<close> is the draw of \<open>rand.Float64\<close>.\<close>

definition accept :: "sreBreaker \<Rightarrow> time \<Rightarrow> float64 \<Rightarrow> (err option \<times> sreBreaker) go" where
  "accept b now rnd =
     (case history b now of
        Inl p \<Rightarrow> Inl p
      | Inr h \<Rightarrow>
          let dropRatio = drop_ratio b h
          in if dropRatio \<le> 0 then Inr (None, b)
             else if lastPass b > 0 \<and> now - lastPass b > probeInterval b
               then Inr (None, b\<lparr>lastPass := now\<rparr>)
             else let dropRatio = dropRatio * (of_int (nbuckets b - workingBuckets h) / of_int (nbuckets b))
                  in if rnd < dropRatio then Inr (Some ErrCircuitOpen, b)
                     else Inr (None, b\<lparr>lastPass := now\<rparr>))"

definition mark :: "sreBreaker \<Rightarrow> time \<Rightarrow> resultCode \<Rightarrow> sreBreaker go" where
  "mark b now r = (case RW_Add breakerBucket_Add breakerBucket_Reset (stat b) now now r of
       Inl p \<Rightarrow> Inl p | Inr st \<Rightarrow> Inr (b\<lparr>stat := st\<rparr>))"

text \<open>
  \<open>doReq\<close>: the outcome of the request is its error or a panic; the deferred call records a failure
  when the request panics, and the panic goes on to the caller. Calls are sequential here: the window a call decides
  on is the one it records in.
\<close>

definition doReq :: "sreBreaker \<Rightarrow> time \<Rightarrow> float64 \<Rightarrow> (unit \<Rightarrow> err option go) \<Rightarrow> time
    \<Rightarrow> (err option \<Rightarrow> bool) \<Rightarrow> (err option go \<times> sreBreaker) go" where
  "doReq b now rnd req now' acceptable =
     (case accept b now rnd of
        Inl p \<Rightarrow> Inl p
      | Inr (Some e, b) \<Rightarrow>
          (case mark b now resultDrop of Inl p \<Rightarrow> Inl p | Inr b \<Rightarrow> Inr (Inr (Some e), b))
      | Inr (None, b) \<Rightarrow>
          (let outcome = req ();
               succ = (case outcome of Inl _ \<Rightarrow> False | Inr e \<Rightarrow> acceptable e)
           in case mark b now' (if succ then resultSuccess else resultFailure) of
                Inl p \<Rightarrow> Inl p | Inr b \<Rightarrow> Inr (outcome, b)))"

definition healthy :: "sreBreaker \<Rightarrow> time \<Rightarrow> bool go" where
  "healthy b now = (case history b now of Inl p \<Rightarrow> Inl p | Inr h \<Rightarrow> Inr (drop_ratio b h \<le> 0))"

section \<open>The registry of named breakers\<close>

record breakerRegistry =
  breakers :: "string \<rightharpoonup> sreBreaker"
  rcfg :: breakerConfig

definition NewBreakerRegistry :: "breakerOption list \<Rightarrow> breakerRegistry" where
  "NewBreakerRegistry opts =
     \<lparr>breakers = Map.empty, rcfg = foldl apply_breakerOption defaultBreakerConfig opts\<rparr>"

definition Registry_Get :: "breakerRegistry \<Rightarrow> string \<Rightarrow> time \<Rightarrow> (sreBreaker \<times> breakerRegistry) go" where
  "Registry_Get r name now =
     (case breakers r name of
        Some b \<Rightarrow> Inr (b, r)
      | None \<Rightarrow> (case newSREBreaker (rcfg r) now of
            Inl p \<Rightarrow> Inl p
          | Inr b \<Rightarrow> Inr (b, r\<lparr>breakers := (breakers r)(name \<mapsto> b)\<rparr>)))"

text \<open>
  The table holds pointers: what \<open>doReq\<close> does to the breaker it was given is seen by the next \<open>Get\<close>.
\<close>

definition Registry_Do :: "breakerRegistry \<Rightarrow> string \<Rightarrow> time \<Rightarrow> float64 \<Rightarrow> (unit \<Rightarrow> err option go) \<Rightarrow> time
    \<Rightarrow> (err option \<Rightarrow> bool) option \<Rightarrow> (err option go \<times> breakerRegistry) go" where
  "Registry_Do r name now rnd req now' acceptable =
     (case Registry_Get r name now of
        Inl p \<Rightarrow> Inl p
      | Inr (b, r) \<Rightarrow>
          (case doReq b now rnd req now' (case acceptable of None \<Rightarrow> cacceptable (rcfg r) | Some f \<Rightarrow> f) of
             Inl p \<Rightarrow> Inl p
           | Inr (res, b) \<Rightarrow> Inr (res, r\<lparr>breakers := (breakers r)(name \<mapsto> b)\<rparr>)))"

definition NoBreakerFor :: "breakerRegistry \<Rightarrow> string \<Rightarrow> breakerRegistry" where
  "NoBreakerFor r name = r\<lparr>breakers := (breakers r)(name := None)\<rparr>"

definition Registry_Healthy :: "breakerRegistry \<Rightarrow> string \<Rightarrow> time \<Rightarrow> (bool \<times> breakerRegistry) go" where
  "Registry_Healthy r name now =
     (case Registry_Get r name now of
        Inl p \<Rightarrow> Inl p
      | Inr (b, r) \<Rightarrow> (case healthy b now of Inl p \<Rightarrow> Inl p | Inr h \<Rightarrow> Inr (h, r)))"

section \<open>The window of outcomes\<close>

definition outcomes_since :: "time \<Rightarrow> duration \<Rightarrow> (time \<times> resultCode) list \<Rightarrow> int \<Rightarrow> int \<Rightarrow> resultCode list" where
  "outcomes_since t0 ivl h a b = map snd (filter (\<lambda>(t, _). a \<le> tick t0 ivl t \<and> tick t0 ivl t \<le> b) h)"

lemma history_fold:
  "foldl history_step r bs = r\<lparr>accepts := accepts r + sum_list (map bSuccess bs),
     total := total r + sum_list (map bSum bs),
     failingBuckets := failingBuckets r + int (length (filter (\<lambda>b. bFailure b > 0) bs)),
     workingBuckets := workingBuckets r + int (length (filter (\<lambda>b. bSuccess b > 0) bs))\<rparr>"
  by (induction bs arbitrary: r) (simp_all add: history_step_def)

text \<open>
  The totals that \<open>accept\<close> sees are those of the outcomes recorded in the last \<open>buckets\<close> intervals,
  the current one included.
\<close>

lemma history_represents:
  assumes rep: "breaker_bucket.represents t0 h n (stat b)" and ig: "\<not> ignoreCurrent (stat b)"
    and now: "n \<le> tick t0 (interval (stat b)) now"
  shows "\<exists>r. history b now = Inr r
    \<and> accepts r = occurrences resultSuccess (outcomes_since t0 (interval (stat b)) h
        (tick t0 (interval (stat b)) now - int (wsize (stat b)) + 1) (tick t0 (interval (stat b)) now))
    \<and> total r = int (length (outcomes_since t0 (interval (stat b)) h
        (tick t0 (interval (stat b)) now - int (wsize (stat b)) + 1) (tick t0 (interval (stat b)) now)))
    \<and> 0 \<le> failingBuckets r \<and> failingBuckets r \<le> int (wsize (stat b))
    \<and> 0 \<le> workingBuckets r \<and> workingBuckets r \<le> int (wsize (stat b))"
proof -
  let ?ivl = "interval (stat b)" and ?N = "int (wsize (stat b))"
  let ?T = "tick t0 ?ivl now"
  have wf: "rw_wf (stat b)" and le: "\<And>t v. (t, v) \<in> set h \<Longrightarrow> tick t0 ?ivl t \<le> n"
    using rep by (auto simp: breaker_bucket.represents_def)
  define bs where "bs = RW_visited (stat b) now"
  have bs: "bs = map (\<lambda>k. breaker_bucket.filled (values_at t0 ?ivl h k)) [?T - ?N + 1 .. n]"
    using breaker_bucket.visited_represents [OF rep now] ig by (simp add: bs_def)
  have sel: "filter (\<lambda>(t, _). ?T - ?N + 1 \<le> tick t0 ?ivl t \<and> tick t0 ?ivl t \<le> n) h =
      filter (\<lambda>(t, _). ?T - ?N + 1 \<le> tick t0 ?ivl t \<and> tick t0 ?ivl t \<le> ?T) h"
    using le now by (auto intro!: filter_cong dest: order_trans)
  have occ: "occurrences r vs = sum_list (map (\<lambda>x. if x = r then 1 else 0) vs)" for r vs
    by (induction vs) (simp_all add: occurrences_def)
  have len: "int (length vs) = sum_list (map (\<lambda>x. 1) vs)" for vs :: "resultCode list"
    by (induction vs) simp_all
  have acc: "sum_list (map bSuccess bs) =
      occurrences resultSuccess (outcomes_since t0 ?ivl h (?T - ?N + 1) ?T)"
    using sum_values_upto [of "\<lambda>x. if x = resultSuccess then 1 else 0" t0 ?ivl h "?T - ?N + 1" n] sel
    by (simp add: bs breaker_filled occ outcomes_since_def comp_def case_prod_unfold)
  have tot: "sum_list (map bSum bs) = int (length (outcomes_since t0 ?ivl h (?T - ?N + 1) ?T))"
    using sum_values_upto [of "\<lambda>x. 1" t0 ?ivl h "?T - ?N + 1" n] sel
    by (simp add: bs breaker_filled len outcomes_since_def comp_def case_prod_unfold del: length_map)
  have lb: "length (filter P bs) \<le> wsize (stat b)" for P
    using RW_visited_length [of "stat b" now] length_filter_le [of P bs]
    unfolding bs_def by (rule le_trans [rotated])
  show ?thesis
    using lb acc tot
    by (simp add: history_def RW_Reduce_wf [OF wf] history_fold flip: bs_def)
qed

section \<open>Admission\<close>

text \<open>A breaker made by \<open>newSREBreaker\<close> over whose window a history of outcomes was recorded.\<close>

definition breaker_ok :: "time \<Rightarrow> (time \<times> resultCode) list \<Rightarrow> int \<Rightarrow> sreBreaker \<Rightarrow> bool" where
  "breaker_ok t0 h n b \<longleftrightarrow> breaker_bucket.represents t0 h n (stat b) \<and> \<not> ignoreCurrent (stat b)
     \<and> nbuckets b = int (wsize (stat b))"

definition window_outcomes :: "time \<Rightarrow> (time \<times> resultCode) list \<Rightarrow> sreBreaker \<Rightarrow> time \<Rightarrow> resultCode list" where
  "window_outcomes t0 h b now = outcomes_since t0 (interval (stat b)) h
     (tick t0 (interval (stat b)) now - nbuckets b + 1) (tick t0 (interval (stat b)) now)"

lemma newSREBreaker_ok:
  assumes "newSREBreaker cfg t0 = Inr b" and "0 < interval (stat b)"
  shows "breaker_ok t0 [] 0 b"
proof -
  let ?bk = "if cbuckets cfg < 1 then defaultBucket else cbuckets cfg"
  obtain st where st: "NewRollingWindow newBreakerBucket ?bk (cwindow cfg sdiv ?bk) False t0 = Inr st"
      and b: "stat b = st" "nbuckets b = ?bk"
    using assms(1) by (auto simp: newSREBreaker_def Let_def split: sum.splits)
  then have ivl: "0 < cwindow cfg sdiv ?bk"
    using assms(2) by (auto simp: NewRollingWindow_def split: if_splits)
  show ?thesis
    using breaker_bucket.represents_New [OF st ivl] st b
    by (auto simp: breaker_ok_def NewRollingWindow_def split: if_splits)
qed

lemma breaker_ok_history:
  assumes "breaker_ok t0 h n b" "n \<le> tick t0 (interval (stat b)) now"
  shows "\<exists>r. history b now = Inr r
    \<and> accepts r = occurrences resultSuccess (window_outcomes t0 h b now)
    \<and> total r = int (length (window_outcomes t0 h b now))
    \<and> 0 \<le> failingBuckets r \<and> failingBuckets r \<le> nbuckets b
    \<and> 0 \<le> workingBuckets r \<and> workingBuckets r \<le> nbuckets b \<and> 0 < nbuckets b"
  using history_represents [of t0 h n b now] assms
  by (auto simp: breaker_ok_def window_outcomes_def breaker_bucket.represents_def rw_wf_def)

lemma drop_ratio_le_0_iff:
  assumes "0 \<le> total r"
  shows "drop_ratio b r \<le> 0 \<longleftrightarrow>
    of_int (total r - protection) \<le>
      atLeast (kfac b - (kfac b - minK) * of_int (failingBuckets r) / of_int (nbuckets b)) minK * of_int (accepts r)"
proof -
  have "0 < (of_int (total r + 1) :: rat)" using assms by simp
  then show ?thesis unfolding drop_ratio_def Let_def by (simp only: divide_le_0_iff) simp
qed

lemma atLeast_ge: "lower \<le> atLeast x lower"
  by (simp add: atLeast_def)

lemma occurrences_pos: "0 < occurrences r rs \<longleftrightarrow> r \<in> set rs"
  unfolding occurrences_def by (metis count_list_0_iff neq0_conv of_nat_0_less_iff)

lemma occurrences_bounds: "0 \<le> occurrences r rs" "occurrences r rs \<le> int (length rs)"
  by (simp_all add: occurrences_def count_le_length)

text \<open>With no more than the protected number of outcomes, or successes only, nothing is dropped.\<close>

lemma drop_ratio_protected:
  assumes "0 \<le> accepts r" "0 \<le> total r" "total r \<le> protection \<or> accepts r = total r"
  shows "drop_ratio b r \<le> 0"
proof -
  let ?w = "atLeast (kfac b - (kfac b - minK) * of_int (failingBuckets r) / of_int (nbuckets b)) minK"
  have w: "1 \<le> ?w" using atLeast_ge [of minK] by (rule order_trans [rotated]) (simp add: minK_def)
  have acc: "of_int (accepts r) \<le> ?w * of_int (accepts r)"
    using mult_right_mono [OF w, of "of_int (accepts r)"] assms(1) by simp
  have "of_int (total r - protection) \<le> (of_int (accepts r) :: rat)"
    using assms by (auto simp: protection_def of_int_diff [symmetric] simp del: of_int_diff)
  then show ?thesis using acc assms(2) by (simp add: drop_ratio_le_0_iff)
qed

lemma accept_cases:
  assumes "history b now = Inr r"
  shows "accept b now rnd =
    (if drop_ratio b r \<le> 0 then Inr (None, b)
     else if lastPass b > 0 \<and> now - lastPass b > probeInterval b then Inr (None, b\<lparr>lastPass := now\<rparr>)
     else if rnd < drop_ratio b r * (of_int (nbuckets b - workingBuckets r) / of_int (nbuckets b))
       then Inr (Some ErrCircuitOpen, b)
     else Inr (None, b\<lparr>lastPass := now\<rparr>))"
  using assms by (simp add: accept_def Let_def)

lemma mark_ok:
  assumes "breaker_ok t0 h n b" "n \<le> tick t0 (interval (stat b)) t"
  shows "\<exists>b'. mark b t r = Inr b' \<and> breaker_ok t0 (h @ [(t, r)]) (tick t0 (interval (stat b)) t) b'
    \<and> interval (stat b') = interval (stat b) \<and> kfac b' = kfac b \<and> lastPass b' = lastPass b
    \<and> probeInterval b' = probeInterval b \<and> nbuckets b' = nbuckets b"
proof -
  have rep: "breaker_bucket.represents t0 h n (stat b)" using assms(1) by (simp add: breaker_ok_def)
  show ?thesis
    using breaker_bucket.represents_Add [OF rep assms(2) refl, of r] assms(1)
    by (auto simp: mark_def breaker_ok_def)
qed

lemma breaker_ok_lastPass [simp]: "breaker_ok t0 h n (b\<lparr>lastPass := t\<rparr>) = breaker_ok t0 h n b"
  by (simp add: breaker_ok_def)

lemma accept_result:
  assumes "breaker_ok t0 h n b" "n \<le> tick t0 (interval (stat b)) now"
  shows "\<exists>e b'. accept b now rnd = Inr (e, b') \<and> (e = None \<or> e = Some ErrCircuitOpen)
    \<and> (b' = b \<or> b' = b\<lparr>lastPass := now\<rparr>)"
  using breaker_ok_history [OF assms] by (auto simp: accept_cases)

section \<open>Properties\<close>

text \<open>
  C1. Every call of the breaker records exactly one outcome in the window and never fails on its own:
  a rejected request is recorded as a drop and returns \<open>ErrCircuitOpen\<close> without running, an admitted
  request returns what it returned (a panic included) and is recorded as a success exactly when its
  error is acceptable. The parameters of the breaker do not change.
\<close>

theorem doReq_records:
  assumes ok: "breaker_ok t0 h n b" and now: "n \<le> tick t0 (interval (stat b)) now" and le: "now \<le> now'"
  shows "\<exists>res b'. doReq b now rnd req now' acceptable = Inr (res, b')
    \<and> (if \<exists>e b1. accept b now rnd = Inr (Some e, b1)
       then res = Inr (Some ErrCircuitOpen) \<and>
            breaker_ok t0 (h @ [(now, resultDrop)]) (tick t0 (interval (stat b)) now) b'
       else res = req () \<and>
            breaker_ok t0 (h @ [(now', if (case req () of Inl _ \<Rightarrow> False | Inr e \<Rightarrow> acceptable e)
                                       then resultSuccess else resultFailure)])
              (tick t0 (interval (stat b)) now') b')
    \<and> kfac b' = kfac b \<and> nbuckets b' = nbuckets b \<and> probeInterval b' = probeInterval b
    \<and> interval (stat b') = interval (stat b)"
proof -
  have pos: "0 < interval (stat b)"
    using ok by (simp add: breaker_ok_def breaker_bucket.represents_def rw_wf_def)
  obtain e b1 where a: "accept b now rnd = Inr (e, b1)" "e = None \<or> e = Some ErrCircuitOpen"
      and b1: "b1 = b \<or> b1 = b\<lparr>lastPass := now\<rparr>"
    using accept_result [OF ok now] by blast
  have ok1: "breaker_ok t0 h n b1" and same: "stat b1 = stat b" "kfac b1 = kfac b"
      "nbuckets b1 = nbuckets b" "probeInterval b1 = probeInterval b"
    using ok b1 by auto
  have now': "n \<le> tick t0 (interval (stat b)) now'"
    using now zdiv_mono1 [of "now - t0" "now' - t0" "interval (stat b)"] le pos
    by (simp add: tick_def)
  show ?thesis
  proof (cases e)
    case None
    then show ?thesis
      using a mark_ok [OF ok1, of now'] now' same
      by (force simp: doReq_def Let_def)
  next
    case (Some x)
    then show ?thesis
      using a mark_ok [OF ok1, of now resultDrop] now same by (force simp: doReq_def)
  qed
qed

definition example_breaker :: sreBreaker where
  "example_breaker = \<lparr>kfac = 3 / 2, nbuckets = 2,
     stat = \<lparr>wsize = 2, buckets = [newBreakerBucket, newBreakerBucket], interval = 10, offset = 0,
             ignoreCurrent = False, lastTime = 0\<rparr>,
     probeInterval = 5, lastPass = 0\<rparr>"

lemma example_breaker_ok: "breaker_ok 0 [] 0 example_breaker"
proof -
  have "newSREBreaker \<lparr>cwindow = 20, cbuckets = 2, ck = 3 / 2, cprobeInterval = 5,
      cacceptable = (\<lambda>e. e = None)\<rparr> 0 = Inr example_breaker"
    by (simp add: newSREBreaker_def NewRollingWindow_def example_breaker_def numeral_2_eq_2)
  then show ?thesis by (rule newSREBreaker_ok) (simp add: example_breaker_def)
qed

theorem doReq_records_witness:
  "\<exists>res b'. doReq example_breaker 3 0 (\<lambda>_. Inr None) 4 (\<lambda>e. e = None) = Inr (res, b')
     \<and> res = Inr None \<and> breaker_ok 0 [(4, resultSuccess)] 0 b'"
proof -
  have now: "0 \<le> tick 0 (interval (stat example_breaker)) 3" by (simp add: tick_def example_breaker_def)
  have acc: "accept example_breaker 3 0 = Inr (None, example_breaker)" by code_simp
  show ?thesis
    using doReq_records [OF example_breaker_ok now, of 4 0 "\<lambda>_. Inr None" "\<lambda>e. e = None"] acc
    by (auto simp: example_breaker_def tick_def)
qed

text \<open>
  The breaker never rejects a request while the window holds no more than five outcomes, nor while
  everything the window holds is a success, whatever the random draw; and it does not change its state
  then.
\<close>

theorem accept_protected:
  assumes ok: "breaker_ok t0 h n b" and now: "n \<le> tick t0 (interval (stat b)) now"
    and few: "length (window_outcomes t0 h b now) \<le> 5 \<or> set (window_outcomes t0 h b now) \<subseteq> {resultSuccess}"
  shows "accept b now rnd = Inr (None, b) \<and> healthy b now = Inr True"
proof -
  let ?w = "window_outcomes t0 h b now"
  obtain r where r: "history b now = Inr r" "accepts r = occurrences resultSuccess ?w"
      "total r = int (length ?w)"
    using breaker_ok_history [OF ok now] by blast
  have "occurrences resultSuccess ?w = int (length ?w)" if "set ?w \<subseteq> {resultSuccess}"
    using that by (auto simp: occurrences_def count_list_eq_length_filter intro!: arg_cong [where f = length] filter_True)
  then have "drop_ratio b r \<le> 0"
    using few r occurrences_bounds by (intro drop_ratio_protected) (auto simp: protection_def)
  then show ?thesis using r by (simp add: accept_cases healthy_def)
qed

theorem accept_protected_witness:
  "accept example_breaker 3 0 = Inr (None, example_breaker) \<and> healthy example_breaker 3 = Inr True"
proof -
  have now: "0 \<le> tick 0 (interval (stat example_breaker)) 3" by (simp add: tick_def example_breaker_def)
  show ?thesis
    using accept_protected [OF example_breaker_ok now]
    by (simp add: window_outcomes_def outcomes_since_def)
qed

text \<open>
  The breaker recovers: once more than the probe interval has passed since the last request it let
  through while throttling, the next request is admitted whatever the window and the random draw say.
\<close>

theorem accept_probe:
  assumes ok: "breaker_ok t0 h n b" and now: "n \<le> tick t0 (interval (stat b)) now"
    and probe: "0 < lastPass b" "probeInterval b < now - lastPass b"
  shows "\<exists>b'. accept b now rnd = Inr (None, b')"
  using breaker_ok_history [OF ok now] probe by (auto simp: accept_cases)

theorem accept_probe_witness:
  "\<exists>b'. accept (example_breaker\<lparr>lastPass := 1\<rparr>) 9 0 = Inr (None, b')"
proof -
  have now: "0 \<le> tick 0 (interval (stat (example_breaker\<lparr>lastPass := 1\<rparr>))) 9"
    by (simp add: tick_def example_breaker_def)
  have ok: "breaker_ok 0 [] 0 (example_breaker\<lparr>lastPass := 1\<rparr>)" by (simp add: example_breaker_ok)
  show ?thesis using accept_probe [OF ok now, of 0] by (simp add: example_breaker_def)
qed

text \<open>
  A window in which every bucket holds at least one success never rejects anything, however many
  failures it holds: the factor that the source describes as reducing the ratio while the window warms
  up is zero exactly when all buckets are working.
\<close>

theorem accept_all_working:
  assumes ok: "breaker_ok t0 h n b" and now: "n \<le> tick t0 (interval (stat b)) now"
    and succ: "\<forall>i \<in> {tick t0 (interval (stat b)) now - nbuckets b + 1 .. tick t0 (interval (stat b)) now}.
      resultSuccess \<in> set (values_at t0 (interval (stat b)) h i)"
    and rnd: "0 \<le> rnd"
  shows "\<exists>b'. accept b now rnd = Inr (None, b')"
proof -
  let ?T = "tick t0 (interval (stat b)) now" and ?ivl = "interval (stat b)"
  have rep: "breaker_bucket.represents t0 h n (stat b)" and nb: "nbuckets b = int (wsize (stat b))"
      and wf: "rw_wf (stat b)" and ig: "\<not> ignoreCurrent (stat b)"
    using ok by (simp_all add: breaker_ok_def breaker_bucket.represents_def)
  have nbpos: "0 < nbuckets b" using nb wf by (simp add: rw_wf_def)
  have "resultSuccess \<in> set (values_at t0 ?ivl h ?T)" using succ nbpos by simp
  then have nT: "n = ?T"
    using values_at_later [of h t0 ?ivl n ?T] rep now
    by (fastforce simp: breaker_bucket.represents_def)
  let ?bs = "RW_visited (stat b) now"
  have bs: "?bs = map (\<lambda>i. breaker_bucket.filled (values_at t0 ?ivl h i)) [?T - nbuckets b + 1 .. ?T]"
    using breaker_bucket.visited_represents [OF rep now] ig nT nb by simp
  have "filter (\<lambda>x. bSuccess x > 0) ?bs = ?bs"
    using succ by (auto simp: bs breaker_filled occurrences_pos intro!: filter_True)
  then have "int (length (filter (\<lambda>x. bSuccess x > 0) ?bs)) = nbuckets b"
    using bs nbpos by simp
  then obtain r where "history b now = Inr r" "workingBuckets r = nbuckets b"
    by (simp add: history_def RW_Reduce_wf [OF wf] history_fold)
  then show ?thesis using rnd by (auto simp: accept_cases)
qed

definition failing_window :: sreBreaker where
  "failing_window = \<lparr>kfac = 3 / 2, nbuckets = 1,
     stat = \<lparr>wsize = 1, buckets = [\<lparr>bSum = 9, bSuccess = 1, bFailure = 8, bDrop = 0\<rparr>], interval = 10,
             offset = 0, ignoreCurrent = False, lastTime = 0\<rparr>,
     probeInterval = 5, lastPass = 0\<rparr>"

definition failing_history :: "(time \<times> resultCode) list" where
  "failing_history = (1, resultSuccess) # replicate 8 (2, resultFailure)"

theorem accept_all_working_witness:
  "healthy failing_window 3 = Inr False \<and> (\<exists>b'. accept failing_window 3 0 = Inr (None, b'))"
proof -
  have vals: "values_at 0 10 failing_history 0 = resultSuccess # replicate 8 resultFailure"
    by (simp add: values_at_def failing_history_def tick_def)
  have filled: "breaker_bucket.filled (resultSuccess # replicate 8 resultFailure) =
      \<lparr>bSum = 9, bSuccess = 1, bFailure = 8, bDrop = 0\<rparr>"
    unfolding breaker_filled occurrences_def by code_simp
  have ok: "breaker_ok 0 failing_history 0 failing_window"
    using vals filled
    by (auto simp: breaker_ok_def breaker_bucket.represents_def rw_wf_def failing_window_def
        bucket_back_def failing_history_def tick_def)
  have now: "0 \<le> tick 0 (interval (stat failing_window)) 3" by (simp add: tick_def failing_window_def)
  have "\<exists>b'. accept failing_window 3 0 = Inr (None, b')"
    using accept_all_working [OF ok now, of 0] vals by (simp add: failing_window_def tick_def)
  moreover have "healthy failing_window 3 = Inr False" by code_simp
  ultimately show ?thesis by simp
qed

end
