(* ===== verification/Limit.thy ===== *)
theory Limit
  imports Errno
begin

text \<open>
  The channel semaphore \<open>pkg/core/limit\<close> and what is built directly on it: the bulkhead of
  \<open>pkg/resilience/bulkhead.go\<close>, the \<open>ConcurrencyLimiter\<close> of \<open>pkg/ratelimit/concurrency.go\<close> and the
  non-blocking part of \<open>pkg/core/syncx/timeoutlimit.go\<close>. A buffered channel of empty structs is its
  capacity and the number of buffered values; a blocking send is a step that is enabled only when there
  is room.
\<close>

section \<open>Limit\<close>

record limit =
  pool_cap :: nat
  pool_len :: nat

definition ErrLimitReturn :: err where
  "ErrLimitReturn = ErrString ''limit: discarding token, pool is full, returned multiple times''"

text \<open>\<open>make(chan struct{}, n)\<close> panics on a negative size.\<close>

definition NewLimit :: "int \<Rightarrow> limit go" where
  "NewLimit n = (if n < 0 then Inl (Panic ''makechan: size out of range'')
     else Inr \<lparr>pool_cap = nat n, pool_len = 0\<rparr>)"

text \<open>\<open>Borrow\<close> blocks (no result) while the channel is full.\<close>

definition Limit_Borrow :: "limit \<Rightarrow> limit option" where
  "Limit_Borrow l = (if pool_len l < pool_cap l then Some (l\<lparr>pool_len := pool_len l + 1\<rparr>) else None)"

definition Limit_Return :: "limit \<Rightarrow> err option \<times> limit" where
  "Limit_Return l =
     (if 0 < pool_len l then (None, l\<lparr>pool_len := pool_len l - 1\<rparr>) else (Some ErrLimitReturn, l))"

definition Limit_TryBorrow :: "limit \<Rightarrow> bool \<times> limit" where
  "Limit_TryBorrow l =
     (if pool_len l < pool_cap l then (True, l\<lparr>pool_len := pool_len l + 1\<rparr>) else (False, l))"

section \<open>The contract of a semaphore\<close>

text \<open>
  The clients below rely on these laws of \<open>TryBorrow\<close> and \<open>Return\<close> over the number of slots in use.
\<close>

locale semaphore =
  fixes try_borrow :: "'l \<Rightarrow> bool \<times> 'l"
    and give_back :: "'l \<Rightarrow> err option \<times> 'l"
    and in_use :: "'l \<Rightarrow> nat"
    and capacity :: "'l \<Rightarrow> nat"
  assumes borrow_room: "in_use l < capacity l \<Longrightarrow>
      fst (try_borrow l) \<and> in_use (snd (try_borrow l)) = Suc (in_use l)"
    and borrow_full: "capacity l \<le> in_use l \<Longrightarrow> try_borrow l = (False, l)"
    and borrow_capacity: "capacity (snd (try_borrow l)) = capacity l"
    and back_used: "0 < in_use l \<Longrightarrow>
      fst (give_back l) = None \<and> in_use (snd (give_back l)) = in_use l - 1"
    and back_unused: "in_use l = 0 \<Longrightarrow> fst (give_back l) \<noteq> None \<and> snd (give_back l) = l"
    and back_capacity: "capacity (snd (give_back l)) = capacity l"
begin

text \<open>
  Holders of the semaphore, counted, in any order: an arriving client tries to borrow and is rejected or becomes a
  holder; a holder gives its slot back.
\<close>

inductive holders :: "'l \<Rightarrow> nat \<Rightarrow> 'l \<Rightarrow> nat \<Rightarrow> bool" where
  admit: "try_borrow l = (True, l') \<Longrightarrow> holders l n l' (Suc n)"
| reject: "try_borrow l = (False, l') \<Longrightarrow> holders l n l' n"
| finish: "give_back l = (e, l') \<Longrightarrow> holders l (Suc n) l' n"

lemma holders_inv:
  assumes "holders l n l' n'" "in_use l = n" "n \<le> capacity l"
  shows "in_use l' = n' \<and> n' \<le> capacity l' \<and> capacity l' = capacity l"
  using assms
proof (induction rule: holders.induct)
  case (admit l l' n)
  then have "in_use l < capacity l" using borrow_full [of l] by (cases "in_use l < capacity l") auto
  then show ?case using admit borrow_room [of l] borrow_capacity [of l] by simp
next
  case (reject l l' n)
  then show ?case using borrow_room [of l] borrow_full [of l] by (cases "in_use l < capacity l") auto
next
  case (finish l e l' n)
  then show ?case using back_used [of l] back_capacity [of l] by simp
qed

text \<open>No client is turned away while a slot is free, and none is admitted beyond the capacity.\<close>

lemma admission: "fst (try_borrow l) \<longleftrightarrow> in_use l < capacity l"
  using borrow_room [of l] borrow_full [of l] by (cases "in_use l < capacity l") auto

end

interpretation lim: semaphore Limit_TryBorrow Limit_Return pool_len pool_cap
  by unfold_locales (auto simp: Limit_TryBorrow_def Limit_Return_def)

section \<open>Bulkhead\<close>

text \<open>
  The state of one \<open>Bulkhead\<close> middleware: \<open>None\<close> when \<open>maxConcurrent < 1\<close> disabled it. A request is
  guarded on entry; its deferred call gives the slot back however the handler ends.
\<close>

definition Bulkhead :: "int \<Rightarrow> limit option go" where
  "Bulkhead maxConcurrent =
     (if maxConcurrent < 1 then Inr None
      else case NewLimit maxConcurrent of Inl p \<Rightarrow> Inl p | Inr l \<Rightarrow> Inr (Some l))"

definition Bulkhead_enter :: "limit option \<Rightarrow> err option \<times> limit option" where
  "Bulkhead_enter b =
     (case b of None \<Rightarrow> (None, None)
      | Some l \<Rightarrow> (let (ok, l) = Limit_TryBorrow l
                  in if \<not> ok then (Some ErrBulkheadFull, Some l) else (None, Some l)))"

definition Bulkhead_exit :: "limit option \<Rightarrow> limit option" where
  "Bulkhead_exit b = map_option (\<lambda>l. snd (Limit_Return l)) b"

text \<open>One request in isolation; \<open>next\<close> may itself enter and leave the bulkhead any number of times.\<close>

definition Bulkhead_call :: "limit option \<Rightarrow> (limit option \<Rightarrow> err option go \<times> limit option)
    \<Rightarrow> err option go \<times> limit option" where
  "Bulkhead_call b next =
     (case Bulkhead_enter b of
        (Some e, b) \<Rightarrow> (Inr (Some e), b)
      | (None, b) \<Rightarrow> (let (r, b) = next b in (r, Bulkhead_exit b)))"

text \<open>
  A request as a goroutine: before the middleware, inside \<open>next\<close>, or returned with a result or a panic. The first
  step is the code up to the call of \<open>next\<close>, the second what follows the end of \<open>next\<close>, which is the deferred call.
\<close>

datatype bulkhead_request = Arrived | Inside | Ended "err option go"

definition Bulkhead_before :: "limit option \<Rightarrow> bulkhead_request \<times> limit option" where
  "Bulkhead_before b =
     (case Bulkhead_enter b of (Some e, b) \<Rightarrow> (Ended (Inr (Some e)), b) | (None, b) \<Rightarrow> (Inside, b))"

definition Bulkhead_after :: "err option go \<Rightarrow> limit option \<Rightarrow> bulkhead_request \<times> limit option" where
  "Bulkhead_after r b = (Ended r, Bulkhead_exit b)"

inductive bulkhead_step :: "limit option \<times> bulkhead_request list \<Rightarrow> limit option \<times> bulkhead_request list \<Rightarrow> bool" where
  request: "bulkhead_step (b, rs) (b, rs @ [Arrived])"
| before: "i < length rs \<Longrightarrow> rs ! i = Arrived \<Longrightarrow> Bulkhead_before b = (q, b') \<Longrightarrow> bulkhead_step (b, rs) (b', rs[i := q])"
| after: "i < length rs \<Longrightarrow> rs ! i = Inside \<Longrightarrow> Bulkhead_after r b = (q, b') \<Longrightarrow> bulkhead_step (b, rs) (b', rs[i := q])"

definition inside :: "bulkhead_request list \<Rightarrow> nat" where
  "inside rs = length (filter (\<lambda>q. q = Inside) rs)"

lemma inside_update:
  "i < length rs \<Longrightarrow> inside (rs[i := q]) + of_bool (rs ! i = Inside) = inside rs + of_bool (q = Inside)"
proof (induction rs arbitrary: i)
  case (Cons r rs)
  then show ?case using Cons.IH [of "i - 1"] by (cases i) (auto simp: inside_def)
qed simp

lemma Bulkhead_enter_Some:
  "Bulkhead_enter (Some l) =
     (if fst (Limit_TryBorrow l) then None else Some ErrBulkheadFull, Some (snd (Limit_TryBorrow l)))"
  by (simp add: Bulkhead_enter_def case_prod_unfold Let_def)

text \<open>A step of the requests is a step of the holders of the semaphore, or none.\<close>

lemma bulkhead_step_holders:
  assumes "bulkhead_step (Some l, rs) (b', rs')"
  shows "\<exists>l'. b' = Some l' \<and> (l' = l \<and> inside rs' = inside rs \<or> lim.holders l (inside rs) l' (inside rs'))"
  using assms
proof (cases rule: bulkhead_step.cases)
  case request
  then show ?thesis by (simp add: inside_def)
next
  case (before i q)
  show ?thesis
  proof (cases "fst (Limit_TryBorrow l)")
    case True
    then have "q = Inside" "b' = Some (snd (Limit_TryBorrow l))" "inside rs' = Suc (inside rs)"
      using before inside_update [of i rs q] by (auto simp: Bulkhead_before_def Bulkhead_enter_Some)
    then show ?thesis using True lim.holders.admit [of l "snd (Limit_TryBorrow l)" "inside rs"] by (metis prod.collapse)
  next
    case False
    then have "q = Ended (Inr (Some ErrBulkheadFull))" "b' = Some (snd (Limit_TryBorrow l))" "inside rs' = inside rs"
      using before inside_update [of i rs q] by (auto simp: Bulkhead_before_def Bulkhead_enter_Some)
    then show ?thesis using False lim.holders.reject [of l "snd (Limit_TryBorrow l)" "inside rs"] by (metis prod.collapse)
  qed
next
  case (after i r q)
  then have "q = Ended r" "b' = Some (snd (Limit_Return l))" "inside rs = Suc (inside rs')"
    using inside_update [of i rs q] by (auto simp: Bulkhead_after_def Bulkhead_exit_def)
  then show ?thesis using lim.holders.finish [of l "fst (Limit_Return l)" "snd (Limit_Return l)" "inside rs'"] by simp
qed

lemma bulkhead_run_inv:
  assumes "bulkhead_step\<^sup>*\<^sup>* (Some l0, []) s" and "pool_len l0 = 0"
  shows "\<exists>l rs. s = (Some l, rs) \<and> pool_len l = inside rs \<and> inside rs \<le> pool_cap l \<and> pool_cap l = pool_cap l0"
  using assms(1)
proof (induction rule: rtranclp_induct)
  case base
  then show ?case using assms(2) by (simp add: inside_def)
next
  case (step s t)
  then obtain l rs where s: "s = (Some l, rs)" "pool_len l = inside rs" "inside rs \<le> pool_cap l" "pool_cap l = pool_cap l0"
    by blast
  obtain b' rs' where t: "t = (b', rs')" by (cases t)
  show ?case
    using bulkhead_step_holders [of l rs b' rs'] step.hyps(2) lim.holders_inv [of l "inside rs" _ "inside rs'"] s t by fastforce
qed

text \<open>
  C3. Bulkhead isolation: in every interleaving of requests on a bulkhead of \<open>m \<ge> 1\<close> slots, requests that return and
  requests whose handler panics alike, at most \<open>m\<close> are inside \<open>next\<close>, the semaphore counts exactly these, so that no
  slot leaks, and the next request to enter is turned away with \<open>ErrBulkheadFull\<close> if and only if \<open>m\<close> are inside.
\<close>

theorem bulkhead_isolation:
  assumes "1 \<le> m" and "Bulkhead m = Inr b0" and "bulkhead_step\<^sup>*\<^sup>* (b0, []) (b, rs)"
  shows "\<exists>l. b = Some l \<and> pool_len l = inside rs \<and> int (inside rs) \<le> m
    \<and> fst (Bulkhead_before b) = (if int (inside rs) = m then Ended (Inr (Some ErrBulkheadFull)) else Inside)"
proof -
  have b0: "b0 = Some \<lparr>pool_cap = nat m, pool_len = 0\<rparr>"
    using assms(1,2) by (simp add: Bulkhead_def NewLimit_def)
  then obtain l where l: "b = Some l" "pool_len l = inside rs" "inside rs \<le> pool_cap l" "pool_cap l = nat m"
    using bulkhead_run_inv [of "\<lparr>pool_cap = nat m, pool_len = 0\<rparr>" "(b, rs)"] assms(3) by auto
  have "fst (Limit_TryBorrow l) \<longleftrightarrow> int (inside rs) \<noteq> m"
    using l assms(1) by (auto simp: lim.admission)
  then show ?thesis using l assms(1) by (auto simp: Bulkhead_before_def Bulkhead_enter_Some)
qed

text \<open>One of two requests panics inside; its slot is free again.\<close>

theorem bulkhead_isolation_witness:
  "fst (Bulkhead_before (Some \<lparr>pool_cap = 1, pool_len = 0\<rparr>)) = Inside \<and>
    bulkhead_step\<^sup>*\<^sup>* (Some \<lparr>pool_cap = 1, pool_len = 0\<rparr>, []) (Some \<lparr>pool_cap = 1, pool_len = 0\<rparr>, [Ended (Inl (Panic ''boom''))])"
proof -
  let ?free = "Some \<lparr>pool_cap = 1, pool_len = 0\<rparr>" let ?used = "Some \<lparr>pool_cap = 1, pool_len = 1\<rparr>"
  have new: "Bulkhead 1 = Inr ?free" by (simp add: Bulkhead_def NewLimit_def)
  have "bulkhead_step (?free, []) (?free, [] @ [Arrived])" by (rule bulkhead_step.request)
  moreover have "bulkhead_step (?free, [Arrived]) (?used, [Arrived][0 := Inside])"
    by (rule bulkhead_step.before) (simp_all add: Bulkhead_before_def Bulkhead_enter_def Limit_TryBorrow_def)
  moreover have "bulkhead_step (?used, [Inside]) (?free, [Inside][0 := Ended (Inl (Panic ''boom''))])"
    by (rule bulkhead_step.after) (simp_all add: Bulkhead_after_def Bulkhead_exit_def Limit_Return_def)
  ultimately have run: "bulkhead_step\<^sup>*\<^sup>* (?free, []) (?free, [Ended (Inl (Panic ''boom''))])"
    by (simp add: converse_rtranclp_into_rtranclp)
  from bulkhead_isolation [OF _ new run] show ?thesis using run by (simp add: inside_def)
qed

text \<open>The sequential call is the two steps around \<open>next\<close>.\<close>

lemma Bulkhead_call_steps:
  "Bulkhead_call b next =
     (case Bulkhead_before b of
        (Ended r, b) \<Rightarrow> (r, b)
      | (q, b) \<Rightarrow> (let (r, b) = next b in (r, snd (Bulkhead_after r b))))"
  by (auto simp: Bulkhead_call_def Bulkhead_before_def Bulkhead_after_def Let_def split: prod.splits option.splits)

section \<open>ConcurrencyLimiter\<close>

definition NewConcurrencyLimiter :: "int \<Rightarrow> limit go" where
  "NewConcurrencyLimiter n = NewLimit n"

definition Acquire :: "limit \<Rightarrow> bool \<times> limit" where
  "Acquire l = Limit_TryBorrow l"

definition Release :: "limit \<Rightarrow> limit" where
  "Release l = snd (Limit_Return l)"

text \<open>A request that runs alone leaves the bulkhead as it found it, also when it panics.\<close>

lemma Bulkhead_call_balanced:
  assumes "next = (\<lambda>b. (r, b))"
  shows "snd (Bulkhead_call b next) = b"
  using assms
  by (auto simp: Bulkhead_call_def Bulkhead_enter_def Bulkhead_exit_def Limit_TryBorrow_def
      Limit_Return_def split: option.splits)

lemma Acquire_Release:
  "fst (Acquire l) \<Longrightarrow> Release (snd (Acquire l)) = l"
  by (auto simp: Acquire_def Release_def Limit_TryBorrow_def Limit_Return_def split: if_splits)

end
