(* ===== verification/Retry.thy ===== *)
theory Retry
  imports RollingWindow Errno
begin

text \<open>
  \<open>pkg/resilience/retry.go\<close> and \<open>percentage_limit.go\<close>, with the deadline middlewares of \<open>deadline.go\<close> and
  \<open>timeout.go\<close> that they build on. The environment of a retry sequence is a script: what the handler
  returns at its \<open>i\<close>-th call, the clock reading, the jitter draw and the state of the caller's context
  at each wait. The model returns the final error together with the contexts the handler was called
  with and the durations of the timers that were started.
\<close>

section \<open>Contexts and deadlines\<close>

text \<open>A \<open>context.Context\<close> is its deadline; \<open>WithTimeout\<close> keeps an earlier deadline of the parent.\<close>

record ctx =
  deadline :: "time option"

definition WithTimeout :: "ctx \<Rightarrow> time \<Rightarrow> duration \<Rightarrow> ctx" where
  "WithTimeout c now d =
     c\<lparr>deadline := Some (case deadline c of None \<Rightarrow> now + d | Some t \<Rightarrow> min t (now + d))\<rparr>"

type_synonym handler = "ctx \<Rightarrow> err option"

definition Timeout :: "duration \<Rightarrow> time \<Rightarrow> handler \<Rightarrow> handler" where
  "Timeout d now next = (\<lambda>c. next (WithTimeout c now d))"

definition Deadline :: "duration \<Rightarrow> time \<Rightarrow> handler \<Rightarrow> handler" where
  "Deadline d now next =
     (\<lambda>c. let e = next (WithTimeout c now d)
          in case e of
               None \<Rightarrow> None
             | Some x \<Rightarrow> if errors_Is x ContextDeadlineExceeded then Some (Wrap ErrTimeout x) else Some x)"

section \<open>Retry ratio limiter\<close>

definition percentageWindow :: duration where "percentageWindow = 10 * Second"
definition percentageBuckets :: int where "percentageBuckets = 10"

record retryPercentageLimiter =
  ratio :: float64
  pl_total :: "bucketS rollingWindow"
  pl_retry :: "bucketS rollingWindow"

definition newRetryPercentageLimiter :: "float64 \<Rightarrow> time \<Rightarrow> retryPercentageLimiter go" where
  "newRetryPercentageLimiter r now =
     (case NewRollingWindow emptyBucket percentageBuckets percentageWindow False now of
        Inl p \<Rightarrow> Inl p
      | Inr w \<Rightarrow> Inr \<lparr>ratio = r, pl_total = w, pl_retry = w\<rparr>)"

definition observeTotal :: "retryPercentageLimiter \<Rightarrow> time \<Rightarrow> retryPercentageLimiter go" where
  "observeTotal p now =
     (case RW_Add Bucket_Add Bucket_Reset (pl_total p) now now 1 of
        Inl x \<Rightarrow> Inl x | Inr w \<Rightarrow> Inr (p\<lparr>pl_total := w\<rparr>))"

definition window_sum :: "bucketS rollingWindow \<Rightarrow> time \<Rightarrow> int go" where
  "window_sum w now = RW_Reduce (\<lambda>s b. s + Sum b) 0 w now"

definition allowRetry :: "retryPercentageLimiter \<Rightarrow> time \<Rightarrow> (bool \<times> retryPercentageLimiter) go" where
  "allowRetry p now =
     (if ratio p \<le> 0 then Inr (True, p)
      else case window_sum (pl_total p) now of
        Inl x \<Rightarrow> Inl x
      | Inr tot \<Rightarrow>
        (case window_sum (pl_retry p) now of
           Inl x \<Rightarrow> Inl x
         | Inr retry \<Rightarrow>
             if tot = 0 then Inr (True, p)
             else if of_int retry / of_int tot \<ge> ratio p then Inr (False, p)
             else (case RW_Add Bucket_Add Bucket_Reset (pl_retry p) now now 1 of
                     Inl x \<Rightarrow> Inl x | Inr w \<Rightarrow> Inr (True, p\<lparr>pl_retry := w\<rparr>))))"

section \<open>Retry\<close>

record retryConfig =
  maxAttempts :: int
  baseBackoff :: duration
  maxBackoff :: duration
  perAttemptTimeout :: duration
  isRetryable :: "(err \<Rightarrow> bool) option"
  maxRetryRatio :: float64

definition defaultRetryConfig :: retryConfig where
  "defaultRetryConfig = \<lparr>maxAttempts = 3, baseBackoff = 100 * Millisecond, maxBackoff = Second,
     perAttemptTimeout = 0, isRetryable = None, maxRetryRatio = 0\<rparr>"

datatype retryOption =
    WithMaxAttempts int
  | WithBackoff duration duration
  | WithPerAttemptTimeout duration
  | WithRetryable "(err \<Rightarrow> bool) option"
  | WithMaxRetryRatio float64

primrec apply_retryOption :: "retryConfig \<Rightarrow> retryOption \<Rightarrow> retryConfig" where
  "apply_retryOption c (WithMaxAttempts n) = c\<lparr>maxAttempts := n\<rparr>"
| "apply_retryOption c (WithBackoff base mx) = c\<lparr>baseBackoff := base, maxBackoff := mx\<rparr>"
| "apply_retryOption c (WithPerAttemptTimeout d) = c\<lparr>perAttemptTimeout := d\<rparr>"
| "apply_retryOption c (WithRetryable f) = c\<lparr>isRetryable := f\<rparr>"
| "apply_retryOption c (WithMaxRetryRatio r) = c\<lparr>maxRetryRatio := r\<rparr>"

text \<open>The configuration and the limiter a \<open>Retry\<close> middleware runs with.\<close>

definition retry_setup :: "retryOption list \<Rightarrow> time \<Rightarrow> (retryConfig \<times> retryPercentageLimiter option) go" where
  "retry_setup opts now =
     (let cfg = foldl apply_retryOption defaultRetryConfig opts;
          cfg = (if maxAttempts cfg < 1 then cfg\<lparr>maxAttempts := 1\<rparr> else cfg)
      in if maxRetryRatio cfg > 0
         then case newRetryPercentageLimiter (maxRetryRatio cfg) now of
                Inl p \<Rightarrow> Inl p | Inr l \<Rightarrow> Inr (cfg, Some l)
         else Inr (cfg, None))"

text \<open>
  The inner loop that doubles the backoff, and the jitter added to it. Backoffs are not negative and far below the
  int64 bound here; for a backoff of -2 or less \<open>rand.Int64N\<close> would panic.
\<close>

fun double_backoff :: "duration \<Rightarrow> duration \<Rightarrow> nat \<Rightarrow> duration" where
  "double_backoff b mx 0 = b"
| "double_backoff b mx (Suc n) = (if 2 * b \<ge> mx then mx else double_backoff (2 * b) mx n)"

definition jittered :: "duration \<Rightarrow> int \<Rightarrow> duration" where
  "jittered backoff draw = backoff + draw mod (backoff sdiv 2 + 1)"

record attempt_env =
  ae_start :: time
  ae_fail :: time
  ae_draw :: int
  ae_cancel :: "err option"

record retry_run =
  rr_error :: "err option"
  rr_calls :: "ctx list"
  rr_waits :: "duration list"
  rr_limiter :: "retryPercentageLimiter option"

definition observe :: "retryPercentageLimiter option \<Rightarrow> time \<Rightarrow> retryPercentageLimiter option go" where
  "observe l now = (case l of None \<Rightarrow> Inr None
     | Some p \<Rightarrow> (case observeTotal p now of Inl x \<Rightarrow> Inl x | Inr p \<Rightarrow> Inr (Some p)))"

definition may_retry :: "retryPercentageLimiter option \<Rightarrow> time \<Rightarrow> (bool \<times> retryPercentageLimiter option) go" where
  "may_retry l now = (case l of None \<Rightarrow> Inr (True, None)
     | Some p \<Rightarrow> (case allowRetry p now of Inl x \<Rightarrow> Inl x | Inr (ok, p) \<Rightarrow> Inr (ok, Some p)))"

text \<open>
  \<open>retry_loop cfg resp env c left attempt limiter\<close> runs the loop from \<open>attempt\<close> with \<open>left\<close> attempts to go;
  \<open>calls\<close> and \<open>waits\<close> accumulate what was done so far.
\<close>

fun retry_loop :: "retryConfig \<Rightarrow> (nat \<Rightarrow> err option) \<Rightarrow> (nat \<Rightarrow> attempt_env) \<Rightarrow> ctx \<Rightarrow> nat \<Rightarrow> nat
    \<Rightarrow> retryPercentageLimiter option \<Rightarrow> ctx list \<Rightarrow> duration list \<Rightarrow> retry_run go" where
  "retry_loop cfg resp env c 0 attempt limiter calls waits =
     Inr \<lparr>rr_error = None, rr_calls = calls, rr_waits = waits, rr_limiter = limiter\<rparr>"
| "retry_loop cfg resp env c (Suc left) attempt limiter calls waits =
     (case observe limiter (ae_start (env attempt)) of
        Inl p \<Rightarrow> Inl p
      | Inr limiter \<Rightarrow>
        let attemptCtx = (if perAttemptTimeout cfg > 0
                          then WithTimeout c (ae_start (env attempt)) (perAttemptTimeout cfg) else c);
            calls = calls @ [attemptCtx];
            stop = (\<lambda>e l. Inr \<lparr>rr_error = e, rr_calls = calls, rr_waits = waits, rr_limiter = l\<rparr>)
        in case resp attempt of
             None \<Rightarrow> stop None limiter
           | Some e \<Rightarrow>
             if (case isRetryable cfg of None \<Rightarrow> False | Some f \<Rightarrow> \<not> f e) then stop (Some e) limiter
             else if left = 0 then stop (Some e) limiter
             else (case may_retry limiter (ae_fail (env attempt)) of
                     Inl p \<Rightarrow> Inl p
                   | Inr (ok, limiter) \<Rightarrow>
                     if \<not> ok then stop (Some e) limiter
                     else let backoff = double_backoff (baseBackoff cfg) (maxBackoff cfg) attempt;
                              wait = jittered backoff (ae_draw (env attempt))
                          in case ae_cancel (env attempt) of
                               Some ce \<Rightarrow> Inr \<lparr>rr_error = Some ce, rr_calls = calls,
                                             rr_waits = waits @ [wait], rr_limiter = limiter\<rparr>
                             | None \<Rightarrow> retry_loop cfg resp env c left (Suc attempt) limiter calls
                                         (waits @ [wait])))"

text \<open>One call of the middleware; the limiter is carried over between calls.\<close>

definition Retry :: "retryConfig \<Rightarrow> retryPercentageLimiter option \<Rightarrow> (nat \<Rightarrow> err option)
    \<Rightarrow> (nat \<Rightarrow> attempt_env) \<Rightarrow> ctx \<Rightarrow> retry_run go" where
  "Retry cfg limiter resp env c = retry_loop cfg resp env c (nat (maxAttempts cfg)) 0 limiter [] []"

section \<open>Deadlines\<close>

text \<open>
  A deadline middleware never lets the downstream call run past the caller's own deadline, nor past
  its own; and it turns exactly the errors caused by an expired deadline into the typed timeout error,
  which still unwraps to the cause.
\<close>

theorem Deadline_bounds:
  "(\<exists>t. deadline (WithTimeout c now d) = Some t \<and> t \<le> now + d
      \<and> (\<forall>p. deadline c = Some p \<longrightarrow> t \<le> p)
      \<and> (t = now + d \<or> deadline c = Some t))
   \<and> Deadline d now next c = (case next (WithTimeout c now d) of
        None \<Rightarrow> None
      | Some e \<Rightarrow> Some (if errors_Is e ContextDeadlineExceeded
                        then ErrorX StatusGatewayTimeout ReasonTimeout ''Request timed out.'' (Some e)
                        else e))"
  by (auto simp: WithTimeout_def Deadline_def Let_def Wrap_def ErrTimeout_def min_def
      split: option.splits)

theorem Deadline_bounds_witness:
  "\<exists>t. deadline (WithTimeout \<lparr>deadline = Some 50\<rparr> 10 100) = Some t \<and> t \<le> 50"
  using Deadline_bounds [of "\<lparr>deadline = Some 50\<rparr>" 10 100 "\<lambda>_. None"] by auto

section \<open>Bounds of a retry sequence\<close>

lemma double_backoff_bounds:
  assumes "0 \<le> b" "0 \<le> mx"
  shows "0 \<le> double_backoff b mx n" and "double_backoff b mx n \<le> max b mx"
    and "0 < n \<Longrightarrow> double_backoff b mx n \<le> mx"
proof -
  show "0 \<le> double_backoff b mx n" using assms by (induction b mx n rule: double_backoff.induct) auto
  have small: "double_backoff b mx n \<le> mx" if "b \<le> mx" for b n
    using that by (induction b mx n rule: double_backoff.induct) auto
  show le: "double_backoff b mx n \<le> mx" if "0 < n" using that small by (cases n) auto
  show "double_backoff b mx n \<le> max b mx" using le by (cases n) auto
qed

text \<open>Without reaching the cap the backoff is the base doubled once per attempt.\<close>

lemma double_backoff_exp:
  assumes "0 \<le> b" "2 ^ n * b < mx"
  shows "double_backoff b mx n = 2 ^ n * b"
  using assms
proof (induction b mx n rule: double_backoff.induct)
  case (1 b mx)
  then show ?case by simp
next
  case (2 b mx n)
  have "2 * b \<le> 2 ^ Suc n * b" using 2 by (simp add: mult_right_mono)
  then show ?case using 2 by (auto simp: algebra_simps)
qed

lemma jittered_bounds:
  assumes "0 \<le> b"
  shows "b \<le> jittered b d" and "jittered b d \<le> b + b div 2"
  using assms pos_mod_bound [of "b div 2 + 1" d] by (simp_all add: jittered_def)

lemma retry_loop_spec:
  assumes "retry_loop cfg resp env c left attempt limiter calls waits = Inr r"
    and "0 \<le> baseBackoff cfg" "0 \<le> maxBackoff cfg" "0 < left"
    and "\<forall>w \<in> set waits. 0 \<le> w \<and> 2 * w \<le> 3 * max (baseBackoff cfg) (maxBackoff cfg)"
  shows "\<exists>n. 1 \<le> n \<and> n \<le> left \<and> length (rr_calls r) = length calls + n
    \<and> (\<forall>i < n - 1. \<exists>e. resp (attempt + i) = Some e \<and>
          (case isRetryable cfg of None \<Rightarrow> True | Some f \<Rightarrow> f e))
    \<and> (rr_error r = resp (attempt + n - 1) \<or> rr_error r = ae_cancel (env (attempt + n - 1)))
    \<and> (rr_error r = None \<longleftrightarrow> resp (attempt + n - 1) = None)
    \<and> (\<forall>w \<in> set (rr_waits r). 0 \<le> w \<and> 2 * w \<le> 3 * max (baseBackoff cfg) (maxBackoff cfg))"
  using assms
proof (induction left arbitrary: attempt limiter calls waits)
  case 0
  then show ?case by simp
next
  case (Suc left)
  let ?b = "double_backoff (baseBackoff cfg) (maxBackoff cfg) attempt"
  let ?w = "jittered ?b (ae_draw (env attempt))"
  have w: "0 \<le> ?w" "2 * ?w \<le> 3 * max (baseBackoff cfg) (maxBackoff cfg)"
    using jittered_bounds [of ?b "ae_draw (env attempt)"]
      double_backoff_bounds [OF Suc.prems(2,3), of attempt] by auto
  consider (stop) "rr_error r = resp attempt" "length (rr_calls r) = Suc (length calls)" "rr_waits r = waits"
    | (cancelled) ce e where "ae_cancel (env attempt) = Some ce" "resp attempt = Some e"
        "rr_error r = Some ce" "length (rr_calls r) = Suc (length calls)" "rr_waits r = waits @ [?w]"
    | (again) e limiter' a where "resp attempt = Some e" "left \<noteq> 0"
        "case isRetryable cfg of None \<Rightarrow> True | Some f \<Rightarrow> f e"
        "retry_loop cfg resp env c left (Suc attempt) limiter' (calls @ [a]) (waits @ [?w]) = Inr r"
    using Suc.prems(1)
    by (auto simp: Let_def split: sum.splits option.splits if_splits prod.splits)
  then show ?case
  proof cases
    case stop
    then show ?thesis using Suc.prems(5) by (intro exI [of _ 1]) simp
  next
    case cancelled
    then show ?thesis using Suc.prems(5) w by (intro exI [of _ 1]) simp
  next
    case again
    have left: "0 < left" using again(2) by simp
    have waits: "\<forall>w \<in> set (waits @ [?w]). 0 \<le> w \<and> 2 * w \<le> 3 * max (baseBackoff cfg) (maxBackoff cfg)"
      using Suc.prems(5) w by simp
    obtain n where n: "1 \<le> n" "n \<le> left" "length (rr_calls r) = length (calls @ [a]) + n"
        "\<forall>i < n - 1. \<exists>e. resp (Suc attempt + i) = Some e \<and>
            (case isRetryable cfg of None \<Rightarrow> True | Some f \<Rightarrow> f e)"
        "rr_error r = resp (Suc attempt + n - 1) \<or> rr_error r = ae_cancel (env (Suc attempt + n - 1))"
        "rr_error r = None \<longleftrightarrow> resp (Suc attempt + n - 1) = None"
        "\<forall>w \<in> set (rr_waits r). 0 \<le> w \<and> 2 * w \<le> 3 * max (baseBackoff cfg) (maxBackoff cfg)"
      using Suc.IH [OF again(4) Suc.prems(2,3) left waits] by (elim exE conjE) (rule that)
    have "\<exists>e. resp (attempt + i) = Some e \<and> (case isRetryable cfg of None \<Rightarrow> True | Some f \<Rightarrow> f e)"
      if "i < Suc n - 1" for i
      using again(1,3) n(1,4) that by (cases i) auto
    then show ?thesis using n by (intro exI [of _ "Suc n"]) auto
  qed
qed

text \<open>Without a ratio limiter the middleware cannot fail on its own.\<close>

lemma retry_loop_total:
  "\<exists>r. retry_loop cfg resp env c left attempt None calls waits = Inr r"
proof (induction left arbitrary: attempt calls waits)
  case 0
  then show ?case by simp
next
  case (Suc left)
  show ?case
    using Suc by (auto simp: Let_def observe_def may_retry_def split: option.splits)
qed

section \<open>Properties\<close>

text \<open>
  A retry sequence without a ratio limit always ends with a result after at least one and at most
  \<open>maxAttempts\<close> calls of the handler. Every call but the last failed with a retryable error; the result
  is the last handler result or the context's error, and it is nil exactly when the last call
  succeeded. No wait is negative or longer than one and a half times the larger of the two configured
  backoffs.
\<close>

theorem Retry_bounded:
  assumes "1 \<le> maxAttempts cfg" "0 \<le> baseBackoff cfg" "0 \<le> maxBackoff cfg"
  shows "\<exists>r n. Retry cfg None resp env c = Inr r \<and> 1 \<le> n \<and> int n \<le> maxAttempts cfg
    \<and> length (rr_calls r) = n
    \<and> (\<forall>i < n - 1. \<exists>e. resp i = Some e \<and> (case isRetryable cfg of None \<Rightarrow> True | Some f \<Rightarrow> f e))
    \<and> (rr_error r = resp (n - 1) \<or> rr_error r = ae_cancel (env (n - 1)))
    \<and> (rr_error r = None \<longleftrightarrow> resp (n - 1) = None)
    \<and> (\<forall>w \<in> set (rr_waits r). 0 \<le> w \<and> 2 * w \<le> 3 * max (baseBackoff cfg) (maxBackoff cfg))"
proof -
  obtain r where r: "retry_loop cfg resp env c (nat (maxAttempts cfg)) 0 None [] [] = Inr r"
    using retry_loop_total by blast
  have "0 < nat (maxAttempts cfg)" using assms(1) by simp
  from retry_loop_spec [OF r assms(2,3) this] obtain n where
      "1 \<le> n" "n \<le> nat (maxAttempts cfg)" "length (rr_calls r) = n"
      "\<forall>i < n - 1. \<exists>e. resp i = Some e \<and> (case isRetryable cfg of None \<Rightarrow> True | Some f \<Rightarrow> f e)"
      "rr_error r = resp (n - 1) \<or> rr_error r = ae_cancel (env (n - 1))"
      "rr_error r = None \<longleftrightarrow> resp (n - 1) = None"
      "\<forall>w \<in> set (rr_waits r). 0 \<le> w \<and> 2 * w \<le> 3 * max (baseBackoff cfg) (maxBackoff cfg)"
    by auto
  then show ?thesis using r unfolding Retry_def by (intro exI [of _ r] exI [of _ n]) auto
qed

definition flaky_env :: "nat \<Rightarrow> attempt_env" where
  "flaky_env i = \<lparr>ae_start = 0, ae_fail = 0, ae_draw = 7, ae_cancel = None\<rparr>"

definition flaky_resp :: "nat \<Rightarrow> err option" where
  "flaky_resp i = (if i < 2 then Some ContextCanceled else None)"

theorem Retry_bounded_witness:
  "\<exists>r. Retry defaultRetryConfig None flaky_resp flaky_env \<lparr>deadline = None\<rparr> = Inr r
     \<and> int (length (rr_calls r)) \<le> 3 \<and> 1 \<le> length (rr_calls r)"
proof -
  have h: "1 \<le> maxAttempts defaultRetryConfig" "0 \<le> baseBackoff defaultRetryConfig"
      "0 \<le> maxBackoff defaultRetryConfig" "maxAttempts defaultRetryConfig = 3"
    by (simp_all add: defaultRetryConfig_def duration_units)
  from Retry_bounded [OF h(1-3), of flaky_resp flaky_env "\<lparr>deadline = None\<rparr>"] h(4)
  obtain r n where "Retry defaultRetryConfig None flaky_resp flaky_env \<lparr>deadline = None\<rparr> = Inr r"
      "1 \<le> n" "int n \<le> 3" "length (rr_calls r) = n"
    by metis
  then show ?thesis by (intro exI [of _ r]) simp
qed

text \<open>
  The retry ratio limiter counts attempts over ten intervals of \<open>percentageWindow\<close> each, that is one
  hundred seconds and not the ten that its window constant names: an attempt observed at the creation
  of the limiter still counts after ninety-nine seconds and no longer after one hundred.
\<close>

lemma percentage_window_length:
  "\<exists>p q. newRetryPercentageLimiter r t0 = Inr p \<and> observeTotal p t0 = Inr q
     \<and> window_sum (pl_total q) (t0 + 99 * Second) = Inr 1
     \<and> window_sum (pl_total q) (t0 + 100 * Second) = Inr 0"
proof -
  obtain w where w: "NewRollingWindow emptyBucket percentageBuckets percentageWindow False t0 = Inr w"
    by (simp add: NewRollingWindow_def percentageBuckets_def)
  have pos: "0 < percentageWindow" by (simp add: percentageWindow_def duration_units)
  have fields: "interval w = percentageWindow" "wsize w = 10" "\<not> ignoreCurrent w"
    using w by (auto simp: NewRollingWindow_def percentageBuckets_def)
  note rep0 = sum_bucket.represents_New [OF w pos]
  obtain w' where w': "RW_Add Bucket_Add Bucket_Reset w t0 t0 1 = Inr w'" "interval w' = interval w"
      "wsize w' = wsize w" "ignoreCurrent w' = ignoreCurrent w"
      "sum_bucket.represents t0 [(t0, 1)] 0 w'"
    using sum_bucket.represents_Add [OF rep0, of t0 t0 1] by (auto simp: tick_def)
  have wf: "rw_wf w'" using w'(5) by (simp add: sum_bucket.represents_def)
  have ticks: "tick t0 percentageWindow (t0 + 99 * Second) = 9"
      "tick t0 percentageWindow (t0 + 100 * Second) = 10" "tick t0 percentageWindow t0 = 0"
    by (simp_all add: tick_def percentageWindow_def duration_units)
  have vis: "window_sum w' t = Inr (sum_list (map (\<lambda>i. sum_list (values_at t0 percentageWindow [(t0, 1)] i))
      [tick t0 percentageWindow t - 9 .. 0]))" if "0 \<le> tick t0 percentageWindow t" for t
  proof -
    have v: "RW_visited w' t = map (\<lambda>i. sum_bucket.filled (values_at t0 percentageWindow [(t0, 1)] i))
        [tick t0 percentageWindow t - 9 .. 0]"
      using sum_bucket.visited_represents [OF w'(5), of t] that fields w'(2-4) by simp
    have fold: "foldl (\<lambda>s b. s + Sum b) z bs = z + sum_list (map Sum bs)" for z bs
      by (induction bs arbitrary: z) simp_all
    show ?thesis
      by (simp add: window_sum_def RW_Reduce_wf [OF wf] v fold Bucket_filled comp_def)
  qed
  have "window_sum w' (t0 + 99 * Second) = Inr 1"
    using vis [of "t0 + 99 * Second"] ticks by (simp add: values_at_def)
  moreover have "window_sum w' (t0 + 100 * Second) = Inr 0"
    using vis [of "t0 + 100 * Second"] ticks by simp
  ultimately show ?thesis
    using w w'(1) by (simp add: newRetryPercentageLimiter_def observeTotal_def)
qed

end
