(* ===== verification/Shedder.thy ===== *)
theory Shedder
  imports SreBreaker
begin

text \<open>
  \<open>pkg/resilience/shedder.go\<close>, the adaptive load shedder, and the smoothing step of
  \<open>pkg/core/stat/usage.go\<close> that feeds it. The CPU reading (\<open>stat.CpuUsage()\<close>, per mille) and the clock are
  arguments of each call. A threshold of 1000, for which the overload factor divides by zero in
  floating point, is outside the theorems. \<open>slog\<close> output is not modelled.
\<close>

section \<open>CPU smoothing\<close>

definition cpu_beta :: float64 where "cpu_beta = 95 / 100"

definition smooth_cpu :: "int \<Rightarrow> int \<Rightarrow> int" where
  "smooth_cpu prev cur = float_to_int (of_int prev * cpu_beta + of_int cur * (1 - cpu_beta))"

section \<open>Constants and options\<close>

definition defaultShedderBuckets :: int where "defaultShedderBuckets = 50"
definition defaultShedderWindow :: duration where "defaultShedderWindow = 5 * Second"
definition defaultShedderCpuThreshold :: int where "defaultShedderCpuThreshold = 900"
definition defaultShedderMinRt :: float64 where "defaultShedderMinRt = of_int (Second sdiv Millisecond)"
definition flyingBeta :: float64 where "flyingBeta = 9 / 10"
definition coolOffDuration :: duration where "coolOffDuration = Second"
definition cpuMax :: int where "cpuMax = 1000"
definition millisecondsPerSecond :: float64 where "millisecondsPerSecond = 1000"
definition overloadFactorLowerBound :: float64 where "overloadFactorLowerBound = 1 / 10"

record shedderOptions =
  so_window :: duration
  so_buckets :: int
  so_cpuThreshold :: int

definition defaultShedderOptions :: shedderOptions where
  "defaultShedderOptions = \<lparr>so_window = defaultShedderWindow, so_buckets = defaultShedderBuckets,
     so_cpuThreshold = defaultShedderCpuThreshold\<rparr>"

datatype shedderOption =
    WithShedderWindow duration
  | WithShedderBuckets int
  | WithShedderCpuThreshold int

primrec apply_shedderOption :: "shedderOptions \<Rightarrow> shedderOption \<Rightarrow> shedderOptions" where
  "apply_shedderOption o' (WithShedderWindow d) = o'\<lparr>so_window := d\<rparr>"
| "apply_shedderOption o' (WithShedderBuckets n) = o'\<lparr>so_buckets := n\<rparr>"
| "apply_shedderOption o' (WithShedderCpuThreshold t) = o'\<lparr>so_cpuThreshold := t\<rparr>"

section \<open>State and operations\<close>

record adaptiveShedder =
  cpuThreshold :: int
  windowScale :: float64
  flying :: int
  avgFlying :: float64
  overloadTime :: time
  droppedRecently :: bool
  passCounter :: "bucketS rollingWindow"
  rtCounter :: "bucketS rollingWindow"

text \<open>The integer division by \<open>buckets\<close> panics on zero, a negative bucket count in \<open>NewRollingWindow\<close>.\<close>

definition newAdaptiveShedder :: "shedderOption list \<Rightarrow> time \<Rightarrow> adaptiveShedder go" where
  "newAdaptiveShedder opts now =
     (let o' = foldl apply_shedderOption defaultShedderOptions opts
      in if so_buckets o' = 0 then Inl (Panic ''runtime error: integer divide by zero'')
         else let bucketDuration = so_window o' sdiv so_buckets o'
              in case NewRollingWindow emptyBucket (so_buckets o') bucketDuration True now of
                   Inl p \<Rightarrow> Inl p
                 | Inr w \<Rightarrow> Inr \<lparr>cpuThreshold = so_cpuThreshold o',
                     windowScale = of_int Second / of_int bucketDuration / millisecondsPerSecond,
                     flying = 0, avgFlying = 0, overloadTime = 0, droppedRecently = False,
                     passCounter = w, rtCounter = w\<rparr>)"

definition addFlying :: "adaptiveShedder \<Rightarrow> int \<Rightarrow> adaptiveShedder" where
  "addFlying s delta =
     (let fl = flying s + delta; s = s\<lparr>flying := fl\<rparr>
      in if delta < 0
         then s\<lparr>avgFlying := avgFlying s * flyingBeta + of_int fl * (1 - flyingBeta)\<rparr>
         else s)"

definition maxPass :: "adaptiveShedder \<Rightarrow> time \<Rightarrow> int go" where
  "maxPass s now = RW_Reduce (\<lambda>r b. if Sum b > r then Sum b else r) 1 (passCounter s) now"

text \<open>\<open>math.Round\<close> rounds half away from zero.\<close>

definition math_Round :: "float64 \<Rightarrow> float64" where
  "math_Round x = (if 0 \<le> x then of_int \<lfloor>x + 1 / 2\<rfloor> else of_int \<lceil>x - 1 / 2\<rceil>)"

definition minRt_step :: "float64 \<Rightarrow> bucketS \<Rightarrow> float64" where
  "minRt_step r b =
     (if Count b \<le> 0 then r
      else let avg = math_Round (of_int (Sum b) / of_int (Count b)) in if avg < r then avg else r)"

definition minRt :: "adaptiveShedder \<Rightarrow> time \<Rightarrow> float64 go" where
  "minRt s now = RW_Reduce minRt_step defaultShedderMinRt (rtCounter s) now"

definition maxFlight :: "adaptiveShedder \<Rightarrow> time \<Rightarrow> float64 go" where
  "maxFlight s now =
     (case maxPass s now of
        Inl p \<Rightarrow> Inl p
      | Inr mp \<Rightarrow> (case minRt s now of
            Inl p \<Rightarrow> Inl p
          | Inr rt \<Rightarrow> Inr (atLeast (of_int mp * rt * windowScale s) 1)))"

definition between :: "float64 \<Rightarrow> float64 \<Rightarrow> float64 \<Rightarrow> float64" where
  "between x lower upper = (if x < lower then lower else if x > upper then upper else x)"

definition overloadFactor :: "adaptiveShedder \<Rightarrow> int \<Rightarrow> float64" where
  "overloadFactor s cpu =
     between ((of_int cpuMax - of_int cpu) / (of_int cpuMax - of_int (cpuThreshold s)))
       overloadFactorLowerBound 1"

definition highThru :: "adaptiveShedder \<Rightarrow> int \<Rightarrow> time \<Rightarrow> bool go" where
  "highThru s cpu now =
     (case maxFlight s now of
        Inl p \<Rightarrow> Inl p
      | Inr mf \<Rightarrow> let m = mf * overloadFactor s cpu
                  in Inr (avgFlying s > m \<and> of_int (flying s) > m))"

definition systemOverloaded :: "adaptiveShedder \<Rightarrow> int \<Rightarrow> time \<Rightarrow> bool \<times> adaptiveShedder" where
  "systemOverloaded s cpu now =
     (if \<not> cpu \<ge> cpuThreshold s then (False, s) else (True, s\<lparr>overloadTime := now\<rparr>))"

definition stillHot :: "adaptiveShedder \<Rightarrow> time \<Rightarrow> bool \<times> adaptiveShedder" where
  "stillHot s now =
     (if \<not> droppedRecently s then (False, s)
      else if overloadTime s = 0 then (False, s)
      else if now - overloadTime s < coolOffDuration then (True, s)
      else (False, s\<lparr>droppedRecently := False\<rparr>))"

text \<open>
  The condition short-circuits; the log record of a drop evaluates \<open>stillHot\<close> a second time.
\<close>

definition shouldDrop :: "adaptiveShedder \<Rightarrow> int \<Rightarrow> time \<Rightarrow> (bool \<times> adaptiveShedder) go" where
  "shouldDrop s cpu now =
     (let (hot, s) = (case systemOverloaded s cpu now of (True, s) \<Rightarrow> (True, s)
                      | (False, s) \<Rightarrow> stillHot s now)
      in if hot
         then case highThru s cpu now of
                Inl p \<Rightarrow> Inl p
              | Inr True \<Rightarrow> Inr (True, snd (stillHot s now))
              | Inr False \<Rightarrow> Inr (False, s)
         else Inr (False, s))"

text \<open>
  An admitted request carries its start time; \<open>Inl\<close> of the result is the overload error. A call is one step: its
  atomic accesses are not interleaved with those of others. \<open>cpuThreshold\<close> is below 1000, where the
  overload factor divides by zero.
\<close>

definition Allow :: "adaptiveShedder \<Rightarrow> int \<Rightarrow> time \<Rightarrow> ((err + time) \<times> adaptiveShedder) go" where
  "Allow s cpu now =
     (case shouldDrop s cpu now of
        Inl p \<Rightarrow> Inl p
      | Inr (True, s) \<Rightarrow> Inr (Inl ErrServiceOverloaded, s\<lparr>droppedRecently := True\<rparr>)
      | Inr (False, s) \<Rightarrow> Inr (Inr now, addFlying s 1))"

definition promise_Pass :: "adaptiveShedder \<Rightarrow> time \<Rightarrow> time \<Rightarrow> adaptiveShedder go" where
  "promise_Pass s start now =
     (let rt = of_int (now - start) / of_int Millisecond; s = addFlying s (- 1)
      in case RW_Add Bucket_Add Bucket_Reset (rtCounter s) now now \<lceil>rt :: float64\<rceil> of
           Inl p \<Rightarrow> Inl p
         | Inr w \<Rightarrow> (case RW_Add Bucket_Add Bucket_Reset (passCounter s) now now 1 of
               Inl p \<Rightarrow> Inl p
             | Inr w' \<Rightarrow> Inr (s\<lparr>rtCounter := w, passCounter := w'\<rparr>)))"

definition promise_Fail :: "adaptiveShedder \<Rightarrow> adaptiveShedder" where
  "promise_Fail s = addFlying s (- 1)"

text \<open>
  The middleware, with requests interleaved: each arriving request is admitted or dropped, each running
  request finishes with an error (\<open>Fail\<close>) or without (\<open>Pass\<close>). A panic leaves \<open>err\<close> nil in the deferred
  call, so it counts as a pass.
\<close>

datatype shed_event = Arrive int time | Finish nat "err option" time

fun shed_step :: "adaptiveShedder \<times> time list \<Rightarrow> shed_event \<Rightarrow> (adaptiveShedder \<times> time list) go" where
  "shed_step (s, run) (Arrive cpu now) =
     (case Allow s cpu now of
        Inl p \<Rightarrow> Inl p
      | Inr (Inl _, s) \<Rightarrow> Inr (s, run)
      | Inr (Inr start, s) \<Rightarrow> Inr (s, run @ [start]))"
| "shed_step (s, run) (Finish i e now) =
     (if i < length run
      then let run' = take i run @ drop (Suc i) run
           in if e \<noteq> None then Inr (promise_Fail s, run')
              else (case promise_Pass s (run ! i) now of Inl p \<Rightarrow> Inl p | Inr s \<Rightarrow> Inr (s, run'))
      else Inr (s, run))"

fun shed_run :: "adaptiveShedder \<times> time list \<Rightarrow> shed_event list \<Rightarrow> (adaptiveShedder \<times> time list) go" where
  "shed_run st [] = Inr st"
| "shed_run st (e # es) = (case shed_step st e of Inl p \<Rightarrow> Inl p | Inr st \<Rightarrow> shed_run st es)"

section \<open>Invariant\<close>

definition shed_wf :: "adaptiveShedder \<Rightarrow> bool" where
  "shed_wf s \<longleftrightarrow> rw_wf (passCounter s) \<and> rw_wf (rtCounter s)"

definition shed_inv :: "adaptiveShedder \<times> time list \<Rightarrow> bool" where
  "shed_inv st \<longleftrightarrow> shed_wf (fst st) \<and> flying (fst st) = int (length (snd st)) \<and> 0 \<le> avgFlying (fst st)"

lemma systemOverloaded_same:
  "systemOverloaded s cpu now = (b, s') \<Longrightarrow> s' = s \<or> s' = s\<lparr>overloadTime := now\<rparr>"
  by (auto simp: systemOverloaded_def split: if_splits)

lemma stillHot_same: "stillHot s now = (b, s') \<Longrightarrow> s' = s \<or> s' = s\<lparr>droppedRecently := False\<rparr>"
  by (auto simp: stillHot_def split: if_splits)

lemma shouldDrop_same:
  assumes "shouldDrop s cpu now = Inr (b, s')"
  shows "flying s' = flying s" "avgFlying s' = avgFlying s" "shed_wf s' = shed_wf s"
    "cpuThreshold s' = cpuThreshold s" "passCounter s' = passCounter s" "rtCounter s' = rtCounter s"
  using assms
  by (auto simp: shouldDrop_def Let_def shed_wf_def systemOverloaded_def stillHot_def
      split: prod.splits bool.splits sum.splits if_splits)

lemma fold_max_ge: "r \<le> foldl (\<lambda>r b. if Sum b > r then Sum b else r) r bs"
proof (induction bs arbitrary: r)
  case (Cons b bs)
  show ?case using Cons [of "if Sum b > r then Sum b else r"] by (auto intro: order_trans)
qed simp

lemma maxFlight_total: "shed_wf s \<Longrightarrow> \<exists>m \<ge> 1. maxFlight s now = Inr m"
  by (auto simp: maxFlight_def maxPass_def minRt_def shed_wf_def RW_Reduce_wf atLeast_ge)

lemma shouldDrop_total: "shed_wf s \<Longrightarrow> \<exists>b s'. shouldDrop s cpu now = Inr (b, s')"
proof -
  assume wf: "shed_wf s"
  define hs where "hs = (case systemOverloaded s cpu now of (True, s) \<Rightarrow> (True, s) | (False, s) \<Rightarrow> stillHot s now)"
  obtain hot s1 where hs: "hs = (hot, s1)" by (cases hs)
  have "shed_wf s1"
    using wf hs systemOverloaded_same [of s cpu now] stillHot_same [of _ now]
    by (auto simp: hs_def shed_wf_def split: prod.splits bool.splits) fastforce+
  then obtain m where "maxFlight s1 now = Inr m" using maxFlight_total by blast
  then show ?thesis using hs by (auto simp: shouldDrop_def highThru_def Let_def simp flip: hs_def split: bool.splits)
qed

lemma Allow_total:
  assumes "shed_wf s"
  shows "\<exists>r s'. Allow s cpu now = Inr (r, s')"
  using shouldDrop_total [OF assms, of cpu now] by (auto simp: Allow_def split: bool.splits)

lemma addFlying_simps [simp]:
  "flying (addFlying s d) = flying s + d" "passCounter (addFlying s d) = passCounter s"
  "rtCounter (addFlying s d) = rtCounter s" "shed_wf (addFlying s d) = shed_wf s"
  by (simp_all add: addFlying_def Let_def shed_wf_def)

lemma addFlying_avg: "0 \<le> avgFlying s \<Longrightarrow> 0 \<le> flying s + d \<Longrightarrow> 0 \<le> avgFlying (addFlying s d)"
  by (auto simp: addFlying_def Let_def flyingBeta_def intro!: add_nonneg_nonneg simp del: of_int_add)

lemma promise_Pass_total:
  assumes "shed_wf s"
  shows "\<exists>s'. promise_Pass s start now = Inr s' \<and> shed_wf s' \<and> flying s' = flying s - 1
    \<and> avgFlying s' = avgFlying (addFlying s (- 1))"
proof -
  obtain w where w: "RW_Add Bucket_Add Bucket_Reset (rtCounter s) now now
      \<lceil>(of_int (now - start) / of_int Millisecond :: float64)\<rceil> = Inr w" "rw_wf w"
    using RW_Add_total [of "rtCounter s" Bucket_Add Bucket_Reset now now] assms
    by (meson shed_wf_def)
  obtain w' where w': "RW_Add Bucket_Add Bucket_Reset (passCounter s) now now 1 = Inr w'" "rw_wf w'"
    using RW_Add_total [of "passCounter s" Bucket_Add Bucket_Reset now now 1] assms
    by (meson shed_wf_def)
  have "promise_Pass s start now = Inr ((addFlying s (- 1))\<lparr>rtCounter := w, passCounter := w'\<rparr>)"
    unfolding promise_Pass_def Let_def by (simp only: addFlying_simps w w' sum.case)
  then show ?thesis using w(2) w'(2) by (simp add: shed_wf_def)
qed

lemma shed_step_inv:
  assumes "shed_inv st"
  shows "\<exists>st'. shed_step st e = Inr st' \<and> shed_inv st'"
proof (cases st)
  case (Pair s run)
  have wf: "shed_wf s" and fl: "flying s = int (length run)" and av: "0 \<le> avgFlying s"
    using assms Pair by (simp_all add: shed_inv_def)
  show ?thesis
  proof (cases e)
    case (Arrive cpu now)
    obtain b s1 where d: "shouldDrop s cpu now = Inr (b, s1)" using shouldDrop_total [OF wf] by blast
    note same = shouldDrop_same [OF d]
    show ?thesis
      using Pair Arrive d same wf fl av addFlying_avg [of s1 1]
      by (cases b) (simp_all add: Allow_def shed_inv_def shed_wf_def)
  next
    case (Finish i e now)
    show ?thesis
    proof (cases "i < length run")
      case True
      have len: "int (length (take i run @ drop (Suc i) run)) = flying s - 1" using True fl by simp
      have "0 \<le> flying s + - 1" using True fl by linarith
      then have "0 \<le> avgFlying (addFlying s (- 1))" by (rule addFlying_avg [OF av])
      then show ?thesis
        using Pair Finish True len wf promise_Pass_total [OF wf, of "run ! i" now]
        by (cases e) (auto simp: promise_Fail_def shed_inv_def simp del: length_append)
    next
      case False
      then show ?thesis using assms Pair Finish by simp
    qed
  qed
qed

lemma shed_run_inv: "shed_inv st \<Longrightarrow> \<exists>st'. shed_run st es = Inr st' \<and> shed_inv st'"
proof (induction es arbitrary: st)
  case (Cons e es)
  then show ?case using shed_step_inv [OF Cons.prems, of e] by auto
qed simp

lemma overloadFactor_bounds:
  "overloadFactorLowerBound \<le> overloadFactor s cpu" "overloadFactor s cpu \<le> 1"
  by (auto simp: overloadFactor_def between_def overloadFactorLowerBound_def)

text \<open>Nothing is shed while no request is in flight, and a drop needs an overload signal.\<close>

lemma highThru_needs_flying:
  assumes "shed_wf s" "highThru s cpu now = Inr True"
  shows "0 < flying s"
proof -
  obtain m where m: "maxFlight s now = Inr m" "1 \<le> m" using maxFlight_total [OF assms(1)] by blast
  have "0 < m * overloadFactor s cpu"
    using m(2) overloadFactor_bounds(1) [of s cpu] by (auto simp: overloadFactorLowerBound_def)
  then have "0 < (of_int (flying s) :: rat)"
    using assms(2) m(1) by (auto simp: highThru_def Let_def)
  then show ?thesis by simp
qed

lemma shouldDrop_True:
  assumes "shed_wf s" "shouldDrop s cpu now = Inr (True, s')"
  shows "0 < flying s \<and> (cpuThreshold s \<le> cpu \<or>
    droppedRecently s \<and> overloadTime s \<noteq> 0 \<and> now - overloadTime s < coolOffDuration)"
proof -
  have h: "highThru s1 cpu now = Inr True \<Longrightarrow> s1 = s \<or> s1 = s\<lparr>overloadTime := now\<rparr> \<or>
      s1 = s\<lparr>droppedRecently := False\<rparr> \<Longrightarrow> 0 < flying s" for s1
    using highThru_needs_flying [of s1 cpu now] assms(1) by (auto simp: shed_wf_def)
  show ?thesis
    using assms(2) h
    by (auto simp: shouldDrop_def Let_def systemOverloaded_def stillHot_def
        split: prod.splits bool.splits sum.splits if_splits)
qed

section \<open>Properties\<close>

text \<open>
  C4. In every interleaving of arriving and finishing requests the shedder never fails on its own, its
  in-flight counter is exactly the number of admitted requests that have not finished, and the smoothed
  counter stays non-negative.
\<close>

theorem shedder_counts_in_flight:
  assumes "newAdaptiveShedder opts t0 = Inr s0" and "0 < interval (passCounter s0)"
  shows "\<exists>s run. shed_run (s0, []) es = Inr (s, run) \<and> flying s = int (length run)
    \<and> 0 \<le> flying s \<and> 0 \<le> avgFlying s"
proof -
  have "rw_wf (passCounter s0)" and "rtCounter s0 = passCounter s0" and "flying s0 = 0" and "avgFlying s0 = 0"
    using assms rw_wf_New
    by (auto simp: newAdaptiveShedder_def NewRollingWindow_def rw_wf_def Let_def split: sum.splits if_splits)
  then have "shed_inv (s0, [])" by (simp add: shed_inv_def shed_wf_def)
  from shed_run_inv [OF this, of es] show ?thesis by (auto simp: shed_inv_def)
qed

definition default_shedder :: adaptiveShedder where
  "default_shedder = \<lparr>cpuThreshold = 900, windowScale = 1 / 100, flying = 0, avgFlying = 0,
     overloadTime = 0, droppedRecently = False,
     passCounter = \<lparr>wsize = 50, buckets = replicate 50 emptyBucket, interval = 100000000, offset = 0,
                    ignoreCurrent = True, lastTime = 0\<rparr>,
     rtCounter = \<lparr>wsize = 50, buckets = replicate 50 emptyBucket, interval = 100000000, offset = 0,
                    ignoreCurrent = True, lastTime = 0\<rparr>\<rparr>"

lemma default_shedder_new: "newAdaptiveShedder [] 0 = Inr default_shedder"
  by (simp add: newAdaptiveShedder_def default_shedder_def defaultShedderOptions_def
      defaultShedderBuckets_def defaultShedderWindow_def defaultShedderCpuThreshold_def
      NewRollingWindow_def duration_units millisecondsPerSecond_def)

theorem shedder_counts_in_flight_witness:
  "\<exists>s run. shed_run (default_shedder, []) [Arrive 950 5, Arrive 950 6, Finish 0 None 7] = Inr (s, run)
     \<and> flying s = int (length run)"
proof -
  have "0 < interval (passCounter default_shedder)" by (simp add: default_shedder_def)
  from shedder_counts_in_flight [OF default_shedder_new this] show ?thesis by blast
qed

text \<open>
  A request is dropped only when some other request is in flight and the system is overloaded now
  (CPU at or above the threshold) or was within the cool-off second before and dropped recently. In
  particular an idle service admits every request, so shedding cannot lock a service up.
\<close>

theorem Allow_drop_reason:
  assumes "shed_wf s" and "Allow s cpu now = Inr (Inl e, s')"
  shows "e = ErrServiceOverloaded \<and> 0 < flying s \<and> flying s' = flying s \<and> droppedRecently s'
    \<and> (cpuThreshold s \<le> cpu \<or>
       droppedRecently s \<and> overloadTime s \<noteq> 0 \<and> now - overloadTime s < Second)"
proof -
  obtain s1 where s1: "shouldDrop s cpu now = Inr (True, s1)" "s' = s1\<lparr>droppedRecently := True\<rparr>"
      "e = ErrServiceOverloaded"
    using assms(2) by (auto simp: Allow_def split: sum.splits prod.splits bool.splits)
  show ?thesis
    using shouldDrop_True [OF assms(1) s1(1)] shouldDrop_same [OF s1(1)] s1(2,3)
    by (simp add: coolOffDuration_def)
qed

definition overloaded_shedder :: adaptiveShedder where
  "overloaded_shedder = \<lparr>cpuThreshold = 900, windowScale = 1 / 1000, flying = 9, avgFlying = 9,
     overloadTime = 0, droppedRecently = False,
     passCounter = \<lparr>wsize = 1, buckets = [emptyBucket], interval = 1000000000, offset = 0,
                    ignoreCurrent = True, lastTime = 0\<rparr>,
     rtCounter = \<lparr>wsize = 1, buckets = [emptyBucket], interval = 1000000000, offset = 0,
                    ignoreCurrent = True, lastTime = 0\<rparr>\<rparr>"

theorem Allow_drop_reason_witness:
  "0 < flying overloaded_shedder \<and> cpuThreshold overloaded_shedder \<le> 1000"
proof -
  have wf: "shed_wf overloaded_shedder" by (simp add: shed_wf_def rw_wf_def overloaded_shedder_def)
  have "\<exists>s'. Allow overloaded_shedder 1000 5 = Inr (Inl ErrServiceOverloaded, s')"
    by (simp add: Allow_def shouldDrop_def systemOverloaded_def highThru_def maxFlight_def maxPass_def
        minRt_def RW_Reduce_def RW_visited_def span_def atLeast_def overloadFactor_def between_def
        overloadFactorLowerBound_def cpuMax_def defaultShedderMinRt_def duration_units
        overloaded_shedder_def Let_def)
  then obtain s' where "Allow overloaded_shedder 1000 5 = Inr (Inl ErrServiceOverloaded, s')" by blast
  from Allow_drop_reason [OF wf this] show ?thesis by (auto simp: overloaded_shedder_def)
qed

text \<open>A smoothed CPU reading stays between the previous value and the new sample.\<close>

lemma smooth_cpu_between:
  assumes "0 \<le> prev" "prev \<le> 1000" "0 \<le> cur" "cur \<le> 1000"
  shows "0 \<le> smooth_cpu prev cur" and "smooth_cpu prev cur \<le> 1000"
proof -
  have "of_int 0 \<le> (of_int prev * cpu_beta + of_int cur * (1 - cpu_beta) :: rat)"
    using assms by (auto simp: cpu_beta_def intro!: add_nonneg_nonneg)
  moreover have "(of_int prev * cpu_beta + of_int cur * (1 - cpu_beta) :: rat) \<le> of_int 1000"
  proof -
    have "of_int prev \<le> (1000 :: rat)" "of_int cur \<le> (1000 :: rat)" using assms by simp_all
    then show ?thesis by (simp add: cpu_beta_def)
  qed
  ultimately show "0 \<le> smooth_cpu prev cur" and "smooth_cpu prev cur \<le> 1000"
    unfolding smooth_cpu_def by (rule float_to_int_bounds)+
qed

end
