(* ===== verification/Hedge.thy ===== *)
theory Hedge
  imports Errno
begin

text \<open>
  \<open>pkg/resilience/hedge.go\<close>: backup requests. When and how the primary and the backups complete is the
  environment's choice: a completion is the time a started request takes and what its handler returns,
  or \<open>None\<close> when it never returns. The two \<open>select\<close> statements pick among the channels that are ready, so
  a call is a relation; a call is one step on the two counters it shares with the calls before it.
\<close>

section \<open>Configuration and state\<close>

record hedgeConfig =
  hdelay :: duration
  maxBackups :: int
  backupErrRate :: float64

datatype hedgeOption = WithBackupMaxRetries int | WithBackupErrorRate float64

primrec apply_hedgeOption :: "hedgeConfig \<Rightarrow> hedgeOption \<Rightarrow> hedgeConfig" where
  "apply_hedgeOption c (WithBackupMaxRetries n) =
     (let n = (if n < 1 then 1 else n); n = (if n > 2 then 2 else n) in c\<lparr>maxBackups := n\<rparr>)"
| "apply_hedgeOption c (WithBackupErrorRate rate) =
     (let rate = (if rate < 0 then 0 else rate); rate = (if rate > 1 then 1 else rate)
      in c\<lparr>backupErrRate := rate\<rparr>)"

definition hedge_config :: "duration \<Rightarrow> hedgeOption list \<Rightarrow> hedgeConfig" where
  "hedge_config delay opts =
     foldl apply_hedgeOption \<lparr>hdelay = delay, maxBackups = 1, backupErrRate = 0\<rparr> opts"

record hedgeState =
  backupSuccess :: int
  backupTotal :: int

definition hedge_init :: hedgeState where
  "hedge_init = \<lparr>backupSuccess = 0, backupTotal = 0\<rparr>"

type_synonym completion = "(duration \<times> err option go) option"

text \<open>\<open>runHedge\<close> turns a panic of the handler into an error.\<close>

definition runHedge :: "err option go \<Rightarrow> err option" where
  "runHedge r = (case r of Inr e \<Rightarrow> e
     | Inl (Panic s) \<Rightarrow> Some (ErrString (''resilience: hedge panic: '' @ s)))"

definition throttled :: "hedgeConfig \<Rightarrow> hedgeState \<Rightarrow> bool" where
  "throttled cfg st \<longleftrightarrow> backupErrRate cfg > 0 \<and> backupTotal st > 0 \<and>
     of_int (backupTotal st - backupSuccess st) / of_int (backupTotal st) \<ge> backupErrRate cfg"

definition record_backup :: "hedgeState \<Rightarrow> err option \<Rightarrow> hedgeState" where
  "record_backup st e = st\<lparr>backupTotal := backupTotal st + 1,
     backupSuccess := (if e = None then backupSuccess st + 1 else backupSuccess st)\<rparr>"

definition done_by :: "completion \<Rightarrow> duration \<Rightarrow> bool" where
  "done_by c t \<longleftrightarrow> (case c of None \<Rightarrow> False | Some (d, _) \<Rightarrow> d < t)"

text \<open>
  \<open>Hedge cfg st p bs e st'\<close>: a call whose primary completes as \<open>p\<close> and whose \<open>i\<close>-th backup completes as
  \<open>bs i\<close> after its start may return \<open>e\<close> and leave the counters \<open>st'\<close>.
\<close>

inductive Hedge :: "hedgeConfig \<Rightarrow> hedgeState \<Rightarrow> completion \<Rightarrow> (nat \<Rightarrow> completion) \<Rightarrow> err option
    \<Rightarrow> hedgeState \<Rightarrow> bool" where
  primary_in_time:
    "p = Some (d, r) \<Longrightarrow> d \<le> hdelay cfg \<Longrightarrow> Hedge cfg st p bs (runHedge r) st"
| throttled_wait:
    "p = Some (d, r) \<Longrightarrow> hdelay cfg \<le> d \<Longrightarrow> throttled cfg st \<Longrightarrow> Hedge cfg st p bs (runHedge r) st"
| primary_wins:
    "p = Some (d, r) \<Longrightarrow> hdelay cfg \<le> d \<Longrightarrow> \<not> throttled cfg st \<Longrightarrow>
     (\<forall>j < nat (maxBackups cfg). \<not> done_by (bs j) (d - hdelay cfg)) \<Longrightarrow>
     Hedge cfg st p bs (runHedge r) st"
| backup_wins:
    "\<not> done_by p (hdelay cfg) \<Longrightarrow> \<not> throttled cfg st \<Longrightarrow> i < nat (maxBackups cfg) \<Longrightarrow>
     bs i = Some (d, r) \<Longrightarrow> (\<forall>j < nat (maxBackups cfg). \<not> done_by (bs j) d) \<Longrightarrow>
     \<not> done_by p (hdelay cfg + d) \<Longrightarrow>
     Hedge cfg st p bs (runHedge r) (record_backup st (runHedge r))"

inductive_cases HedgeE: "Hedge cfg st p bs e st'"

text \<open>A sequence of calls of the same middleware, one after the other.\<close>

inductive Hedge_calls :: "hedgeConfig \<Rightarrow> hedgeState \<Rightarrow> hedgeState \<Rightarrow> bool" for cfg where
  no_call: "Hedge_calls cfg st st"
| one_more: "Hedge_calls cfg st st1 \<Longrightarrow> Hedge cfg st1 p bs e st2 \<Longrightarrow> Hedge_calls cfg st st2"

section \<open>Invariants\<close>

lemma hedge_config_ok:
  "1 \<le> maxBackups (hedge_config delay opts) \<and> maxBackups (hedge_config delay opts) \<le> 2
   \<and> 0 \<le> backupErrRate (hedge_config delay opts) \<and> backupErrRate (hedge_config delay opts) \<le> 1
   \<and> hdelay (hedge_config delay opts) = delay"
proof (induction opts rule: rev_induct)
  case Nil
  then show ?case by (simp add: hedge_config_def)
next
  case (snoc x opts)
  then show ?case by (cases x) (auto simp: hedge_config_def Let_def)
qed

definition counters_ok :: "hedgeState \<Rightarrow> bool" where
  "counters_ok st \<longleftrightarrow> 0 \<le> backupSuccess st \<and> backupSuccess st \<le> backupTotal st"

lemma Hedge_counters: "Hedge cfg st p bs e st' \<Longrightarrow> counters_ok st \<Longrightarrow> counters_ok st'"
  by (auto elim!: HedgeE simp: counters_ok_def record_backup_def)

lemma Hedge_calls_counters: "Hedge_calls cfg st st' \<Longrightarrow> counters_ok st \<Longrightarrow> counters_ok st'"
  by (induction rule: Hedge_calls.induct) (auto dest: Hedge_counters)

lemma Hedge_throttled_same: "Hedge cfg st p bs e st' \<Longrightarrow> throttled cfg st \<Longrightarrow> st' = st"
  by (auto elim!: HedgeE)

text \<open>Among finitely many backups of which one completes there is a first one.\<close>

lemma first_backup:
  fixes n :: nat
  assumes "i < n" "bs i = Some (d, r)"
  shows "\<exists>i' d' r'. i' < n \<and> bs i' = Some (d', r') \<and> d' \<le> d \<and> (\<forall>j < n. \<not> done_by (bs j) d')"
proof -
  let ?D = "{d. \<exists>j < n. \<exists>r. bs j = Some (d, r)}"
  have "?D = (\<Union>j < n. {d. \<exists>r. bs j = Some (d, r)})" by auto
  moreover have "finite {d. \<exists>r. bs j = Some (d, r)}" for j by (cases "bs j") auto
  ultimately have fin: "finite ?D" by simp
  have d: "d \<in> ?D" using assms by auto
  then have "Min ?D \<in> ?D" and le: "Min ?D \<le> d"
    using Min_in [OF fin] Min_le [OF fin d] by blast+
  then obtain i' r' where i': "i' < n" "bs i' = Some (Min ?D, r')" by auto
  have "\<not> done_by (bs j) (Min ?D)" if "j < n" for j
  proof (cases "bs j")
    case (Some x)
    then have "fst x \<in> ?D" using that by (cases x) auto
    then show ?thesis using Some Min_le [OF fin] by (cases x) (auto simp: done_by_def not_less)
  qed (simp add: done_by_def)
  then show ?thesis using i' le by blast
qed

section \<open>Properties\<close>

text \<open>
  A hedged call returns the result of the primary or of one of at most two backups, and its result
  is that of a request that had completed; only a call that returned a backup's result changes the
  counters. It returns whenever the primary completes, and, unless throttled, whenever a backup does.
\<close>

theorem Hedge_result:
  assumes "cfg = hedge_config delay opts"
  shows "(Hedge cfg st p bs e st' \<longrightarrow>
      (\<exists>d r. p = Some (d, r) \<and> e = runHedge r \<and> st' = st)
      \<or> (\<exists>i d r. i < 2 \<and> bs i = Some (d, r) \<and> e = runHedge r \<and> st' = record_backup st e
           \<and> \<not> throttled cfg st))
    \<and> (p \<noteq> None \<or> \<not> throttled cfg st \<and> bs 0 \<noteq> None \<longrightarrow> (\<exists>e st'. Hedge cfg st p bs e st'))"
proof (intro conjI impI)
  have cfg: "1 \<le> maxBackups cfg" "maxBackups cfg \<le> 2" using hedge_config_ok assms by auto
  show "(\<exists>d r. p = Some (d, r) \<and> e = runHedge r \<and> st' = st)
      \<or> (\<exists>i d r. i < 2 \<and> bs i = Some (d, r) \<and> e = runHedge r \<and> st' = record_backup st e
           \<and> \<not> throttled cfg st)" if "Hedge cfg st p bs e st'"
    using that
  proof cases
    case (backup_wins i d r)
    then show ?thesis using cfg by (intro disjI2 exI [of _ i]) auto
  qed auto
  show "\<exists>e st'. Hedge cfg st p bs e st'" if "p \<noteq> None \<or> \<not> throttled cfg st \<and> bs 0 \<noteq> None"
  proof (cases "done_by p (hdelay cfg) \<or> (p \<noteq> None \<and> throttled cfg st)")
    case True
    then obtain d r where p: "p = Some (d, r)" "d < hdelay cfg \<or> throttled cfg st"
      by (auto simp: done_by_def split: option.splits)
    then show ?thesis
      using primary_in_time [OF p(1), of cfg st bs] throttled_wait [OF p(1), of cfg st bs]
      by (cases "d \<le> hdelay cfg") auto
  next
    case False
    then have nt: "\<not> throttled cfg st" and late: "\<not> done_by p (hdelay cfg)" using that by auto
    show ?thesis
    proof (cases "\<exists>i < nat (maxBackups cfg). bs i \<noteq> None")
      case True
      then obtain i d r where "i < nat (maxBackups cfg)" "bs i = Some (d, r)" by auto
      then obtain i d r where
          b: "i < nat (maxBackups cfg)" "bs i = Some (d, r)"
            "\<forall>j < nat (maxBackups cfg). \<not> done_by (bs j) d"
        using first_backup [of i "nat (maxBackups cfg)" bs d r] by blast
      show ?thesis
      proof (cases "done_by p (hdelay cfg + d)")
        case True
        then obtain dp rp where p: "p = Some (dp, rp)" "dp < hdelay cfg + d"
          by (auto simp: done_by_def split: option.splits)
        have "\<not> done_by (bs j) (dp - hdelay cfg)" if "j < nat (maxBackups cfg)" for j
          using b(3) that p(2) by (fastforce simp: done_by_def split: option.splits)
        then show ?thesis
          using primary_wins [OF p(1) _ nt] late p by (auto simp: done_by_def)
      next
        case False
        then show ?thesis using backup_wins [OF late nt b] by blast
      qed
    next
      case False
      then have "p \<noteq> None" using that cfg by auto
      then obtain dp rp where p: "p = Some (dp, rp)" by auto
      have "\<not> done_by (bs j) (dp - hdelay cfg)" if "j < nat (maxBackups cfg)" for j
        using False that by (auto simp: done_by_def split: option.splits)
      then show ?thesis using primary_wins [OF p _ nt] late p by (auto simp: done_by_def)
    qed
  qed
qed

definition hedge_late :: completion where "hedge_late = Some (100, Inr None)"

theorem Hedge_result_witness:
  "\<exists>e st'. Hedge (hedge_config 10 []) hedge_init hedge_late (\<lambda>_. Some (5, Inr None)) e st'"
  using Hedge_result [of "hedge_config 10 []" 10 "[]" hedge_init hedge_late "\<lambda>_. Some (5, Inr None)"]
  by (simp add: hedge_late_def)

text \<open>
  The adaptive throttle has no way back: once the backups' error rate has reached the configured
  limit, no later call issues a backup and the counters stay as they are, so hedging stays off for the
  life of the middleware. The counters themselves always satisfy \<open>0 \<le> success \<le> total\<close>.
\<close>

theorem Hedge_throttle_absorbing:
  assumes "Hedge_calls cfg hedge_init st" and "throttled cfg st" and "Hedge_calls cfg st st'"
  shows "st' = st \<and> throttled cfg st' \<and> 0 \<le> backupSuccess st' \<and> backupSuccess st' \<le> backupTotal st'"
proof -
  have "counters_ok hedge_init" by (simp add: counters_ok_def hedge_init_def)
  with assms(1) have ok: "counters_ok st" by (rule Hedge_calls_counters)
  have "st' = st" using assms(3,2) by (induction rule: Hedge_calls.induct) (auto dest: Hedge_throttled_same)
  then show ?thesis using ok assms(2) by (simp add: counters_ok_def)
qed

theorem Hedge_throttle_absorbing_witness:
  "throttled (hedge_config 10 [WithBackupErrorRate (1 / 2)]) \<lparr>backupSuccess = 0, backupTotal = 1\<rparr>
   \<and> Hedge_calls (hedge_config 10 [WithBackupErrorRate (1 / 2)]) hedge_init
       \<lparr>backupSuccess = 0, backupTotal = 1\<rparr>"
proof -
  let ?c = "hedge_config 10 [WithBackupErrorRate (1 / 2)]" and ?st = "\<lparr>backupSuccess = 0, backupTotal = 1\<rparr>"
  let ?b = "\<lambda>_::nat. Some (5::int, Inr (Some ContextCanceled))"
  have "Hedge ?c hedge_init hedge_late ?b (runHedge (Inr (Some ContextCanceled)))
      (record_backup hedge_init (runHedge (Inr (Some ContextCanceled))))"
    by (rule backup_wins [of _ _ _ 0 _ 5])
       (simp_all add: hedge_config_def hedge_late_def done_by_def throttled_def hedge_init_def)
  then have calls: "Hedge_calls ?c hedge_init ?st"
    using one_more [OF no_call [of ?c hedge_init]]
    by (simp add: record_backup_def runHedge_def hedge_init_def)
  have thr: "throttled ?c ?st" by (simp add: throttled_def hedge_config_def)
  show ?thesis using Hedge_throttle_absorbing [OF calls thr no_call] calls by simp
qed

end
