(* ===== verification/ResiliencyBreaker.thy ===== *)
theory ResiliencyBreaker
  imports Errno
begin

text \<open>
  \<open>pkg/resiliency/breaker.go\<close>: the closed / open / half-open breaker that counts consecutive failures.
  \<open>beforeRequest\<close> and \<open>afterRequest\<close> are each one step under the mutex; the request itself runs between
  them without the mutex, so a run interleaves the two halves of any number of requests. Clock readings
  are arguments.
\<close>

section \<open>Model\<close>

datatype State = StateClosed | StateOpen | StateHalfOpen

primrec State_String :: "State \<Rightarrow> string" where
  "State_String StateClosed = ''closed''"
| "State_String StateOpen = ''open''"
| "State_String StateHalfOpen = ''half-open''"

record breaker =
  bstate :: State
  bmaxRequests :: int
  btimeout :: duration
  bthreshold :: int
  consecutiveFailures :: int
  halfOpenRequests :: int
  openedAt :: time

definition defaultBreakerThreshold :: int where "defaultBreakerThreshold = 5"

record breakerOptions =
  omaxRequests :: int
  otimeout :: duration

definition newBreaker :: "breakerOptions \<Rightarrow> breaker" where
  "newBreaker opts =
     (let m = (if omaxRequests opts \<le> 0 then 1 else omaxRequests opts);
          t = (if otimeout opts \<le> 0 then 30 * Second else otimeout opts)
      in \<lparr>bstate = StateClosed, bmaxRequests = m, btimeout = t, bthreshold = defaultBreakerThreshold,
          consecutiveFailures = 0, halfOpenRequests = 0, openedAt = 0\<rparr>)"

definition beforeRequest :: "breaker \<Rightarrow> time \<Rightarrow> err option \<times> breaker" where
  "beforeRequest b now =
     (case bstate b of
        StateOpen \<Rightarrow>
          if now - openedAt b \<ge> btimeout b then (None, b\<lparr>bstate := StateHalfOpen, halfOpenRequests := 0\<rparr>)
          else (Some ErrCircuitOpen, b)
      | StateHalfOpen \<Rightarrow>
          if halfOpenRequests b \<ge> bmaxRequests b then (Some ErrCircuitOpen, b)
          else (None, b\<lparr>halfOpenRequests := halfOpenRequests b + 1\<rparr>)
      | StateClosed \<Rightarrow> (None, b))"

definition afterRequest :: "breaker \<Rightarrow> err option \<Rightarrow> (err option \<Rightarrow> bool) \<Rightarrow> time \<Rightarrow> breaker" where
  "afterRequest b err acceptable now =
     (let failed = (\<not> acceptable err)
      in case bstate b of
           StateClosed \<Rightarrow>
             if failed then
               (let b = b\<lparr>consecutiveFailures := consecutiveFailures b + 1\<rparr>
                in if consecutiveFailures b \<ge> bthreshold b
                   then b\<lparr>bstate := StateOpen, openedAt := now\<rparr> else b)
             else b\<lparr>consecutiveFailures := 0\<rparr>
         | StateHalfOpen \<Rightarrow>
             if failed then b\<lparr>bstate := StateOpen, openedAt := now, consecutiveFailures := bthreshold b\<rparr>
             else b\<lparr>bstate := StateClosed, consecutiveFailures := 0, halfOpenRequests := 0\<rparr>
         | StateOpen \<Rightarrow> b)"

text \<open>
  \<open>Execute\<close> on the breaker and the variables \<open>'c\<close> that the closure \<open>req\<close> captures. While \<open>req\<close> runs other
  requests may move the breaker, so \<open>req\<close> transforms it too. \<open>afterRequest\<close> is not deferred: a panic of
  \<open>req\<close> passes it by. A nil \<open>acceptable\<close> accepts exactly the nil error.
\<close>

definition Execute :: "breaker \<times> 'c \<Rightarrow> (breaker \<times> 'c \<Rightarrow> err option go \<times> breaker \<times> 'c)
    \<Rightarrow> (err option \<Rightarrow> bool) option \<Rightarrow> time \<Rightarrow> time \<Rightarrow> err option go \<times> breaker \<times> 'c" where
  "Execute s req acceptable t0 t1 =
     (let acc = (case acceptable of None \<Rightarrow> (\<lambda>e. e = None) | Some f \<Rightarrow> f)
      in case beforeRequest (fst s) t0 of
           (Some e, b) \<Rightarrow> (Inr (Some e), b, snd s)
         | (None, b) \<Rightarrow>
             (case req (b, snd s) of
                (Inl p, s) \<Rightarrow> (Inl p, s)
              | (Inr err, b, c) \<Rightarrow> (Inr err, afterRequest b err acc t1, c)))"

section \<open>Interleaved runs\<close>

text \<open>
  The events of a run: a request begins, an admitted one returns its error, or an admitted one panics.
  \<open>running\<close> counts the admitted requests that have not ended; \<open>probes\<close> counts the requests admitted since
  the breaker last left the open state.
\<close>

datatype breaker_event = Begin time | End "err option" time | PanicEnd

record breaker_run =
  brk :: breaker
  running :: nat
  probes :: int

fun breaker_step :: "(err option \<Rightarrow> bool) \<Rightarrow> breaker_run \<Rightarrow> breaker_event \<Rightarrow> breaker_run" where
  "breaker_step acc r (Begin now) =
     (case beforeRequest (brk r) now of
        (Some e, b) \<Rightarrow> r\<lparr>brk := b\<rparr>
      | (None, b) \<Rightarrow> \<lparr>brk = b, running = running r + 1,
                      probes = (if bstate (brk r) = StateOpen then 1 else probes r + 1)\<rparr>)"
| "breaker_step acc r (End e now) =
     (if running r = 0 then r
      else r\<lparr>brk := afterRequest (brk r) e acc now, running := running r - 1\<rparr>)"
| "breaker_step acc r PanicEnd = r\<lparr>running := running r - 1\<rparr>"

definition breaker_steps :: "(err option \<Rightarrow> bool) \<Rightarrow> breaker_run \<Rightarrow> breaker_event list \<Rightarrow> breaker_run" where
  "breaker_steps acc = foldl (breaker_step acc)"

definition breaker_start :: "breakerOptions \<Rightarrow> breaker_run" where
  "breaker_start opts = \<lparr>brk = newBreaker opts, running = 0, probes = 0\<rparr>"

text \<open>The invariant of the fields, for every state.\<close>

definition breaker_inv :: "breaker_run \<Rightarrow> bool" where
  "breaker_inv r \<longleftrightarrow>
     (let b = brk r in
      1 \<le> bmaxRequests b \<and> 0 < btimeout b \<and> 1 \<le> bthreshold b
      \<and> 0 \<le> consecutiveFailures b \<and> 0 \<le> halfOpenRequests b
      \<and> halfOpenRequests b \<le> bmaxRequests b
      \<and> (bstate b = StateClosed \<longleftrightarrow> consecutiveFailures b < bthreshold b)
      \<and> (bstate b = StateHalfOpen \<longrightarrow> probes r = halfOpenRequests b + 1))"

lemmas breaker_defs = beforeRequest_def afterRequest_def breaker_inv_def Let_def

lemma breaker_inv_start: "breaker_inv (breaker_start opts)"
  by (simp add: breaker_inv_def breaker_start_def newBreaker_def defaultBreakerThreshold_def
      Second_def Let_def)

lemma breaker_inv_step:
  assumes "breaker_inv r"
  shows "breaker_inv (breaker_step acc r e)"
proof (cases e)
  case (Begin now)
  with assms show ?thesis by (cases "bstate (brk r)") (auto simp: breaker_defs)
next
  case (End err now)
  with assms show ?thesis by (cases "bstate (brk r)") (auto simp: breaker_defs)
next
  case PanicEnd
  with assms show ?thesis by (auto simp: breaker_defs)
qed

lemma breaker_inv_steps:
  "breaker_inv r \<Longrightarrow> breaker_inv (breaker_steps acc r es)"
  by (induction es arbitrary: r) (auto simp: breaker_steps_def breaker_inv_step)

lemma breaker_config_step:
  "bmaxRequests (brk (breaker_step acc r e)) = bmaxRequests (brk r)
    \<and> btimeout (brk (breaker_step acc r e)) = btimeout (brk r)
    \<and> bthreshold (brk (breaker_step acc r e)) = bthreshold (brk r)"
  by (cases e; cases "bstate (brk r)") (simp_all add: breaker_defs)

lemma breaker_config_steps:
  "bmaxRequests (brk (breaker_steps acc r es)) = bmaxRequests (brk r)
    \<and> btimeout (brk (breaker_steps acc r es)) = btimeout (brk r)
    \<and> bthreshold (brk (breaker_steps acc r es)) = bthreshold (brk r)"
  by (induction es arbitrary: r) (auto simp: breaker_steps_def breaker_config_step)

text \<open>
  C5. In every interleaving of requests on a new breaker, whatever the outcomes: the breaker is closed
  exactly while fewer than five failures were counted since the last success, and in one half-open
  episode at most \<open>maxRequests + 1\<close> requests are admitted. (The request whose arrival ends the open
  state is admitted without being counted, so the bound is one more than the configured number.)
\<close>

theorem breaker_run_safe:
  "let r = breaker_steps acc (breaker_start opts) es; b = brk r
   in (bstate b = StateClosed \<longleftrightarrow> consecutiveFailures b < 5)
     \<and> 0 \<le> consecutiveFailures b
     \<and> (bstate b = StateHalfOpen \<longrightarrow>
          1 \<le> probes r \<and> probes r \<le> (if omaxRequests opts \<le> 0 then 1 else omaxRequests opts) + 1)"
proof -
  let ?r = "breaker_steps acc (breaker_start opts) es"
  have inv: "breaker_inv ?r" by (rule breaker_inv_steps [OF breaker_inv_start])
  have "bthreshold (brk ?r) = 5"
      "bmaxRequests (brk ?r) = (if omaxRequests opts \<le> 0 then 1 else omaxRequests opts)"
    by (simp_all add: breaker_config_steps)
       (simp_all add: breaker_start_def newBreaker_def defaultBreakerThreshold_def Let_def)
  with inv show ?thesis by (auto simp: breaker_inv_def Let_def)
qed

theorem breaker_run_safe_witness:
  "probes (breaker_steps (\<lambda>e. e = None) (breaker_start \<lparr>omaxRequests = 1, otimeout = 10\<rparr>)
      (concat (replicate 5 [Begin 0, End (Some ErrTimeout) 0]) @ [Begin 10, Begin 10])) = 2
   \<and> (2::int) \<le> 1 + 1"
proof -
  let ?es = "concat (replicate 5 [Begin 0, End (Some ErrTimeout) 0]) @ [Begin 10, Begin 10]"
  let ?o = "\<lparr>omaxRequests = 1, otimeout = 10\<rparr>"
  let ?r = "breaker_steps (\<lambda>e. e = None) (breaker_start ?o) ?es"
  have r: "bstate (brk ?r) = StateHalfOpen" "probes ?r = 2"
    by (simp_all add: breaker_steps_def breaker_start_def newBreaker_def breaker_defs
        defaultBreakerThreshold_def numeral_eq_Suc)
  show ?thesis using breaker_run_safe [of "\<lambda>e. e = None" ?o ?es] r by (simp add: Let_def)
qed

section \<open>When the breaker opens and how it recovers\<close>

text \<open>Calls made one after the other, each beginning and ending at its own time.\<close>

definition calls_of :: "(err option \<times> time) list \<Rightarrow> breaker_event list" where
  "calls_of cs = concat (map (\<lambda>(e, t). [Begin t, End e t]) cs)"

text \<open>The number of rejected calls at the end of a history.\<close>

definition trailing_failures :: "(err option \<Rightarrow> bool) \<Rightarrow> (err option \<times> time) list \<Rightarrow> nat" where
  "trailing_failures acc cs = length (takeWhile (\<lambda>c. \<not> acc (fst c)) (rev cs))"

lemma trailing_failures_snoc:
  "trailing_failures acc (cs @ [c]) = (if acc (fst c) then 0 else Suc (trailing_failures acc cs))"
  by (simp add: trailing_failures_def)

lemma breaker_steps_snoc_call:
  "breaker_steps acc r (calls_of (cs @ [(e, t)])) =
     breaker_step acc (breaker_step acc (breaker_steps acc r (calls_of cs)) (Begin t)) (End e t)"
  by (simp add: breaker_steps_def calls_of_def)

lemma closed_counts_trailing:
  assumes "\<And>n. n < length cs \<Longrightarrow> trailing_failures acc (take n cs) < 5"
  shows "let r = breaker_steps acc (breaker_start opts) (calls_of cs)
         in running r = 0 \<and> consecutiveFailures (brk r) = int (trailing_failures acc cs)
          \<and> bthreshold (brk r) = 5
          \<and> (bstate (brk r) = (if trailing_failures acc cs < 5 then StateClosed else StateOpen))"
  using assms
proof (induction cs rule: rev_induct)
  case Nil
  then show ?case
    by (simp add: breaker_steps_def calls_of_def breaker_start_def newBreaker_def trailing_failures_def
        defaultBreakerThreshold_def Let_def)
next
  case (snoc c cs)
  obtain e t where c: "c = (e, t)" by (cases c)
  have "trailing_failures acc (take n cs) < 5" if "n < length cs" for n
    using snoc.prems [of n] that by simp
  note ih = snoc.IH [OF this]
  have lt: "trailing_failures acc cs < 5" using snoc.prems [of "length cs"] by simp
  let ?r = "breaker_steps acc (breaker_start opts) (calls_of cs)"
  have r: "running ?r = 0" "consecutiveFailures (brk ?r) = int (trailing_failures acc cs)"
      "bstate (brk ?r) = StateClosed" "bthreshold (brk ?r) = 5"
    using ih lt by (simp_all add: Let_def)
  show ?case using r lt unfolding c breaker_steps_snoc_call
    by (simp add: Let_def beforeRequest_def afterRequest_def trailing_failures_snoc)
qed

text \<open>
  Sequential calls on a new breaker: as long as no five calls in a row failed before, every call is
  let through and the breaker counts exactly the failures since the last success; it opens on the call
  that completes five failures in a row, and not before.
\<close>

theorem breaker_opens_after_five:
  assumes "\<And>n. n < length cs \<Longrightarrow> trailing_failures acc (take n cs) < 5"
  shows "bstate (brk (breaker_steps acc (breaker_start opts) (calls_of cs))) =
           (if trailing_failures acc cs < 5 then StateClosed else StateOpen)
      \<and> consecutiveFailures (brk (breaker_steps acc (breaker_start opts) (calls_of cs))) =
           int (trailing_failures acc cs)"
  using closed_counts_trailing [OF assms, of opts] by (simp add: Let_def)

theorem breaker_opens_after_five_witness:
  "bstate (brk (breaker_steps (\<lambda>e. e = None) (breaker_start \<lparr>omaxRequests = 1, otimeout = 10\<rparr>)
      (calls_of ((None, 0) # replicate 5 (Some ErrTimeout, 1))))) = StateOpen"
proof -
  let ?cs = "(None, 0) # replicate 5 (Some ErrTimeout, 1 :: time)"
  have "trailing_failures (\<lambda>e. e = None) (take n ?cs) < 5" if "n < length ?cs" for n
  proof -
    have "n \<in> {0,1,2,3,4,5}" using that by auto
    then show ?thesis by (auto simp: trailing_failures_def numeral_eq_Suc)
  qed
  moreover have "trailing_failures (\<lambda>e. e = None) ?cs = 5"
    by (simp add: trailing_failures_def numeral_eq_Suc)
  ultimately show ?thesis
    using breaker_opens_after_five [of ?cs "\<lambda>e. e = None" "\<lparr>omaxRequests = 1, otimeout = 10\<rparr>"] by simp
qed

text \<open>
  An open breaker fails fast and recovers: a request inside the cooldown gets \<open>ErrCircuitOpen\<close> and
  changes nothing, \<open>req\<close> not being called; the first request after the cooldown is executed, a success
  closes the breaker with its counters cleared, and a failure opens it again for a full cooldown.
\<close>

theorem open_breaker_recovery:
  assumes "bstate b = StateOpen"
  shows "(now - openedAt b < btimeout b \<longrightarrow> Execute (b, c) req a now t1 = (Inr (Some ErrCircuitOpen), b, c))
    \<and> (now - openedAt b \<ge> btimeout b \<longrightarrow>
      Execute (b, c) (\<lambda>(b, c). (Inr err, b, c')) None now t1 =
        (Inr err,
         (if err = None
          then b\<lparr>bstate := StateClosed, halfOpenRequests := 0, consecutiveFailures := 0\<rparr>
          else b\<lparr>halfOpenRequests := 0, openedAt := t1, consecutiveFailures := bthreshold b\<rparr>), c'))"
  using assms by (cases b) (simp add: Execute_def beforeRequest_def afterRequest_def Let_def)

definition open_breaker :: breaker where
  "open_breaker = \<lparr>bstate = StateOpen, bmaxRequests = 1, btimeout = 10, bthreshold = 5,
     consecutiveFailures = 5, halfOpenRequests = 0, openedAt = 100\<rparr>"

theorem open_breaker_recovery_witness:
  "Execute (open_breaker, ()) (\<lambda>(b, c). (Inr None, b, c)) None 105 106 =
     (Inr (Some ErrCircuitOpen), open_breaker, ())
   \<and> bstate (fst (snd (Execute (open_breaker, ()) (\<lambda>(b, c). (Inr None, b, ())) None 110 111))) = StateClosed"
proof -
  have o: "bstate open_breaker = StateOpen" by (simp add: open_breaker_def)
  have a: "105 - openedAt open_breaker < btimeout open_breaker" by (simp add: open_breaker_def)
  have b: "110 - openedAt open_breaker \<ge> btimeout open_breaker" by (simp add: open_breaker_def)
  show ?thesis
    using open_breaker_recovery [OF o, of 105 "()" "\<lambda>(b, c). (Inr None, b, c)" None 106] a
      open_breaker_recovery [OF o, of 110 "()" "\<lambda>(b, c). (Inr None, b, c)" None 111 None "()"] b by simp
qed

section \<open>Requests that panic\<close>

text \<open>
  \<open>Execute\<close> does not record a request that panics. Once every admitted probe of a half-open episode
  has panicked, the breaker rejects every later request, however long one waits: no event sequence
  changes it any more.
\<close>

theorem panicked_probes_stick:
  assumes "bstate (brk r) = StateHalfOpen" "running r = 0"
    and "halfOpenRequests (brk r) \<ge> bmaxRequests (brk r)"
  shows "breaker_steps acc r es = r \<and> beforeRequest (brk r) now = (Some ErrCircuitOpen, brk r)"
proof -
  have rej: "beforeRequest (brk r) now = (Some ErrCircuitOpen, brk r)" for now
    using assms by (simp add: beforeRequest_def)
  have "breaker_step acc r e = r" for e
    using rej assms(2) by (cases e) simp_all
  then have "breaker_steps acc r es = r"
    by (induction es) (simp_all add: breaker_steps_def)
  with rej show ?thesis by simp
qed

theorem panicked_probes_stick_witness:
  "let r = breaker_steps (\<lambda>e. e = None) \<lparr>brk = open_breaker, running = 0, probes = 0\<rparr>
             [Begin 110, PanicEnd, Begin 110, PanicEnd]
   in breaker_steps (\<lambda>e. e = None) r [Begin 1000000, End None 1000001, Begin 2000000] = r
     \<and> beforeRequest (brk r) 3000000 = (Some ErrCircuitOpen, brk r)"
proof -
  let ?r = "breaker_steps (\<lambda>e. e = None) \<lparr>brk = open_breaker, running = 0, probes = 0\<rparr>
             [Begin 110, PanicEnd, Begin 110, PanicEnd]"
  have r: "bstate (brk ?r) = StateHalfOpen" "running ?r = 0"
      "halfOpenRequests (brk ?r) \<ge> bmaxRequests (brk ?r)"
    by (simp_all add: breaker_steps_def open_breaker_def beforeRequest_def)
  show ?thesis unfolding Let_def by (rule panicked_probes_stick [OF r])
qed

end
