(* ===== verification/GoStrings.thy ===== *)
theory GoStrings
  imports Prelude
begin

text \<open>
  The functions of the packages \<open>strings\<close> and \<open>strconv\<close> that the modelled sources call, on byte strings
  (\<open>string\<close> is a list of 8-bit characters). White space and case folding are those of ASCII.
\<close>

section \<open>Package strings\<close>

text \<open>Texts are ASCII here: the other Unicode white space, which \<open>strings.TrimSpace\<close> cuts too, does not occur.\<close>

definition is_space :: "char \<Rightarrow> bool" where
  "is_space c \<longleftrightarrow> c \<in> {CHR '' '', CHR 0x09, CHR 0x0A, CHR 0x0B, CHR 0x0C, CHR 0x0D}"

definition TrimSpace :: "string \<Rightarrow> string" where
  "TrimSpace s = rev (dropWhile is_space (rev (dropWhile is_space s)))"

definition HasPrefix :: "string \<Rightarrow> string \<Rightarrow> bool" where
  "HasPrefix s p \<longleftrightarrow> take (length p) s = p"

definition HasSuffix :: "string \<Rightarrow> string \<Rightarrow> bool" where
  "HasSuffix s p \<longleftrightarrow> length p \<le> length s \<and> drop (length s - length p) s = p"

definition TrimSuffix :: "string \<Rightarrow> string \<Rightarrow> string" where
  "TrimSuffix s p = (if HasSuffix s p then take (length s - length p) s else s)"

definition TrimPrefix :: "string \<Rightarrow> string \<Rightarrow> string" where
  "TrimPrefix s p = (if HasPrefix s p then drop (length p) s else s)"

text \<open>\<open>Split\<close> and \<open>Cut\<close> at a one-character separator.\<close>

fun Split :: "string \<Rightarrow> char \<Rightarrow> string list" where
  "Split [] c = [[]]"
| "Split (x # xs) c =
     (if x = c then [] # Split xs c
      else case Split xs c of [] \<Rightarrow> [[x]] | p # ps \<Rightarrow> (x # p) # ps)"

definition Cut :: "string \<Rightarrow> char \<Rightarrow> string \<times> string \<times> bool" where
  "Cut s c = (let a = takeWhile (\<lambda>x. x \<noteq> c) s; b = dropWhile (\<lambda>x. x \<noteq> c) s
     in if b = [] then (s, [], False) else (a, tl b, True))"

fun Join :: "string list \<Rightarrow> string \<Rightarrow> string" where
  "Join [] sep = []"
| "Join [x] sep = x"
| "Join (x # y # ys) sep = x @ sep @ Join (y # ys) sep"

definition lower_char :: "char \<Rightarrow> char" where
  "lower_char c = (if 65 \<le> (of_char c :: nat) \<and> (of_char c :: nat) \<le> 90 then char_of ((of_char c :: nat) + 32) else c)"

definition ToLower :: "string \<Rightarrow> string" where
  "ToLower s = map lower_char s"

definition EqualFold :: "string \<Rightarrow> string \<Rightarrow> bool" where
  "EqualFold a b \<longleftrightarrow> ToLower a = ToLower b"

section \<open>Package strconv\<close>

definition is_digit :: "char \<Rightarrow> bool" where
  "is_digit c \<longleftrightarrow> 48 \<le> (of_char c :: nat) \<and> (of_char c :: nat) \<le> 57"

definition digit_value :: "char \<Rightarrow> int" where
  "digit_value c = int (of_char c) - 48"

definition digits_value :: "string \<Rightarrow> int" where
  "digits_value s = foldl (\<lambda>n c. 10 * n + digit_value c) 0 s"

text \<open>\<open>Atoi\<close> on a 64-bit platform: \<open>None\<close> for a syntax or a range error.\<close>

definition Atoi :: "string \<Rightarrow> int option" where
  "Atoi s =
     (let neg = (s \<noteq> [] \<and> hd s = CHR ''-'');
          ds = (if s \<noteq> [] \<and> (hd s = CHR ''-'' \<or> hd s = CHR ''+'') then tl s else s);
          n = digits_value ds; v = (if neg then - n else n)
      in if ds \<noteq> [] \<and> list_all is_digit ds \<and> - (2 ^ 63) \<le> v \<and> v < 2 ^ 63 then Some v else None)"

definition digit_char :: "nat \<Rightarrow> char" where
  "digit_char d = char_of (48 + d)"

fun Itoa_nat :: "nat \<Rightarrow> string" where
  "Itoa_nat n = (if n < 10 then [digit_char n] else Itoa_nat (n div 10) @ [digit_char (n mod 10)])"

declare Itoa_nat.simps [simp del]

definition Itoa :: "int \<Rightarrow> string" where
  "Itoa n = (if n < 0 then CHR ''-'' # Itoa_nat (nat (- n)) else Itoa_nat (nat n))"

section \<open>Lemmas\<close>

lemma Split_ne [simp]: "Split s c \<noteq> []"
  by (induction s) (auto split: list.splits)

lemma Split_no_sep: "c \<notin> set s \<Longrightarrow> Split s c = [s]"
  by (induction s) auto

lemma Split_append: "c \<notin> set a \<Longrightarrow> Split (a @ c # b) c = a # Split b c"
  by (induction a) auto

lemma Split_pieces: "p \<in> set (Split s c) \<Longrightarrow> c \<notin> set p"
  by (induction s arbitrary: p) (auto split: list.splits if_splits)

text \<open>Splitting undoes joining when no piece contains the separator.\<close>

lemma Split_Join:
  assumes "ps \<noteq> []" "\<And>p. p \<in> set ps \<Longrightarrow> c \<notin> set p"
  shows "Split (Join ps [c]) c = ps"
  using assms by (induction ps "[c]" rule: Join.induct) (simp_all add: Split_no_sep Split_append)

lemma Join_Split: "Join (Split s c) [c] = s"
proof (induction s)
  case (Cons x s)
  show ?case
  proof (cases "Split s c")
    case (Cons p ps)
    then show ?thesis using Cons.IH by (cases ps) auto
  qed simp
qed simp

lemma Cut_append: "c \<notin> set a \<Longrightarrow> Cut (a @ c # b) c = (a, b, True)"
  by (induction a) (auto simp: Cut_def Let_def)

lemma Cut_none: "c \<notin> set s \<Longrightarrow> Cut s c = (s, [], False)"
  by (auto simp: Cut_def Let_def dropWhile_eq_Nil_conv)

lemma dropWhile_id: "xs = [] \<or> \<not> P (hd xs) \<Longrightarrow> dropWhile P xs = xs"
  by (cases xs) auto

lemma TrimSpace_id:
  assumes "\<And>c. c \<in> set s \<Longrightarrow> \<not> is_space c"
  shows "TrimSpace s = s"
proof -
  have a: "dropWhile is_space s = s" using assms by (intro dropWhile_id) (cases s, auto)
  have "dropWhile is_space (rev s) = rev s"
  proof (intro dropWhile_id)
    have "hd (rev s) \<in> set s" if "s \<noteq> []" using that by (simp add: hd_rev)
    then show "rev s = [] \<or> \<not> is_space (hd (rev s))" using assms by (cases "s = []") simp_all
  qed
  with a show ?thesis by (simp add: TrimSpace_def)
qed

lemma TrimSpace_Nil [simp]: "TrimSpace [] = []"
  by (simp add: TrimSpace_def)

lemma digit_char_simps:
  assumes "d < 10"
  shows "is_digit (digit_char d)" "digit_value (digit_char d) = int d" "\<not> is_space (digit_char d)"
    "digit_char d \<noteq> CHR ''-''" "digit_char d \<noteq> CHR '',''" "digit_char d \<noteq> CHR ''+''"
proof -
  have o: "(of_char (digit_char d) :: nat) = 48 + d" using assms by (simp add: digit_char_def)
  show "is_digit (digit_char d)" "digit_value (digit_char d) = int d"
    using assms o by (simp_all add: is_digit_def digit_value_def)
  have ne: "digit_char d \<noteq> c" if "(of_char c :: nat) < 48" for c using o that by auto
  show "\<not> is_space (digit_char d)" "digit_char d \<noteq> CHR ''-''" "digit_char d \<noteq> CHR '',''"
      "digit_char d \<noteq> CHR ''+''"
    using ne by (auto simp: is_space_def)
qed

lemma Itoa_nat_digits:
  "Itoa_nat n \<noteq> [] \<and> (\<forall>c \<in> set (Itoa_nat n). \<exists>d < 10. c = digit_char d)"
proof (induction n rule: Itoa_nat.induct)
  case (1 n)
  show ?case
  proof (cases "n < 10")
    case True
    then show ?thesis by (subst (1 2) Itoa_nat.simps) auto
  next
    case False
    have "\<exists>d < 10. digit_char (n mod 10) = digit_char d" by (rule exI [of _ "n mod 10"]) simp
    with False 1 show ?thesis by (subst (1 2) Itoa_nat.simps) auto
  qed
qed

lemma digits_value_snoc: "digits_value (s @ [c]) = 10 * digits_value s + digit_value c"
  by (simp add: digits_value_def)

lemma digits_value_Itoa_nat: "digits_value (Itoa_nat n) = int n"
proof (induction n rule: Itoa_nat.induct)
  case (1 n)
  show ?case
  proof (cases "n < 10")
    case True
    then show ?thesis by (subst Itoa_nat.simps) (simp add: digits_value_def digit_char_simps)
  next
    case False
    then have "digits_value (Itoa_nat n) = 10 * int (n div 10) + int (n mod 10)"
      using 1 by (subst Itoa_nat.simps) (simp add: digits_value_snoc digit_char_simps)
    also have "\<dots> = int n" by presburger
    finally show ?thesis .
  qed
qed

text \<open>\<open>Atoi\<close> reads back what \<open>Itoa\<close> prints.\<close>

lemma Atoi_Itoa_nat:
  assumes "int n < 2 ^ 63"
  shows "Atoi (Itoa_nat n) = Some (int n)"
proof -
  note d = Itoa_nat_digits [of n]
  then obtain c cs where cs: "Itoa_nat n = c # cs" by (cases "Itoa_nat n") auto
  then obtain k where "k < 10" "c = digit_char k" using d by auto
  then have c: "c \<noteq> CHR ''-''" "c \<noteq> CHR ''+''" by (simp_all add: digit_char_simps)
  have "list_all is_digit (Itoa_nat n)" using d by (auto simp: list_all_iff digit_char_simps)
  then show ?thesis
    using assms c cs digits_value_Itoa_nat [of n] by (simp add: Atoi_def Let_def)
qed

lemma Itoa_nat_clean:
  "c \<in> set (Itoa_nat n) \<Longrightarrow> \<not> is_space c \<and> c \<noteq> CHR ''-'' \<and> c \<noteq> CHR '',''"
  using Itoa_nat_digits [of n] digit_char_simps(3-5) by metis

lemma HasPrefix_iff: "HasPrefix s p \<longleftrightarrow> (\<exists>t. s = p @ t)"
  unfolding HasPrefix_def by (metis append_eq_conv_conj append_take_drop_id)

lemma HasSuffix_iff: "HasSuffix s p \<longleftrightarrow> (\<exists>t. s = t @ p)"
  unfolding HasSuffix_def by (metis append_eq_conv_conj append_take_drop_id diff_add_inverse2 length_append le_add2)

lemma TrimSuffix_append [simp]: "TrimSuffix (t @ p) p = t"
  by (auto simp: TrimSuffix_def HasSuffix_iff)

end
