(* ===== verification/Resiliency.thy ===== *)
theory Resiliency
  imports ResiliencyBreaker Retry GoStrings
begin

text \<open>
  \<open>pkg/resiliency\<close>: status-code ranges (\<open>match.go\<close>), compiled policies and their runner (\<open>policy.go\<close>),
  the configuration types (\<open>types.go\<close>) and the provider that compiles configurations and hands out
  per-endpoint policies (\<open>provider.go\<close>). Parameters: \<open>time.ParseDuration\<close>, \<open>errorsx.Code\<close> and the gRPC
  \<open>status.Code\<close>. Texts of formatted errors are cut to their constant part.
\<close>

section \<open>Status ranges\<close>

type_synonym 'a result = "err + 'a"

fun parse_range_parts :: "string list \<Rightarrow> (int \<times> int) list \<Rightarrow> (int \<times> int) list result" where
  "parse_range_parts [] ranges = Inr ranges"
| "parse_range_parts (part # parts) ranges =
     (let part = TrimSpace part in
      if part = [] then parse_range_parts parts ranges
      else case Cut part (CHR ''-'') of
        (lo, hi, True) \<Rightarrow>
          (case Atoi (TrimSpace lo) of
             None \<Rightarrow> Inl (ErrString ''resiliency: invalid status range'')
           | Some loN \<Rightarrow>
             (case Atoi (TrimSpace hi) of
                None \<Rightarrow> Inl (ErrString ''resiliency: invalid status range'')
              | Some hiN \<Rightarrow> parse_range_parts parts (ranges @ [(loN, hiN)])))
      | (_, _, False) \<Rightarrow>
          (case Atoi part of
             None \<Rightarrow> Inl (ErrString ''resiliency: invalid status code'')
           | Some n \<Rightarrow> parse_range_parts parts (ranges @ [(n, n)])))"

definition in_ranges :: "(int \<times> int) list \<Rightarrow> int \<Rightarrow> bool" where
  "in_ranges ranges code \<longleftrightarrow> list_ex (\<lambda>(lo, hi). code \<ge> lo \<and> code \<le> hi) ranges"

definition ParseStatusRanges :: "string \<Rightarrow> (int \<Rightarrow> bool) result" where
  "ParseStatusRanges s =
     (if TrimSpace s = [] then Inr (\<lambda>_. False)
      else case parse_range_parts (Split s (CHR '','')) [] of
             Inl e \<Rightarrow> Inl e | Inr ranges \<Rightarrow> Inr (in_ranges ranges))"

section \<open>Compiled policies and their runner\<close>

record RetryPolicy =
  rpolicy :: string
  rduration :: duration
  rmaxInterval :: duration
  rmaxRetries :: int
  rmatching :: "(err \<Rightarrow> bool) option"

record PolicyDefinition =
  pName :: string
  pTimeout :: duration
  pRetry :: "RetryPolicy option"
  pCircuitBreaker :: "nat option"

text \<open>The doubling loop; \<open>d *= 2\<close> is a 64-bit operation.\<close>

fun exponential :: "duration \<Rightarrow> duration \<Rightarrow> nat \<Rightarrow> duration" where
  "exponential maxI d 0 = (if maxI > 0 \<and> d > maxI then maxI else d)"
| "exponential maxI d (Suc n) =
     (if maxI > 0 \<and> d \<ge> maxI then maxI else exponential maxI (int64 (d * 2)) n)"

definition backoff :: "RetryPolicy \<Rightarrow> nat \<Rightarrow> duration" where
  "backoff r attempt =
     (if rpolicy r = ''exponential'' then exponential (rmaxInterval r) (rduration r) attempt
      else let d = rduration r in if rmaxInterval r > 0 \<and> d > rmaxInterval r then rmaxInterval r else d)"

text \<open>
  \<open>runRetry rp done op n s waits\<close>: the loop from attempt \<open>n\<close>. \<open>op\<close> works on a state \<open>'s\<close>; \<open>done n\<close> is the
  context's error when it ends before the timer of attempt \<open>n\<close>, and \<open>waits\<close> collects the timers' lengths.
\<close>

function runRetry :: "RetryPolicy \<Rightarrow> (nat \<Rightarrow> err option) \<Rightarrow> (nat \<Rightarrow> 's \<Rightarrow> ('t \<times> err option) go \<times> 's)
    \<Rightarrow> nat \<Rightarrow> 's \<Rightarrow> duration list \<Rightarrow> ('t \<times> err option) go \<times> 's \<times> duration list" where
  "runRetry rp ctxDone op attempt s waits =
     (case op attempt s of
        (Inl p, s) \<Rightarrow> (Inl p, s, waits)
      | (Inr (result, None), s) \<Rightarrow> (Inr (result, None), s, waits)
      | (Inr (result, Some e), s) \<Rightarrow>
          if (case rmatching rp of None \<Rightarrow> False | Some m \<Rightarrow> \<not> m e) then (Inr (result, Some e), s, waits)
          else if int attempt \<ge> rmaxRetries rp then (Inr (result, Some e), s, waits)
          else (let waits = waits @ [backoff rp attempt]
                in case ctxDone attempt of
                     Some ce \<Rightarrow> (Inr (result, Some ce), s, waits)
                   | None \<Rightarrow> runRetry rp ctxDone op (attempt + 1) s waits))"
  by pat_completeness auto
termination
  by (relation "measure (\<lambda>(rp, _, _, attempt, _, _). nat (rmaxRetries rp - int attempt))") auto

declare runRetry.simps [simp del]

text \<open>
  The operation of a caller: given its context, the attempt and the breakers (requests of other callers
  may move them while it runs) it returns a value and an error, or panics.
\<close>

type_synonym 't op = "ctx \<Rightarrow> nat \<Rightarrow> breaker list \<Rightarrow> ('t \<times> err option) go \<times> breaker list"

text \<open>\<open>protected\<close>, with the log of the contexts \<open>op\<close> was called with; \<open>t0\<close>, \<open>t1\<close> are the clock readings.\<close>

definition protected :: "nat option \<Rightarrow> 't \<Rightarrow> 't op \<Rightarrow> (nat \<Rightarrow> time) \<Rightarrow> (nat \<Rightarrow> time) \<Rightarrow> ctx \<Rightarrow> nat
    \<Rightarrow> breaker list \<times> ctx list \<Rightarrow> ('t \<times> err option) go \<times> breaker list \<times> ctx list" where
  "protected cb zero op t0 t1 c n s =
     (case s of (hs, lg) \<Rightarrow>
      (case cb of
         None \<Rightarrow> (let (r, hs) = op c n hs in (r, hs, lg @ [c]))
       | Some i \<Rightarrow>
           (case Execute (hs ! i, hs, lg, zero, None)
               (\<lambda>(b, hs, lg, _, _).
                  case op c n (hs[i := b]) of
                    (Inl p, hs) \<Rightarrow> (Inl p, hs ! i, hs, lg @ [c], zero, None)
                  | (Inr (r, e), hs) \<Rightarrow> (Inr e, hs ! i, hs, lg @ [c], r, e))
               None (t0 n) (t1 n) of
              (Inl p, b, hs, lg, _, _) \<Rightarrow> (Inl p, hs[i := b], lg)
            | (Inr cbErr, b, hs, lg, result, opErr) \<Rightarrow>
                (Inr (result, if cbErr \<noteq> None then cbErr else opErr), hs[i := b], lg))))"

definition Runner :: "ctx \<Rightarrow> time \<Rightarrow> PolicyDefinition option \<Rightarrow> 't \<Rightarrow> 't op \<Rightarrow> (nat \<Rightarrow> err option)
    \<Rightarrow> (nat \<Rightarrow> time) \<Rightarrow> (nat \<Rightarrow> time) \<Rightarrow> breaker list
    \<Rightarrow> ('t \<times> err option) go \<times> (breaker list \<times> ctx list) \<times> duration list" where
  "Runner c now def zero op ctxDone t0 t1 hs =
     (case def of
        None \<Rightarrow> (let (r, hs) = op c 0 hs in (r, (hs, [c]), []))
      | Some d \<Rightarrow>
          (let c = (if pTimeout d > 0 then WithTimeout c now (pTimeout d) else c)
           in case pRetry d of
                Some rp \<Rightarrow> runRetry rp ctxDone (protected (pCircuitBreaker d) zero op t0 t1 c) 0 (hs, []) []
              | None \<Rightarrow> (let (r, s) = protected (pCircuitBreaker d) zero op t0 t1 c 0 (hs, []) in (r, s, []))))"

section \<open>The configuration and the provider\<close>

record RetryMatching =
  HTTPStatusCodes :: string
  GRPCStatusCodes :: string

record RetryTemplate =
  tPolicy :: string
  tDuration :: string
  tMaxInterval :: string
  tMaxRetries :: "int option"
  tMatching :: "RetryMatching option"

record CircuitBreakerTemplate =
  cMaxRequests :: int
  cInterval :: string
  cTimeout :: string
  cTrip :: string

record EndpointPolicyNames =
  nTimeout :: string
  nRetry :: string
  nCircuitBreaker :: string
  nCircuitBreakerCacheSize :: int

text \<open>
  The maps of a parsed configuration are association lists in the order in which the loops of the build
  happen to iterate over them; the keys of a Go map are distinct.
\<close>

record ResiliencyCfg =
  rName :: string
  Timeouts :: "(string \<times> string) list"
  Retries :: "(string \<times> RetryTemplate) list"
  CircuitBreakers :: "(string \<times> CircuitBreakerTemplate) list"
  Apps :: "(string \<times> EndpointPolicyNames) list"
  Scopes :: "string list"

record breakerTemplate =
  btMaxRequests :: int
  btTimeout :: duration

record appPolicies =
  apTimeouts :: "string \<rightharpoonup> duration"
  apRetries :: "string \<rightharpoonup> RetryPolicy"
  apBreakers :: "string \<rightharpoonup> breakerTemplate"
  apTargets :: "string \<rightharpoonup> EndpointPolicyNames"
  cbCache :: "(string \<times> nat) list"
  cbMax :: int

text \<open>
  A breaker is a pointer: an index into \<open>heap\<close>. Several apps may point to the same \<open>appPolicies\<close>, so
  \<open>papps\<close> maps an app to an index into \<open>policies\<close>.
\<close>

record provider =
  papps :: "string \<rightharpoonup> nat"
  policies :: "appPolicies list"
  heap :: "breaker list"

definition parseOptionalDuration :: "(string \<Rightarrow> duration result) \<Rightarrow> string \<Rightarrow> duration result" where
  "parseOptionalDuration ParseDuration s = (if TrimSpace s = [] then Inr 0 else ParseDuration s)"

text \<open>The predicate is only applied to non-nil errors by \<open>runRetry\<close>; its test for nil is not modelled.\<close>

definition buildMatching :: "(err \<Rightarrow> int) \<Rightarrow> (err \<Rightarrow> int) \<Rightarrow> RetryMatching option
    \<Rightarrow> (err \<Rightarrow> bool) option result" where
  "buildMatching Code status_Code m =
     (case m of
        None \<Rightarrow> Inr None
      | Some m \<Rightarrow>
          (case ParseStatusRanges (HTTPStatusCodes m) of
             Inl e \<Rightarrow> Inl e
           | Inr httpMatch \<Rightarrow>
             (case ParseStatusRanges (GRPCStatusCodes m) of
                Inl e \<Rightarrow> Inl e
              | Inr grpcMatch \<Rightarrow>
                (let hasHTTP = (TrimSpace (HTTPStatusCodes m) \<noteq> []);
                     hasGRPC = (TrimSpace (GRPCStatusCodes m) \<noteq> [])
                 in Inr (Some (\<lambda>e.
                      if hasHTTP \<and> httpMatch (Code e) then True
                      else if hasGRPC \<and> status_Code e \<ge> 0 \<and> grpcMatch (status_Code e) then True
                      else \<not> hasHTTP \<and> \<not> hasGRPC))))))"

definition buildRetryPolicy :: "(string \<Rightarrow> duration result) \<Rightarrow> (err \<Rightarrow> int) \<Rightarrow> (err \<Rightarrow> int)
    \<Rightarrow> RetryTemplate \<Rightarrow> RetryPolicy result" where
  "buildRetryPolicy ParseDuration Code status_Code r =
     (let policy = (if tPolicy r = [] then ''constant'' else tPolicy r)
      in case parseOptionalDuration ParseDuration (tDuration r) of
           Inl e \<Rightarrow> Inl e
         | Inr d \<Rightarrow>
           (let d = (if d \<le> 0 then Second else d)
            in case parseOptionalDuration ParseDuration (tMaxInterval r) of
                 Inl e \<Rightarrow> Inl e
               | Inr maxInterval \<Rightarrow>
                 (let maxRetries = (case tMaxRetries r of None \<Rightarrow> 3 | Some n \<Rightarrow> n)
                  in case buildMatching Code status_Code (tMatching r) of
                       Inl e \<Rightarrow> Inl e
                     | Inr matching \<Rightarrow>
                         Inr \<lparr>rpolicy = policy, rduration = d, rmaxInterval = maxInterval,
                              rmaxRetries = maxRetries, rmatching = matching\<rparr>)))"

text \<open>The loops over the maps: the first error ends the build, a value is stored under its name.\<close>

fun build_entries :: "('a \<Rightarrow> 'b result) \<Rightarrow> string \<Rightarrow> (string \<times> 'a) list \<Rightarrow> (string \<rightharpoonup> 'b) \<Rightarrow> (string \<rightharpoonup> 'b) result" where
  "build_entries f what [] m = Inr m"
| "build_entries f what ((name, x) # rest) m =
     (case f x of
        Inl e \<Rightarrow> Inl (ErrString (''resiliency: '' @ what))
      | Inr y \<Rightarrow> build_entries f what rest (m(name \<mapsto> y)))"

definition build_targets :: "(string \<times> EndpointPolicyNames) list \<Rightarrow> appPolicies \<Rightarrow> appPolicies" where
  "build_targets apps ap =
     foldl (\<lambda>ap (app, names).
        (let ap = ap\<lparr>apTargets := (apTargets ap)(app \<mapsto> names)\<rparr>
         in if nCircuitBreakerCacheSize names > 0 then ap\<lparr>cbMax := nCircuitBreakerCacheSize names\<rparr> else ap))
       ap apps"

definition buildAppPolicies :: "(string \<Rightarrow> duration result) \<Rightarrow> (err \<Rightarrow> int) \<Rightarrow> (err \<Rightarrow> int)
    \<Rightarrow> ResiliencyCfg \<Rightarrow> appPolicies result" where
  "buildAppPolicies ParseDuration Code status_Code cfg =
     (case build_entries ParseDuration ''timeout'' (Timeouts cfg) Map.empty of
        Inl e \<Rightarrow> Inl e
      | Inr timeouts \<Rightarrow>
        (case build_entries (buildRetryPolicy ParseDuration Code status_Code) ''retry'' (Retries cfg) Map.empty of
           Inl e \<Rightarrow> Inl e
         | Inr retries \<Rightarrow>
           (case build_entries
               (\<lambda>cb. case parseOptionalDuration ParseDuration (cTimeout cb) of
                       Inl e \<Rightarrow> Inl e
                     | Inr t \<Rightarrow> Inr \<lparr>btMaxRequests = cMaxRequests cb, btTimeout = t\<rparr>)
               ''circuit breaker'' (CircuitBreakers cfg) Map.empty of
              Inl e \<Rightarrow> Inl e
            | Inr breakers \<Rightarrow>
                Inr (build_targets (Apps cfg)
                  \<lparr>apTimeouts = timeouts, apRetries = retries, apBreakers = breakers,
                   apTargets = Map.empty, cbCache = [], cbMax = 100\<rparr>))))"

fun add_configurations :: "(ResiliencyCfg \<Rightarrow> appPolicies result) \<Rightarrow> ResiliencyCfg option list \<Rightarrow> provider \<Rightarrow> provider result" where
  "add_configurations build [] p = Inr p"
| "add_configurations build (None # cfgs) p = add_configurations build cfgs p"
| "add_configurations build (Some cfg # cfgs) p =
     (case build cfg of
        Inl e \<Rightarrow> Inl e
      | Inr ap \<Rightarrow>
        (let i = length (policies p);
             apps = foldl (\<lambda>m (app, _). m(app \<mapsto> i)) (papps p) (Apps cfg);
             apps = (if rName cfg \<noteq> [] then apps(rName cfg \<mapsto> i) else apps)
         in add_configurations build cfgs (p\<lparr>papps := apps, policies := policies p @ [ap]\<rparr>)))"

definition FromConfigurations :: "(string \<Rightarrow> duration result) \<Rightarrow> (err \<Rightarrow> int) \<Rightarrow> (err \<Rightarrow> int)
    \<Rightarrow> ResiliencyCfg option list \<Rightarrow> provider result" where
  "FromConfigurations ParseDuration Code status_Code cfgs =
     add_configurations (buildAppPolicies ParseDuration Code status_Code) cfgs
       \<lparr>papps = Map.empty, policies = [], heap = []\<rparr>"

text \<open>\<open>Load\<close> with the file system and the YAML decoder as parameters.\<close>

fun load_files :: "(string \<Rightarrow> string result) \<Rightarrow> (string \<Rightarrow> ResiliencyCfg result) \<Rightarrow> string list
    \<Rightarrow> ResiliencyCfg option list \<Rightarrow> ResiliencyCfg option list result" where
  "load_files ReadFile Unmarshal [] cfgs = Inr cfgs"
| "load_files ReadFile Unmarshal (path # paths) cfgs =
     (case ReadFile path of
        Inl e \<Rightarrow> Inl (ErrString (''resiliency: read '' @ path))
      | Inr data \<Rightarrow>
        (case Unmarshal data of
           Inl e \<Rightarrow> Inl (ErrString (''resiliency: parse '' @ path))
         | Inr cfg \<Rightarrow> load_files ReadFile Unmarshal paths (cfgs @ [Some cfg])))"

definition Load :: "(string \<Rightarrow> string result) \<Rightarrow> (string \<Rightarrow> ResiliencyCfg result) \<Rightarrow> (string \<Rightarrow> duration result)
    \<Rightarrow> (err \<Rightarrow> int) \<Rightarrow> (err \<Rightarrow> int) \<Rightarrow> string list \<Rightarrow> provider result" where
  "Load ReadFile Unmarshal ParseDuration Code status_Code paths =
     (case load_files ReadFile Unmarshal paths [] of
        Inl e \<Rightarrow> Inl e
      | Inr cfgs \<Rightarrow> FromConfigurations ParseDuration Code status_Code cfgs)"

definition PolicyDefined :: "provider \<Rightarrow> string \<Rightarrow> bool" where
  "PolicyDefined p app \<longleftrightarrow> papps p app \<noteq> None"

text \<open>\<open>endpointBreaker\<close> on one \<open>appPolicies\<close> and the heap, in which a new breaker is allocated.\<close>

definition endpointBreaker :: "appPolicies \<Rightarrow> breaker list \<Rightarrow> string \<Rightarrow> breakerTemplate
    \<Rightarrow> nat \<times> appPolicies \<times> breaker list" where
  "endpointBreaker ap hs endpoint tpl =
     (case map_of (cbCache ap) endpoint of
        Some cb \<Rightarrow> (cb, ap, hs)
      | None \<Rightarrow>
          (let cb = length hs;
               hs = hs @ [newBreaker \<lparr>omaxRequests = btMaxRequests tpl, otimeout = btTimeout tpl\<rparr>]
           in if int (length (cbCache ap)) < cbMax ap
              then (cb, ap\<lparr>cbCache := (endpoint, cb) # cbCache ap\<rparr>, hs) else (cb, ap, hs)))"

definition buildDefinition :: "appPolicies \<Rightarrow> breaker list \<Rightarrow> string \<Rightarrow> EndpointPolicyNames
    \<Rightarrow> PolicyDefinition \<times> appPolicies \<times> breaker list" where
  "buildDefinition ap hs endpoint names =
     (let def = \<lparr>pName = endpoint, pTimeout = 0, pRetry = None, pCircuitBreaker = None\<rparr>;
          def = (case apTimeouts ap (nTimeout names) of Some d \<Rightarrow> def\<lparr>pTimeout := d\<rparr> | None \<Rightarrow> def);
          def = (case apRetries ap (nRetry names) of Some rp \<Rightarrow> def\<lparr>pRetry := Some rp\<rparr> | None \<Rightarrow> def)
      in case apBreakers ap (nCircuitBreaker names) of
           Some tpl \<Rightarrow> (let (cb, ap, hs) = endpointBreaker ap hs endpoint tpl
                        in (def\<lparr>pCircuitBreaker := Some cb\<rparr>, ap, hs))
         | None \<Rightarrow> (def, ap, hs))"

definition EndpointPolicy :: "provider \<Rightarrow> string \<Rightarrow> string \<Rightarrow> PolicyDefinition option \<times> provider" where
  "EndpointPolicy p app endpoint =
     (case papps p app of
        None \<Rightarrow> (None, p)
      | Some i \<Rightarrow>
          (case apTargets (policies p ! i) app of
             None \<Rightarrow> (None, p)
           | Some names \<Rightarrow>
               (let (def, ap, hs) = buildDefinition (policies p ! i) (heap p) endpoint names
                in (Some def, p\<lparr>policies := (policies p)[i := ap], heap := hs\<rparr>))))"

section \<open>Status ranges read back\<close>

text \<open>A range as the documentation writes it: a single code or \<open>lo-hi\<close>.\<close>

definition print_range :: "nat \<times> nat \<Rightarrow> string" where
  "print_range r = (if fst r = snd r then Itoa_nat (fst r) else Itoa_nat (fst r) @ CHR ''-'' # Itoa_nat (snd r))"

lemma Itoa_nat_chars:
  "c \<in> set (Itoa_nat n) \<Longrightarrow> \<not> is_space c \<and> c \<noteq> CHR ''-'' \<and> c \<noteq> CHR '',''"
proof -
  assume "c \<in> set (Itoa_nat n)"
  then obtain d where "d < 10" "c = digit_char d" using Itoa_nat_digits [of n] by auto
  then show ?thesis by (simp add: digit_char_simps)
qed

lemma print_range_chars:
  "c \<in> set (print_range r) \<Longrightarrow> \<not> is_space c \<and> c \<noteq> CHR '',''"
proof -
  assume "c \<in> set (print_range r)"
  then have "c \<in> set (Itoa_nat (fst r)) \<or> c \<in> set (Itoa_nat (snd r)) \<or> c = CHR ''-''"
    by (simp add: print_range_def split: if_splits) blast
  then show ?thesis using Itoa_nat_chars by (elim disjE) (blast, blast, simp add: is_space_def)
qed

lemma print_range_ne: "print_range r \<noteq> []"
  using Itoa_nat_digits by (auto simp: print_range_def)

lemma TrimSpace_print [simp]: "TrimSpace (print_range r) = print_range r"
  by (rule TrimSpace_id) (use print_range_chars in blast)

lemma TrimSpace_Itoa_nat [simp]: "TrimSpace (Itoa_nat n) = Itoa_nat n"
  by (rule TrimSpace_id) (use Itoa_nat_chars in blast)

lemma parse_print_range:
  assumes "int (fst r) < 2 ^ 63" "int (snd r) < 2 ^ 63"
  shows "parse_range_parts (print_range r # parts) acc =
         parse_range_parts parts (acc @ [(int (fst r), int (snd r))])"
proof (cases "fst r = snd r")
  case True
  have "CHR ''-'' \<notin> set (Itoa_nat (snd r))" using Itoa_nat_chars by blast
  then have "Cut (print_range r) (CHR ''-'') = (print_range r, [], False)"
    using True by (simp add: print_range_def Cut_none)
  moreover have "Atoi (print_range r) = Some (int (snd r))"
    using True assms Atoi_Itoa_nat [of "snd r"] by (simp add: print_range_def)
  ultimately show ?thesis using True print_range_ne [of r] by (simp add: Let_def)
next
  case False
  have "CHR ''-'' \<notin> set (Itoa_nat (fst r))" using Itoa_nat_chars by blast
  then have "Cut (print_range r) (CHR ''-'') = (Itoa_nat (fst r), Itoa_nat (snd r), True)"
    using False by (simp add: print_range_def Cut_append)
  then show ?thesis
    using assms print_range_ne [of r] Atoi_Itoa_nat [of "fst r"] Atoi_Itoa_nat [of "snd r"]
    by (simp add: Let_def)
qed

lemma parse_print_ranges:
  assumes "\<And>r. r \<in> set rs \<Longrightarrow> int (fst r) < 2 ^ 63 \<and> int (snd r) < 2 ^ 63"
  shows "parse_range_parts (map print_range rs) acc = Inr (acc @ map (map_prod int int) rs)"
  using assms
proof (induction rs arbitrary: acc)
  case (Cons r rs)
  have "int (fst r) < 2 ^ 63" "int (snd r) < 2 ^ 63" using Cons.prems [of r] by auto
  moreover have "parse_range_parts (map print_range rs) acc' = Inr (acc' @ map (map_prod int int) rs)" for acc'
    using Cons.prems by (intro Cons.IH) auto
  ultimately show ?case by (simp add: parse_print_range map_prod_def case_prod_unfold del: parse_range_parts.simps)
qed simp

lemma TrimSpace_Nil_iff: "TrimSpace s = [] \<longleftrightarrow> (\<forall>c \<in> set s. is_space c)"
proof -
  have "TrimSpace s = [] \<longleftrightarrow> (\<forall>c \<in> set (dropWhile is_space s). is_space c)"
    by (simp add: TrimSpace_def dropWhile_eq_Nil_conv)
  also have "\<dots> \<longleftrightarrow> dropWhile is_space s = []"
  proof (cases "dropWhile is_space s")
    case Nil
    show ?thesis unfolding Nil by simp
  next
    case (Cons x xs)
    then have "\<not> is_space x" by (metis hd_dropWhile list.distinct(1) list.sel(1))
    with Cons show ?thesis by simp
  qed
  finally show ?thesis by (simp add: dropWhile_eq_Nil_conv)
qed

lemma TrimSpace_Join_print:
  "rs \<noteq> [] \<Longrightarrow> TrimSpace (Join (map print_range rs) [CHR '','']) \<noteq> []"
proof (cases rs)
  case (Cons r rs')
  obtain c where "c \<in> set (print_range r)" using print_range_ne [of r] by (cases "print_range r") auto
  moreover have "set (print_range r) \<subseteq> set (Join (map print_range rs) [CHR '',''])"
    using Cons by (cases rs') auto
  ultimately show ?thesis using print_range_chars [of c r] by (auto simp: TrimSpace_Nil_iff)
qed simp

text \<open>
  C6. Parsing a printed list of status ranges gives the predicate that holds exactly for the codes in
  one of the ranges, bounds included; the empty list gives the predicate that matches nothing.
\<close>

theorem ParseStatusRanges_print:
  assumes "\<And>r. r \<in> set rs \<Longrightarrow> int (fst r) < 2 ^ 63 \<and> int (snd r) < 2 ^ 63"
  shows "\<exists>p. ParseStatusRanges (Join (map print_range rs) '','') = Inr p
    \<and> (\<forall>code. p code \<longleftrightarrow> (\<exists>(lo, hi) \<in> set rs. int lo \<le> code \<and> code \<le> int hi))"
proof (cases "rs = []")
  case False
  have "Split (Join (map print_range rs) '','') (CHR '','') = map print_range rs"
    using False print_range_chars by (intro Split_Join) auto
  then have "ParseStatusRanges (Join (map print_range rs) '','') = Inr (in_ranges (map (map_prod int int) rs))"
    using TrimSpace_Join_print [OF False] parse_print_ranges [of rs "[]", OF assms]
    by (simp add: ParseStatusRanges_def)
  moreover have "in_ranges (map (map_prod int int) rs) code \<longleftrightarrow>
      (\<exists>(lo, hi) \<in> set rs. int lo \<le> code \<and> code \<le> int hi)" for code
    by (simp add: in_ranges_def list_ex_iff case_prod_unfold)
  ultimately show ?thesis by blast
qed (simp add: ParseStatusRanges_def)

theorem ParseStatusRanges_print_witness:
  "\<exists>p. ParseStatusRanges ''500,502-504'' = Inr p \<and> p 500 \<and> \<not> p 501 \<and> p 502 \<and> p 503 \<and> p 504 \<and> \<not> p 505"
proof -
  let ?rs = "[(500, 500), (502, 504)] :: (nat \<times> nat) list"
  have pr: "Join (map print_range ?rs) '','' = ''500,502-504''"
    by code_simp
  have "\<exists>p. ParseStatusRanges (Join (map print_range ?rs) '','') = Inr p
    \<and> (\<forall>code. p code \<longleftrightarrow> (\<exists>(lo, hi) \<in> set ?rs. int lo \<le> code \<and> code \<le> int hi))"
    by (rule ParseStatusRanges_print) auto
  then show ?thesis unfolding pr by auto
qed

section \<open>Backoff and retries\<close>

lemma exponential_closed:
  assumes "0 < d" "0 < m" "m \<le> 2 ^ 62"
  shows "exponential m d n = min m (d * 2 ^ n)"
  using assms
proof (induction n arbitrary: d)
  case (Suc n)
  show ?case
  proof (cases "d \<ge> m")
    case True
    have "d * 1 \<le> d * 2 ^ Suc n" using Suc.prems one_le_power [of "2::int" "Suc n"] by (intro mult_left_mono) linarith+
    then have "m \<le> d * 2 ^ Suc n" using True by linarith
    with True Suc.prems show ?thesis by simp
  next
    case False
    then have "int64 (d * 2) = d * 2" using Suc.prems by (intro int64_id) auto
    with False Suc show ?thesis by (simp add: mult.assoc mult.left_commute)
  qed
qed simp

text \<open>Without a positive \<open>maxInterval\<close> nothing cuts the doubling: it is the 64-bit product.\<close>

lemma int64_double: "int64 (int64 x * k) = int64 (x * k)"
proof -
  have "(int64 x * k + 2 ^ 63) mod 2 ^ 64 = (x * k + 2 ^ 63) mod 2 ^ 64"
  proof -
    have "int64 x mod 2 ^ 64 = x mod 2 ^ 64"
      by (simp add: int64_def mod_diff_left_eq)
    then have "(int64 x * k) mod 2 ^ 64 = (x * k) mod 2 ^ 64" by (metis mod_mult_left_eq)
    then show ?thesis by (metis mod_add_left_eq)
  qed
  then show ?thesis by (simp add: int64_def)
qed

lemma exponential_uncapped:
  assumes "m \<le> 0" "int64 d = d"
  shows "exponential m d n = int64 (d * 2 ^ n)"
  using assms(2)
proof (induction n arbitrary: d)
  case (Suc n)
  have "int64 (int64 (d * 2)) = int64 (d * 2)" using int64_double [of "d * 2" 1] by simp
  then have "exponential m (int64 (d * 2)) n = int64 (int64 (d * 2) * 2 ^ n)" by (rule Suc.IH)
  with assms(1) show ?case by (simp add: int64_double mult.assoc)
qed (use assms(1) in simp)

text \<open>
  C7. The wait before the next attempt, for a positive \<open>duration\<close>. With a positive \<open>maxInterval\<close> of at most
  \<open>2^62\<close> nanoseconds (146 years) it is \<open>duration * 2^attempt\<close> (exponential) or \<open>duration\<close> (otherwise), cut at
  \<open>maxInterval\<close>: there the 64-bit doubling does not overflow and no wait is longer than the cap. Without a
  \<open>maxInterval\<close> (the default 0, or a negative one) a constant policy waits \<open>duration\<close>, but the exponential one the
  64-bit product, which wraps: \<open>backoff_wraps\<close> is a negative wait.
\<close>

theorem backoff_capped:
  assumes "0 < rduration r" "rduration r < 2 ^ 63" "rmaxInterval r \<le> 2 ^ 62"
  shows "backoff r n =
     (if 0 < rmaxInterval r
      then min (rmaxInterval r) (if rpolicy r = ''exponential'' then rduration r * 2 ^ n else rduration r)
      else if rpolicy r = ''exponential'' then int64 (rduration r * 2 ^ n) else rduration r)"
proof (cases "0 < rmaxInterval r")
  case True
  then show ?thesis using exponential_closed [OF assms(1) True assms(3)] by (auto simp: backoff_def Let_def)
next
  case False
  then show ?thesis using exponential_uncapped [of "rmaxInterval r" "rduration r"] assms
    by (auto simp: backoff_def Let_def int64_id)
qed

theorem backoff_capped_witness:
  "backoff \<lparr>rpolicy = ''exponential'', rduration = 100, rmaxInterval = 1000, rmaxRetries = 3, rmatching = None\<rparr> 3 = 800
   \<and> backoff \<lparr>rpolicy = ''exponential'', rduration = 100, rmaxInterval = 1000, rmaxRetries = 3, rmatching = None\<rparr> 90 = 1000
   \<and> backoff \<lparr>rpolicy = ''exponential'', rduration = 2 ^ 62, rmaxInterval = 0, rmaxRetries = 3, rmatching = None\<rparr> 1 = - (2 ^ 63)"
  using backoff_capped [of "\<lparr>rpolicy = ''exponential'', rduration = 100, rmaxInterval = 1000, rmaxRetries = 3, rmatching = None\<rparr>"]
    backoff_capped [of "\<lparr>rpolicy = ''exponential'', rduration = 2 ^ 62, rmaxInterval = 0, rmaxRetries = 3, rmatching = None\<rparr>" 1]
  by (simp add: int64_def)

text \<open>Without a \<open>maxInterval\<close> the doubling does wrap: a default one-second policy waits a negative time.\<close>

lemma backoff_wraps:
  "backoff \<lparr>rpolicy = ''exponential'', rduration = Second, rmaxInterval = 0, rmaxRetries = 40, rmatching = None\<rparr> 34 < 0"
  by (simp add: backoff_def Second_def int64_def numeral_eq_Suc)

text \<open>Whether the loop goes on after attempt \<open>n\<close> ended with the error \<open>e\<close>.\<close>

definition retries_after :: "RetryPolicy \<Rightarrow> nat \<Rightarrow> err option \<Rightarrow> bool" where
  "retries_after rp n e \<longleftrightarrow>
     (case e of None \<Rightarrow> False
      | Some x \<Rightarrow> (case rmatching rp of None \<Rightarrow> True | Some m \<Rightarrow> m x) \<and> int n < rmaxRetries rp)"

lemma runRetry_stop:
  "op n s = (Inr (v, e), s') \<Longrightarrow> \<not> retries_after rp n e \<Longrightarrow>
     runRetry rp ctxDone op n s ws = (Inr (v, e), s', ws)"
  by (subst runRetry.simps) (auto simp: retries_after_def split: option.splits)

lemma runRetry_more:
  "op n s = (Inr (v, e), s') \<Longrightarrow> retries_after rp n e \<Longrightarrow>
     runRetry rp ctxDone op n s ws =
       (case ctxDone n of Some ce \<Rightarrow> (Inr (v, Some ce), s', ws @ [backoff rp n])
        | None \<Rightarrow> runRetry rp ctxDone op (n + 1) s' (ws @ [backoff rp n]))"
  by (subst runRetry.simps) (auto simp: retries_after_def Let_def split: option.splits)

lemma runRetry_panic: "op n s = (Inl p, s') \<Longrightarrow> runRetry rp ctxDone op n s ws = (Inl p, s', ws)"
  by (subst runRetry.simps) simp

text \<open>Attempts are made in order, each on the state its predecessor left.\<close>

fun attempts :: "(nat \<Rightarrow> 's \<Rightarrow> ('t \<times> err option) go \<times> 's) \<Rightarrow> nat \<Rightarrow> nat \<Rightarrow> 's \<Rightarrow> 's" where
  "attempts op n 0 s = s"
| "attempts op n (Suc k) s = attempts op (Suc n) k (snd (op n s))"

lemma runRetry_spec:
  assumes "\<And>n s. \<exists>v e s'. op n s = (Inr (v, e), s')"
  shows "\<exists>k v e s'. k \<le> nat (rmaxRetries rp - int n)
     \<and> op (n + k) (attempts op n k s) = (Inr (v, e), s')
     \<and> (\<forall>j < k. \<exists>v e s'. op (n + j) (attempts op n j s) = (Inr (v, e), s') \<and> retries_after rp (n + j) e
          \<and> ctxDone (n + j) = None)
     \<and> (let r = runRetry rp ctxDone op n s ws in
        if retries_after rp (n + k) e
        then \<exists>ce. ctxDone (n + k) = Some ce
              \<and> r = (Inr (v, Some ce), s', ws @ map (backoff rp) [n..<n + k + 1])
        else r = (Inr (v, e), s', ws @ map (backoff rp) [n..<n + k]))"
proof (induction "nat (rmaxRetries rp - int n)" arbitrary: n s ws rule: less_induct)
  case less
  obtain v e s' where op: "op n s = (Inr (v, e), s')" using assms by blast
  show ?case
  proof (cases "retries_after rp n e")
    case False
    then have "runRetry rp ctxDone op n s ws = (Inr (v, e), s', ws)" using op by (simp add: runRetry_stop)
    with op False show ?thesis by (intro exI [of _ 0] exI [of _ v] exI [of _ e] exI [of _ s']) simp
  next
    case True
    then have lt: "int n < rmaxRetries rp" by (auto simp: retries_after_def split: option.splits)
    show ?thesis
    proof (cases "ctxDone n")
      case (Some ce)
      then have "runRetry rp ctxDone op n s ws = (Inr (v, Some ce), s', ws @ [backoff rp n])"
        using True op by (simp add: runRetry_more)
      with op True Some show ?thesis
        by (intro exI [of _ 0] exI [of _ v] exI [of _ e] exI [of _ s']) simp
    next
      case None
      then have step: "runRetry rp ctxDone op n s ws =
          runRetry rp ctxDone op (Suc n) s' (ws @ [backoff rp n])"
        using True op by (simp add: runRetry_more)
      have "nat (rmaxRetries rp - int (Suc n)) < nat (rmaxRetries rp - int n)" using lt by linarith
      from less(1) [OF this, of s' "ws @ [backoff rp n]"]
      obtain k v2 e2 s2 where k: "k \<le> nat (rmaxRetries rp - int (Suc n))"
        and opk: "op (Suc n + k) (attempts op (Suc n) k s') = (Inr (v2, e2), s2)"
        and before: "\<forall>j < k. \<exists>v e s2. op (Suc n + j) (attempts op (Suc n) j s') = (Inr (v, e), s2)
            \<and> retries_after rp (Suc n + j) e \<and> ctxDone (Suc n + j) = None"
        and res: "let r = runRetry rp ctxDone op (Suc n) s' (ws @ [backoff rp n]) in
            if retries_after rp (Suc n + k) e2
            then \<exists>ce. ctxDone (Suc n + k) = Some ce
              \<and> r = (Inr (v2, Some ce), s2, (ws @ [backoff rp n]) @ map (backoff rp) [Suc n..<Suc n + k + 1])
            else r = (Inr (v2, e2), s2, (ws @ [backoff rp n]) @ map (backoff rp) [Suc n..<Suc n + k])"
        by (elim exE conjE) (rule that)
      have all: "\<forall>j < Suc k. \<exists>v e s2. op (n + j) (attempts op n j s) = (Inr (v, e), s2)
          \<and> retries_after rp (n + j) e \<and> ctxDone (n + j) = None"
      proof (intro allI impI)
        fix j assume "j < Suc k"
        then show "\<exists>v e s2. op (n + j) (attempts op n j s) = (Inr (v, e), s2)
          \<and> retries_after rp (n + j) e \<and> ctxDone (n + j) = None"
          using op True None before by (cases j) auto
      qed
      have kk: "Suc k \<le> nat (rmaxRetries rp - int n)" using k lt by linarith
      have ws: "(ws @ [backoff rp n]) @ map (backoff rp) [Suc n..<Suc n + j] =
          ws @ map (backoff rp) [n..<n + Suc j]" for j
        by (simp add: upt_conv_Cons [of n] del: upt_Suc)
      show ?thesis unfolding step
        using res [unfolded Let_def add.assoc [of _ k] ws] opk op kk all
        by (intro exI [of _ "Suc k"] exI [of _ v2] exI [of _ e2] exI [of _ s2])
           (auto simp: Let_def simp del: upt_Suc split: if_splits)
    qed
  qed
qed

text \<open>
  C8. Retrying, when the operation does not panic: attempts \<open>0..k\<close> are made for some
  \<open>k \<le> max 0 maxRetries\<close>, each on the state its predecessor left; every attempt before the last ended
  with a retryable error; the result is the last attempt's value and error, or the context's error when
  the context ended during the wait; and the timers waited for are \<open>backoff 0, backoff 1, ...\<close>.
\<close>

theorem runRetry_attempts:
  assumes "\<And>n s. \<exists>v e s'. op n s = (Inr (v, e), s')"
  shows "\<exists>k v e s'. int k \<le> max 0 (rmaxRetries rp)
     \<and> op k (attempts op 0 k s) = (Inr (v, e), s')
     \<and> (\<forall>j < k. \<exists>v e s'. op j (attempts op 0 j s) = (Inr (v, e), s') \<and> retries_after rp j e)
     \<and> (if retries_after rp k e
        then \<exists>ce. ctxDone k = Some ce
              \<and> runRetry rp ctxDone op 0 s [] = (Inr (v, Some ce), s', map (backoff rp) [0..<k + 1])
        else runRetry rp ctxDone op 0 s [] = (Inr (v, e), s', map (backoff rp) [0..<k]))"
proof -
  from runRetry_spec [of op rp 0 s ctxDone "[]", OF assms]
  obtain k v e s' where k: "k \<le> nat (rmaxRetries rp - int 0)"
    and o: "op (0 + k) (attempts op 0 k s) = (Inr (v, e), s')"
    and b: "\<forall>j < k. \<exists>v e s'. op (0 + j) (attempts op 0 j s) = (Inr (v, e), s') \<and> retries_after rp (0 + j) e
          \<and> ctxDone (0 + j) = None"
    and r: "let r = runRetry rp ctxDone op 0 s [] in
        if retries_after rp (0 + k) e
        then \<exists>ce. ctxDone (0 + k) = Some ce
              \<and> r = (Inr (v, Some ce), s', [] @ map (backoff rp) [0..<0 + k + 1])
        else r = (Inr (v, e), s', [] @ map (backoff rp) [0..<0 + k])"
    by (elim exE conjE) (rule that)
  have "int k \<le> max 0 (rmaxRetries rp)" using k by linarith
  moreover have "\<forall>j < k. \<exists>v e s'. op j (attempts op 0 j s) = (Inr (v, e), s') \<and> retries_after rp j e"
    using b by (metis add_0)
  ultimately show ?thesis using o r [unfolded Let_def]
    by (intro exI [of _ k] exI [of _ v] exI [of _ e] exI [of _ s']) (auto split: if_splits)
qed

theorem runRetry_attempts_witness:
  "\<exists>k. int k \<le> 2 \<and> runRetry \<lparr>rpolicy = ''constant'', rduration = 7, rmaxInterval = 0, rmaxRetries = 2, rmatching = None\<rparr>
       (\<lambda>_. None) (\<lambda>n calls. (Inr ((), if n < 1 then Some ErrTimeout else None), calls + 1)) 0 (0::nat) []
     = (Inr ((), None), 2, map (\<lambda>_. 7) [0..<k])"
proof -
  let ?rp = "\<lparr>rpolicy = ''constant'', rduration = 7, rmaxInterval = 0, rmaxRetries = 2, rmatching = None\<rparr>"
  let ?op = "\<lambda>n (calls::nat). (Inr ((), if n < (1::nat) then Some ErrTimeout else None) :: (unit \<times> err option) go, calls + 1)"
  have "\<exists>v e s'. ?op n s = (Inr (v, e), s')" for n s by blast
  from runRetry_attempts [of ?op ?rp 0 "\<lambda>_. None", OF this]
  obtain k v e s' where k: "int k \<le> max 0 (rmaxRetries ?rp)"
      "?op k (attempts ?op 0 k 0) = (Inr (v, e), s')"
      "\<forall>j < k. \<exists>v e s'. ?op j (attempts ?op 0 j 0) = (Inr (v, e), s') \<and> retries_after ?rp j e"
      "if retries_after ?rp k e
        then \<exists>ce. None = Some ce
              \<and> runRetry ?rp (\<lambda>_. None) ?op 0 0 [] = (Inr (v, Some ce), s', map (backoff ?rp) [0..<k + 1])
        else runRetry ?rp (\<lambda>_. None) ?op 0 0 [] = (Inr (v, e), s', map (backoff ?rp) [0..<k])"
    by (elim exE conjE) (rule that)
  have bo: "backoff ?rp = (\<lambda>_. 7)" by (rule ext) (simp add: backoff_def)
  have "\<not> 1 < k" using k(3) by (auto simp: retries_after_def dest!: spec [of _ 1])
  moreover have "k \<noteq> 0"
  proof
    assume k0: "k = 0"
    then have "e = Some ErrTimeout" using k(2) by simp
    then have "retries_after ?rp k e" using k0 by (simp add: retries_after_def)
    then show False using k(4) by simp
  qed
  ultimately have "k = 1" by simp
  with k(2,4) have "runRetry ?rp (\<lambda>_. None) ?op 0 0 [] = (Inr ((), None), 2, map (\<lambda>_. 7) [0..<1])"
    by (simp add: retries_after_def bo)
  then show ?thesis by (intro exI [of _ 1]) simp
qed

text \<open>A rejected attempt of the protected operation: \<open>op\<close> is not called and nothing changes.\<close>

lemma protected_open:
  assumes "i < length hs" "bstate (hs ! i) = StateOpen" "t0 n - openedAt (hs ! i) < btimeout (hs ! i)"
  shows "protected (Some i) zero op t0 t1 c n (hs, lg) = (Inr (zero, Some ErrCircuitOpen), hs, lg)"
  using assms by (simp add: protected_def Execute_def beforeRequest_def Let_def)

lemma runRetry_open:
  assumes "\<And>n. protected (Some i) zero op t0 t1 c n s = (Inr (zero, Some ErrCircuitOpen), s)"
  shows "\<exists>e ws'. runRetry rp ctxDone (protected (Some i) zero op t0 t1 c) n s ws = (Inr (zero, Some e), s, ws')
    \<and> (e = ErrCircuitOpen \<or> (\<exists>m. ctxDone m = Some e))"
proof (induction "nat (rmaxRetries rp - int n)" arbitrary: n ws rule: less_induct)
  case less
  show ?case
  proof (cases "retries_after rp n (Some ErrCircuitOpen) \<and> ctxDone n = None")
    case False
    then show ?thesis
      using runRetry_stop [where op = "protected (Some i) zero op t0 t1 c", OF assms]
        runRetry_more [where op = "protected (Some i) zero op t0 t1 c", OF assms]
      by (cases "retries_after rp n (Some ErrCircuitOpen)") auto
  next
    case True
    then have "int n < rmaxRetries rp" by (simp add: retries_after_def)
    then have "nat (rmaxRetries rp - int (n + 1)) < nat (rmaxRetries rp - int n)" by linarith
    from less [OF this, of "ws @ [backoff rp n]"] show ?thesis
      using True runRetry_more [where op = "protected (Some i) zero op t0 t1 c", OF assms] by simp
  qed
qed

text \<open>
  While an endpoint's breaker is open and its cooldown has not passed at any attempt, the runner
  never calls the operation, whatever the retry policy: it returns the zero value with \<open>ErrCircuitOpen\<close>
  or the context's error, and leaves every breaker as it was.
\<close>

theorem Runner_open_fails_fast:
  assumes "pCircuitBreaker d = Some i" "i < length hs" "bstate (hs ! i) = StateOpen"
    and "\<forall>n. t0 n - openedAt (hs ! i) < btimeout (hs ! i)"
  shows "\<exists>e ws. Runner c now (Some d) zero op ctxDone t0 t1 hs = (Inr (zero, Some e), (hs, []), ws)
    \<and> (e = ErrCircuitOpen \<or> (\<exists>n. ctxDone n = Some e))"
proof -
  have p: "protected (Some i) zero op t0 t1 c' n (hs, []) = (Inr (zero, Some ErrCircuitOpen), hs, [])" for c' n
    using assms by (simp add: protected_open)
  show ?thesis
  proof (cases "pRetry d")
    case None
    then show ?thesis using assms(1) p by (simp add: Runner_def Let_def)
  next
    case (Some rp)
    then show ?thesis using assms(1) runRetry_open [OF p, of rp ctxDone] by (simp add: Runner_def Let_def)
  qed
qed

theorem Runner_open_fails_fast_witness:
  "\<exists>e ws. Runner \<lparr>deadline = None\<rparr> 101
      (Some \<lparr>pName = ''ep'', pTimeout = 0,
         pRetry = Some \<lparr>rpolicy = ''constant'', rduration = 1, rmaxInterval = 0, rmaxRetries = 3, rmatching = None\<rparr>,
         pCircuitBreaker = Some 0\<rparr>)
      (0::int) (\<lambda>c n hs. (Inr (1, None), hs)) (\<lambda>_. None) (\<lambda>n. 105) (\<lambda>n. 106) [open_breaker]
     = (Inr (0, Some e), ([open_breaker], []), ws) \<and> (e = ErrCircuitOpen \<or> (\<exists>n::nat. None = Some e))"
  by (rule Runner_open_fails_fast [where i = 0]) (simp_all add: open_breaker_def)

section \<open>Per-endpoint breakers\<close>

text \<open>What holds of a provider after any sequence of lookups: every pointer is valid, cached breakers of
  one \<open>appPolicies\<close> belong to different endpoints, and no cache outgrows its limit.\<close>

definition cache_ok :: "nat \<Rightarrow> appPolicies \<Rightarrow> bool" where
  "cache_ok n ap \<longleftrightarrow> distinct (map fst (cbCache ap)) \<and> (\<forall>cb \<in> snd ` set (cbCache ap). cb < n)
     \<and> int (length (cbCache ap)) \<le> max 0 (cbMax ap)"

definition provider_ok :: "provider \<Rightarrow> bool" where
  "provider_ok p \<longleftrightarrow>
     (\<forall>app i. papps p app = Some i \<longrightarrow> i < length (policies p))
     \<and> (\<forall>ap \<in> set (policies p). cache_ok (length (heap p)) ap)"

lemma cache_ok_mono: "cache_ok n ap \<Longrightarrow> n \<le> m \<Longrightarrow> cache_ok m ap"
  by (auto simp: cache_ok_def dest: bspec)

lemma endpointBreaker_ok:
  assumes "endpointBreaker ap hs ep tpl = (cb, ap', hs')" "cache_ok (length hs) ap"
  shows "cache_ok (length hs') ap' \<and> length hs \<le> length hs' \<and> cb < length hs'"
proof (cases "map_of (cbCache ap) ep")
  case None
  then have "cb = length hs" "length hs' = Suc (length hs)"
      "ap' = (if int (length (cbCache ap)) < cbMax ap then ap\<lparr>cbCache := (ep, cb) # cbCache ap\<rparr> else ap)"
    using assms(1) by (auto simp: endpointBreaker_def Let_def split: if_splits)
  moreover have "ep \<notin> fst ` set (cbCache ap)" using None by (simp add: map_of_eq_None_iff)
  moreover have "cache_ok (Suc (length hs)) ap" using assms(2) cache_ok_mono by (meson le_SucI order_refl)
  ultimately show ?thesis by (auto simp: cache_ok_def)
next
  case (Some c)
  then have "cb \<in> snd ` set (cbCache ap)" "ap' = ap" "hs' = hs"
    using assms(1) by (auto simp: endpointBreaker_def dest!: map_of_SomeD intro: rev_image_eqI)
  with assms(2) show ?thesis by (auto simp: cache_ok_def)
qed

lemma buildDefinition_ok:
  assumes "buildDefinition ap hs ep names = (def, ap', hs')" "cache_ok (length hs) ap"
  shows "cache_ok (length hs') ap' \<and> length hs \<le> length hs'"
proof (cases "apBreakers ap (nCircuitBreaker names)")
  case None
  then show ?thesis using assms by (auto simp: buildDefinition_def Let_def)
next
  case (Some tpl)
  obtain cb ap2 hs2 where eb: "endpointBreaker ap hs ep tpl = (cb, ap2, hs2)"
    by (cases "endpointBreaker ap hs ep tpl")
  then have "ap' = ap2" "hs' = hs2" using Some assms(1) by (auto simp: buildDefinition_def Let_def)
  then show ?thesis using endpointBreaker_ok [OF eb assms(2)] by simp
qed

lemma EndpointPolicy_ok:
  assumes "provider_ok p" "EndpointPolicy p app ep = (def, p')"
  shows "provider_ok p' \<and> length (policies p') = length (policies p) \<and> papps p' = papps p"
proof (cases "\<exists>i names. papps p app = Some i \<and> apTargets (policies p ! i) app = Some names")
  case False
  then show ?thesis using assms by (auto simp: EndpointPolicy_def split: option.splits)
next
  case True
  then obtain i names where i: "papps p app = Some i" "apTargets (policies p ! i) app = Some names" by blast
  obtain d ap hs where bd: "buildDefinition (policies p ! i) (heap p) ep names = (d, ap, hs)"
    by (cases "buildDefinition (policies p ! i) (heap p) ep names")
  have p': "p' = p\<lparr>policies := (policies p)[i := ap], heap := hs\<rparr>"
    using assms(2) i bd by (simp add: EndpointPolicy_def)
  have "i < length (policies p)" using assms(1) i by (auto simp: provider_ok_def)
  then have "policies p ! i \<in> set (policies p)" by simp
  then have new: "cache_ok (length hs) ap \<and> length (heap p) \<le> length hs"
    using assms(1) by (intro buildDefinition_ok [OF bd]) (simp add: provider_ok_def)
  have "cache_ok (length hs) a" if "a \<in> set (policies p)" for a
    using assms(1) that new cache_ok_mono by (auto simp: provider_ok_def)
  then show ?thesis unfolding p' using assms(1) new set_update_subset_insert [of "policies p" i ap]
    by (auto simp: provider_ok_def)
qed

text \<open>A cached breaker stays cached under its endpoint, whatever is looked up in between.\<close>

lemma endpointBreaker_keeps:
  "map_of (cbCache ap) ep = Some cb \<Longrightarrow> endpointBreaker ap hs ep' tpl = (cb', ap', hs') \<Longrightarrow>
     map_of (cbCache ap') ep = Some cb"
  by (auto simp: endpointBreaker_def Let_def split: option.splits if_splits)

lemma buildDefinition_keeps:
  assumes "map_of (cbCache ap) ep = Some cb" "buildDefinition ap hs ep' names = (def, ap', hs')"
  shows "map_of (cbCache ap') ep = Some cb \<and> apBreakers ap' = apBreakers ap \<and> apTargets ap' = apTargets ap"
proof (cases "apBreakers ap (nCircuitBreaker names)")
  case None
  then show ?thesis using assms by (auto simp: buildDefinition_def Let_def)
next
  case (Some tpl)
  obtain cb2 ap2 hs2 where eb: "endpointBreaker ap hs ep' tpl = (cb2, ap2, hs2)"
    by (cases "endpointBreaker ap hs ep' tpl")
  have "apBreakers ap2 = apBreakers ap \<and> apTargets ap2 = apTargets ap"
    using eb by (auto simp: endpointBreaker_def Let_def split: option.splits if_splits)
  moreover have "ap' = ap2" using Some eb assms(2) by (auto simp: buildDefinition_def Let_def)
  ultimately show ?thesis using endpointBreaker_keeps [OF assms(1) eb] by simp
qed

fun lookups :: "provider \<Rightarrow> (string \<times> string) list \<Rightarrow> provider" where
  "lookups p [] = p"
| "lookups p ((app, ep) # qs) = lookups (snd (EndpointPolicy p app ep)) qs"

lemma lookups_keep:
  assumes "provider_ok p" "i < length (policies p)" "map_of (cbCache (policies p ! i)) ep = Some cb"
  shows "provider_ok (lookups p qs) \<and> papps (lookups p qs) = papps p
    \<and> i < length (policies (lookups p qs))
    \<and> map_of (cbCache (policies (lookups p qs) ! i)) ep = Some cb
    \<and> apBreakers (policies (lookups p qs) ! i) = apBreakers (policies p ! i)
    \<and> apTargets (policies (lookups p qs) ! i) = apTargets (policies p ! i)"
  using assms
proof (induction p qs rule: lookups.induct)
  case (2 p app ep' qs)
  obtain def p' where e: "EndpointPolicy p app ep' = (def, p')" by (cases "EndpointPolicy p app ep'")
  note ok = EndpointPolicy_ok [OF 2(2) e]
  have keep: "map_of (cbCache (policies p' ! i)) ep = Some cb
      \<and> apBreakers (policies p' ! i) = apBreakers (policies p ! i)
      \<and> apTargets (policies p' ! i) = apTargets (policies p ! i)"
  proof (cases "\<exists>j names. papps p app = Some j \<and> apTargets (policies p ! j) app = Some names")
    case False
    then show ?thesis using e 2(4) by (auto simp: EndpointPolicy_def split: option.splits)
  next
    case True
    then obtain j names where j: "papps p app = Some j" "apTargets (policies p ! j) app = Some names" by blast
    obtain d ap hs where bd: "buildDefinition (policies p ! j) (heap p) ep' names = (d, ap, hs)"
      by (cases "buildDefinition (policies p ! j) (heap p) ep' names")
    then have "policies p' = (policies p)[j := ap]" using e j by (auto simp: EndpointPolicy_def)
    then show ?thesis using 2(3,4) buildDefinition_keeps [OF _ bd] by (cases "j = i") auto
  qed
  have "i < length (policies p')" using ok 2(3) by simp
  from 2(1) [unfolded e snd_conv, OF conjunct1 [OF ok] this] keep ok show ?case by (simp add: e)
qed simp

text \<open>
  Breaker state survives across policy lookups: once a lookup of an app's endpoint has put its breaker
  into the cache, every later lookup of that endpoint by an app of the same configuration (not only the
  same app) returns that very breaker, whatever lookups happen in between.
\<close>

theorem EndpointPolicy_stable:
  assumes "provider_ok p" "papps p app' = Some i" "map_of (cbCache (policies p ! i)) ep = Some cb"
    and "apTargets (policies p ! i) app' = Some names"
    and "apBreakers (policies p ! i) (nCircuitBreaker names) \<noteq> None"
  shows "\<exists>def. fst (EndpointPolicy (lookups p qs) app' ep) = Some def \<and> pCircuitBreaker def = Some cb"
proof -
  have "i < length (policies p)" using assms(1,2) by (auto simp: provider_ok_def)
  note k = lookups_keep [OF assms(1) this assms(3), of qs]
  obtain tpl where tpl: "apBreakers (policies p ! i) (nCircuitBreaker names) = Some tpl"
    using assms(5) by auto
  have "endpointBreaker (policies (lookups p qs) ! i) hs ep tpl = (cb, policies (lookups p qs) ! i, hs)" for hs
    using k by (simp add: endpointBreaker_def)
  then show ?thesis using k tpl assms(2,4)
    by (simp add: EndpointPolicy_def buildDefinition_def Let_def split: option.splits)
qed

text \<open>A configuration with two apps whose breakers have different settings.\<close>

definition two_apps :: provider where
  "two_apps = \<lparr>
     papps = [''shop'' \<mapsto> 0, ''cart'' \<mapsto> 0],
     policies = [\<lparr>apTimeouts = Map.empty, apRetries = Map.empty,
        apBreakers = [''slow'' \<mapsto> \<lparr>btMaxRequests = 1, btTimeout = 60\<rparr>, ''fast'' \<mapsto> \<lparr>btMaxRequests = 9, btTimeout = 1\<rparr>],
        apTargets = [''shop'' \<mapsto> \<lparr>nTimeout = [], nRetry = [], nCircuitBreaker = ''slow'', nCircuitBreakerCacheSize = 0\<rparr>,
                     ''cart'' \<mapsto> \<lparr>nTimeout = [], nRetry = [], nCircuitBreaker = ''fast'', nCircuitBreakerCacheSize = 0\<rparr>],
        cbCache = [(''/get'', 0)], cbMax = 1\<rparr>],
     heap = [newBreaker \<lparr>omaxRequests = 1, otimeout = 60\<rparr>]\<rparr>"

theorem EndpointPolicy_stable_witness:
  "\<exists>def. fst (EndpointPolicy (lookups two_apps [(''shop'', ''/put''), (''shop'', ''/get'')]) ''cart'' ''/get'') = Some def
     \<and> pCircuitBreaker def = Some 0"
proof (rule EndpointPolicy_stable)
  show "provider_ok two_apps" by (simp add: two_apps_def provider_ok_def cache_ok_def)
  show "papps two_apps ''cart'' = Some 0" by (simp add: two_apps_def)
  show "map_of (cbCache (policies two_apps ! 0)) ''/get'' = Some 0" by (simp add: two_apps_def)
  show "apTargets (policies two_apps ! 0) ''cart'' =
      Some \<lparr>nTimeout = [], nRetry = [], nCircuitBreaker = ''fast'', nCircuitBreakerCacheSize = 0\<rparr>"
    by (simp add: two_apps_def)
  show "apBreakers (policies two_apps ! 0)
      (nCircuitBreaker \<lparr>nTimeout = [], nRetry = [], nCircuitBreaker = ''fast'', nCircuitBreakerCacheSize = 0\<rparr>) \<noteq> None"
    by (simp add: two_apps_def)
qed

text \<open>
  When the cache is full, a lookup of an endpoint that is not in it returns a breaker that no earlier
  lookup returned, in its initial closed state, and does not remember it: breaker state does not survive
  the next lookup of such an endpoint, so it can never open across calls that look their policy up.
\<close>

theorem EndpointPolicy_cache_full:
  assumes "papps p app = Some i" "apTargets (policies p ! i) app = Some names"
    and "apBreakers (policies p ! i) (nCircuitBreaker names) = Some tpl"
    and "map_of (cbCache (policies p ! i)) ep = None"
    and "int (length (cbCache (policies p ! i))) \<ge> cbMax (policies p ! i)"
  shows "let (def, p') = EndpointPolicy p app ep in
     def \<noteq> None \<and> pCircuitBreaker (the def) = Some (length (heap p))
     \<and> heap p' = heap p @ [newBreaker \<lparr>omaxRequests = btMaxRequests tpl, otimeout = btTimeout tpl\<rparr>]
     \<and> policies p' = policies p"
  using assms
  by (simp add: EndpointPolicy_def buildDefinition_def endpointBreaker_def Let_def case_prod_unfold)

theorem EndpointPolicy_cache_full_witness:
  "let (def, p') = EndpointPolicy two_apps ''shop'' ''/put'' in
     def \<noteq> None \<and> pCircuitBreaker (the def) = Some (length (heap two_apps))
     \<and> heap p' = heap two_apps @ [newBreaker \<lparr>omaxRequests = 1, otimeout = 60\<rparr>]
     \<and> policies p' = policies two_apps"
  using EndpointPolicy_cache_full [of two_apps "''shop''" 0
      "\<lparr>nTimeout = [], nRetry = [], nCircuitBreaker = ''slow'', nCircuitBreakerCacheSize = 0\<rparr>"
      "\<lparr>btMaxRequests = 1, btTimeout = 60\<rparr>" "''/put''"]
  by (simp add: two_apps_def)

text \<open>A provider built from configurations has empty caches and only valid pointers.\<close>

lemma foldl_apps_index:
  "(foldl (\<lambda>m (app, _). m(app \<mapsto> i)) m xs) a = Some j \<Longrightarrow> j = i \<or> m a = Some j"
proof (induction xs arbitrary: m)
  case (Cons x xs)
  from Cons.IH [of "m(fst x \<mapsto> i)"] Cons.prems show ?case
    by (auto simp: case_prod_unfold split: if_splits)
qed simp

lemma build_targets_cache [simp]: "cbCache (build_targets apps ap) = cbCache ap"
  unfolding build_targets_def
  by (induction apps arbitrary: ap) (auto simp: Let_def split: prod.splits)

lemma buildAppPolicies_cache:
  "buildAppPolicies PD Code SC cfg = Inr ap \<Longrightarrow> cbCache ap = []"
  by (auto simp: buildAppPolicies_def split: sum.splits)

lemma add_configurations_ok:
  assumes "add_configurations build cfgs p = Inr p'" "provider_ok p"
    and "\<And>cfg ap. build cfg = Inr ap \<Longrightarrow> cbCache ap = []"
  shows "provider_ok p'"
  using assms
proof (induction build cfgs p rule: add_configurations.induct)
  case (3 build cfg cfgs p)
  from 3(2) obtain ap where ap: "build cfg = Inr ap" by (auto split: sum.splits)
  let ?i = "length (policies p)"
  let ?apps = "foldl (\<lambda>m (app, _). m(app \<mapsto> ?i)) (papps p) (Apps cfg)"
  let ?apps' = "if rName cfg \<noteq> [] then ?apps(rName cfg \<mapsto> ?i) else ?apps"
  have "j \<le> ?i" if "?apps' a = Some j" for a j
    using that foldl_apps_index [of ?i "papps p" "Apps cfg" a j] 3(3)
    by (auto simp: provider_ok_def split: if_splits) (metis less_or_eq_imp_le)+
  then have "provider_ok (p\<lparr>papps := ?apps', policies := policies p @ [ap]\<rparr>)"
    using 3(3) 3(4) [OF ap] by (auto simp: provider_ok_def cache_ok_def less_Suc_eq_le)
  with 3(1) [OF ap refl refl refl] 3(2,4) ap show ?case by (simp add: Let_def)
qed auto

lemma FromConfigurations_ok:
  "FromConfigurations PD Code SC cfgs = Inr p \<Longrightarrow> provider_ok p"
  unfolding FromConfigurations_def
  by (erule add_configurations_ok) (auto simp: provider_ok_def dest: buildAppPolicies_cache)

end
