(* ===== verification/Buckets.thy ===== *)
theory Buckets
  imports Prelude
begin

text \<open>
  \<open>pkg/ratelimit\<close>, the local limiters: the token bucket and the leaky bucket of \<open>limiter.go\<close> and the
  ticker-refilled limiter of \<open>qps.go\<close>. The contract of a token bucket is the locale \<open>token_bucket\<close>, in
  which the rate guarantee is proved once; the limiter here and the in-process store of the theory
  \<open>RateStore\<close> are instances. Each locked operation is one step and takes its clock reading as argument.
\<close>

definition Seconds :: "duration \<Rightarrow> float64" where
  "Seconds d = of_int d / of_int Second"

section \<open>The contract of a token bucket\<close>

text \<open>
  \<open>level s t\<close> is the number of tokens a request at time \<open>t\<close> finds; \<open>valid s t\<close> says that \<open>s\<close> was last
  used no later than \<open>t\<close>. The bucket gains \<open>rate\<close> tokens per unit of time up to \<open>cap\<close>.
\<close>

locale token_bucket =
  fixes take_n :: "'s \<Rightarrow> int \<Rightarrow> 'n \<Rightarrow> bool \<times> 's"
    and amount :: "'n \<Rightarrow> rat"
    and level :: "'s \<Rightarrow> int \<Rightarrow> rat"
    and valid :: "'s \<Rightarrow> int \<Rightarrow> bool"
    and rate cap :: rat
  assumes valid_later: "valid s t \<Longrightarrow> t \<le> t' \<Longrightarrow> valid s t'"
    and level_range: "valid s t \<Longrightarrow> 0 \<le> level s t \<and> level s t \<le> cap"
    and level_later: "valid s t \<Longrightarrow> t \<le> t' \<Longrightarrow> level s t' = min cap (level s t + of_int (t' - t) * rate)"
    and take_valid: "valid s t \<Longrightarrow> 0 \<le> amount n \<Longrightarrow> valid (snd (take_n s t n)) t"
    and take_granted: "valid s t \<Longrightarrow> 0 \<le> amount n \<Longrightarrow> fst (take_n s t n) \<longleftrightarrow> amount n \<le> level s t"
    and take_level: "valid s t \<Longrightarrow> 0 \<le> amount n \<Longrightarrow>
      level (snd (take_n s t n)) t = level s t - (if amount n \<le> level s t then amount n else 0)"
begin

text \<open>A run of requests, each at a time and for an \<open>amount\<close> of tokens: the tokens granted in all.\<close>

fun takes :: "'s \<Rightarrow> (int \<times> 'n) list \<Rightarrow> rat \<times> 's" where
  "takes s [] = (0, s)"
| "takes s ((t, n) # rs) =
     (let (ok, s') = take_n s t n; (g, s'') = takes s' rs in ((if ok then amount n else 0) + g, s''))"

lemma granted_bound:
  assumes "valid s t0" "sorted (t0 # map fst rs)" "\<forall>r \<in> set rs. 0 \<le> amount (snd r)" "0 \<le> rate"
  shows "fst (takes s rs) \<le> level s t0 + of_int (last (t0 # map fst rs) - t0) * rate"
  using assms
proof (induction rs arbitrary: s t0)
  case Nil
  then show ?case using level_range [of s t0] by simp
next
  case (Cons r rs)
  obtain t n where r: "r = (t, n)" by (cases r)
  have t: "t0 \<le> t" "sorted (t # map fst rs)" and n: "0 \<le> amount n" using Cons.prems r by auto
  have v: "valid s t" using valid_later Cons.prems(1) t(1) by blast
  let ?s = "snd (take_n s t n)"
  have ih: "fst (takes ?s rs) \<le> level ?s t + of_int (last (t # map fst rs) - t) * rate"
    using Cons.prems r t by (intro Cons.IH take_valid [OF v n]) auto
  have "fst (takes s (r # rs)) = (if amount n \<le> level s t then amount n else 0) + fst (takes ?s rs)"
    using take_granted [OF v n] by (simp add: r case_prod_unfold Let_def)
  also have "\<dots> \<le> level s t + of_int (last (t # map fst rs) - t) * rate"
    using ih take_level [OF v n] by simp
  also have "\<dots> \<le> (level s t0 + of_int (t - t0) * rate) + of_int (last (t # map fst rs) - t) * rate"
    using level_later [OF Cons.prems(1) t(1)] by simp
  also have "\<dots> = level s t0 + of_int (last (t # map fst rs) - t0) * rate"
    by (simp add: left_diff_distrib)
  finally show ?case by (simp add: r)
qed

text \<open>A request is granted once enough time has passed since any valid point.\<close>

lemma eventually_granted:
  assumes "valid s t0" "t0 \<le> t" "0 \<le> amount n" "amount n \<le> cap" "amount n \<le> of_int (t - t0) * rate"
  shows "fst (take_n s t n)"
  using take_granted [OF valid_later [OF assms(1,2)] assms(3)] level_later [OF assms(1,2)]
    level_range [OF assms(1)] assms(4,5) by auto

end

section \<open>Token bucket\<close>

record TokenBucket =
  tb_rate :: float64
  tb_burst :: float64
  tb_tokens :: float64
  tb_last :: time

definition NewTokenBucket :: "float64 \<Rightarrow> int \<Rightarrow> time \<Rightarrow> TokenBucket" where
  "NewTokenBucket rate burst now =
     \<lparr>tb_rate = rate, tb_burst = of_int burst, tb_tokens = of_int burst, tb_last = now\<rparr>"

definition allowN :: "TokenBucket \<Rightarrow> time \<Rightarrow> float64 \<Rightarrow> bool \<times> TokenBucket" where
  "allowN b now n =
     (let b = b\<lparr>tb_tokens := tb_tokens b + Seconds (now - tb_last b) * tb_rate b\<rparr>;
          b = (if tb_tokens b > tb_burst b then b\<lparr>tb_tokens := tb_burst b\<rparr> else b);
          b = b\<lparr>tb_last := now\<rparr>
      in if tb_tokens b < n then (False, b) else (True, b\<lparr>tb_tokens := tb_tokens b - n\<rparr>))"

definition TokenBucket_Allow :: "TokenBucket \<Rightarrow> time \<Rightarrow> bool \<times> TokenBucket" where
  "TokenBucket_Allow b now = allowN b now 1"

definition tb_level :: "TokenBucket \<Rightarrow> time \<Rightarrow> float64" where
  "tb_level b t = min (tb_burst b) (tb_tokens b + Seconds (t - tb_last b) * tb_rate b)"

definition tb_valid :: "float64 \<Rightarrow> float64 \<Rightarrow> TokenBucket \<Rightarrow> time \<Rightarrow> bool" where
  "tb_valid rate burst b t \<longleftrightarrow> tb_rate b = rate \<and> tb_burst b = burst \<and> tb_last b \<le> t
     \<and> 0 \<le> rate \<and> 0 \<le> tb_tokens b \<and> tb_tokens b \<le> burst"

lemma Second_pos: "0 < Second" by (simp add: Second_def)

lemma Seconds_add: "Seconds (a + b) = Seconds a + Seconds b"
  by (simp add: Seconds_def add_divide_distrib)

lemma Seconds_nonneg: "0 \<le> a \<Longrightarrow> 0 \<le> Seconds a"
  using Second_pos by (simp add: Seconds_def)

text \<open>A level that was cut at the burst and then grows is the level grown first and cut afterwards.\<close>

lemma refill_min:
  assumes "0 \<le> (d2::rat)"
  shows "min b (x + (d1 + d2)) = min b (min b (x + d1) + d2)"
  using assms by (auto simp: min_def)

lemma tb_level_later:
  assumes "tb_valid rate burst b t" "t \<le> t'"
  shows "tb_level b t' = min burst (tb_level b t + of_int (t' - t) * (rate / of_int Second))"
proof -
  have "Seconds (t' - tb_last b) = Seconds (t - tb_last b) + Seconds (t' - t)"
    using Seconds_add [of "t - tb_last b" "t' - t"] by simp
  then have e: "Seconds (t' - tb_last b) * rate = Seconds (t - tb_last b) * rate + Seconds (t' - t) * rate"
    by (simp add: distrib_right)
  have "0 \<le> Seconds (t' - t) * rate" using assms Seconds_nonneg [of "t' - t"] by (simp add: tb_valid_def)
  from refill_min [OF this, of burst "tb_tokens b" "Seconds (t - tb_last b) * rate"]
  have "tb_level b t' = min burst (tb_level b t + Seconds (t' - t) * rate)"
    using assms by (simp add: tb_level_def tb_valid_def e)
  then show ?thesis by (simp add: Seconds_def)
qed

lemma allowN_level:
  "allowN b now n = (let l = tb_level b now in
     if l < n then (False, b\<lparr>tb_tokens := l, tb_last := now\<rparr>)
     else (True, b\<lparr>tb_tokens := l - n, tb_last := now\<rparr>))"
  by (cases b) (simp add: allowN_def tb_level_def Let_def min_def not_less)

lemma tb_level_range:
  assumes "tb_valid rate burst b t"
  shows "0 \<le> tb_level b t \<and> tb_level b t \<le> burst"
proof -
  have "0 \<le> Seconds (t - tb_last b) * rate"
    using assms Seconds_nonneg [of "t - tb_last b"] by (simp add: tb_valid_def)
  then show ?thesis using assms by (auto simp: tb_level_def tb_valid_def)
qed

interpretation tb: token_bucket allowN "\<lambda>x. x" tb_level "tb_valid rate burst" "rate / of_int Second" burst
  for rate burst
proof (unfold_locales, goal_cases)
  case (1 s t t') then show ?case by (simp add: tb_valid_def)
next
  case (2 s t) then show ?case by (rule tb_level_range)
next
  case (3 s t t') then show ?case by (rule tb_level_later)
next
  case (4 s t n)
  then show ?case using tb_level_range [OF 4(1)] by (auto simp: allowN_level Let_def tb_valid_def)
next
  case (5 s t n) then show ?case by (simp add: allowN_level Let_def not_less)
next
  case (6 s t n)
  then show ?case using tb_level_range [OF 6(1)]
    by (auto simp: allowN_level Let_def tb_level_def tb_valid_def Seconds_def)
qed

text \<open>
  C9. Rate guarantee of the token bucket: whatever single-token requests arrive, in whatever pattern, the
  number of requests that a bucket of \<open>burst\<close> tokens and \<open>rate\<close> tokens per second admits between its creation
  and the last request is at most \<open>burst\<close> plus \<open>rate\<close> times the seconds that passed.
\<close>

theorem TokenBucket_rate_bound:
  assumes "0 \<le> rate" "0 \<le> burst" "sorted (t0 # ts)"
  shows "fst (tb.takes (NewTokenBucket rate burst t0) (map (\<lambda>t. (t, 1)) ts))
    \<le> of_int burst + Seconds (last (t0 # ts) - t0) * rate"
proof -
  let ?b = "NewTokenBucket rate burst t0"
  have v: "tb_valid rate (of_int burst) ?b t0" using assms by (simp add: tb_valid_def NewTokenBucket_def)
  have r: "0 \<le> rate / of_int Second" using assms(1) Second_pos by simp
  have m: "map fst (map (\<lambda>t. (t, 1::rat)) ts) = ts" by (induction ts) auto
  have "fst (tb.takes ?b (map (\<lambda>t. (t, 1)) ts))
      \<le> tb_level ?b t0 + of_int (last (t0 # ts) - t0) * (rate / of_int Second)"
    using tb.granted_bound [OF v, of "map (\<lambda>t. (t, 1)) ts"] assms m r by (auto simp del: map_map)
  moreover have "tb_level ?b t0 = of_int burst" by (simp add: tb_level_def NewTokenBucket_def Seconds_def)
  ultimately show ?thesis by (simp add: Seconds_def)
qed

theorem TokenBucket_rate_bound_witness:
  "fst (tb.takes (NewTokenBucket 1 2 0) (map (\<lambda>t. (t, 1)) [0, 0, 0, Second])) \<le> 2 + Seconds Second * 1"
  using TokenBucket_rate_bound [of 1 2 0 "[0, 0, 0, Second]"] by (simp add: Second_def)

lemma tb_valid_takes:
  "tb_valid rate burst b t0 \<Longrightarrow> sorted (t0 # map fst rs) \<Longrightarrow> \<forall>r \<in> set rs. 0 \<le> snd r \<Longrightarrow>
     tb_valid rate burst (snd (tb.takes b rs)) (last (t0 # map fst rs))"
proof (induction rs arbitrary: b t0)
  case (Cons r rs)
  obtain t n where r: "r = (t, n)" by (cases r)
  have "tb_valid rate burst (snd (allowN b t n)) t"
    using Cons.prems r by (intro tb.take_valid) (auto simp: tb_valid_def)
  then have "tb_valid rate burst (snd (tb.takes (snd (allowN b t n)) rs)) (last (t # map fst rs))"
    using Cons.prems r by (intro Cons.IH) auto
  then show ?case by (simp add: r case_prod_unfold Let_def)
qed simp

text \<open>
  No starvation: on a bucket reached from a new one by any requests, a request for one token is
  admitted if at least \<open>1 / rate\<close> seconds have passed since the last request (and the burst is at least one).
\<close>

theorem TokenBucket_no_starvation:
  assumes "0 \<le> rate" "1 \<le> burst" "sorted (t0 # ts)"
    and "last (t0 # ts) \<le> now" "1 \<le> Seconds (now - last (t0 # ts)) * rate"
  shows "fst (TokenBucket_Allow (snd (tb.takes (NewTokenBucket rate burst t0) (map (\<lambda>t. (t, 1)) ts))) now)"
proof -
  have "tb_valid rate (of_int burst) (NewTokenBucket rate burst t0) t0"
    using assms by (simp add: tb_valid_def NewTokenBucket_def)
  moreover have "map fst (map (\<lambda>t. (t, 1::rat)) ts) = ts" by (induction ts) auto
  ultimately have "tb_valid rate (of_int burst)
      (snd (tb.takes (NewTokenBucket rate burst t0) (map (\<lambda>t. (t, 1)) ts))) (last (t0 # ts))"
    using tb_valid_takes [of rate "of_int burst" "NewTokenBucket rate burst t0" t0 "map (\<lambda>t. (t, 1)) ts"]
      assms(3) by (auto simp del: map_map)
  then show ?thesis unfolding TokenBucket_Allow_def
    by (rule tb.eventually_granted) (use assms in \<open>simp_all add: Seconds_def\<close>)
qed

theorem TokenBucket_no_starvation_witness:
  "fst (TokenBucket_Allow (snd (tb.takes (NewTokenBucket 1 2 0) (map (\<lambda>t. (t, 1)) [0, 0, 0]))) Second)"
  using TokenBucket_no_starvation [of 1 2 0 "[0, 0, 0]" Second] by (simp add: Second_def Seconds_def)

section \<open>Leaky bucket\<close>

record LeakyBucket =
  lb_capacity :: int
  lb_interval :: duration
  lb_water :: int
  lb_last :: time

definition NewLeakyBucket :: "int \<Rightarrow> duration \<Rightarrow> time \<Rightarrow> LeakyBucket" where
  "NewLeakyBucket capacity interval now =
     \<lparr>lb_capacity = capacity, lb_interval = interval, lb_water = 0, lb_last = now\<rparr>"

definition LeakyBucket_leak :: "LeakyBucket \<Rightarrow> time \<Rightarrow> LeakyBucket" where
  "LeakyBucket_leak b now =
     (if lb_interval b > 0 then
        (let leaked = (now - lb_last b) sdiv lb_interval b
         in if leaked > 0 then
              (let b = b\<lparr>lb_water := lb_water b - leaked\<rparr>;
                   b = (if lb_water b < 0 then b\<lparr>lb_water := 0\<rparr> else b)
               in b\<lparr>lb_last := now\<rparr>)
            else b)
      else b)"

definition LeakyBucket_Allow :: "LeakyBucket \<Rightarrow> time \<Rightarrow> bool \<times> LeakyBucket" where
  "LeakyBucket_Allow b now =
     (let b = LeakyBucket_leak b now
      in if lb_water b \<ge> lb_capacity b then (False, b) else (True, b\<lparr>lb_water := lb_water b + 1\<rparr>))"

fun leaky_run :: "LeakyBucket \<Rightarrow> time list \<Rightarrow> nat \<times> LeakyBucket" where
  "leaky_run b [] = (0, b)"
| "leaky_run b (t # ts) =
     (let (ok, b) = LeakyBucket_Allow b t; (g, b) = leaky_run b ts in ((if ok then 1 else 0) + g, b))"

definition leaky_ok :: "LeakyBucket \<Rightarrow> time \<Rightarrow> bool" where
  "leaky_ok b t \<longleftrightarrow> 0 < lb_interval b \<and> 0 \<le> lb_water b \<and> lb_water b \<le> lb_capacity b \<and> lb_last b \<le> t"

text \<open>The free room in units of time: what an idle bucket would have earned since \<open>lb_last\<close> included.\<close>

definition leaky_credit :: "LeakyBucket \<Rightarrow> time \<Rightarrow> int" where
  "leaky_credit b t = (lb_capacity b - lb_water b) * lb_interval b + (t - lb_last b)"

lemma leak_step:
  assumes "leaky_ok b t"
  shows "leaky_ok (LeakyBucket_leak b t) t" "leaky_credit (LeakyBucket_leak b t) t \<le> leaky_credit b t"
    "lb_interval (LeakyBucket_leak b t) = lb_interval b" "lb_capacity (LeakyBucket_leak b t) = lb_capacity b"
proof -
  let ?k = "(t - lb_last b) div lb_interval b"
  have k: "0 \<le> ?k" "?k * lb_interval b \<le> t - lb_last b"
    using assms by (auto simp: leaky_ok_def pos_imp_zdiv_nonneg_iff int_le_div_iff [symmetric])
  have c1: "(lb_capacity b - (lb_water b - ?k)) * lb_interval b \<le> leaky_credit b t"
    using k(2) by (simp add: leaky_credit_def algebra_simps)
  have c2: "lb_capacity b * lb_interval b \<le> leaky_credit b t" if "lb_water b < ?k"
  proof -
    have "lb_capacity b * lb_interval b \<le> (lb_capacity b - (lb_water b - ?k)) * lb_interval b"
      using that assms by (intro mult_right_mono) (auto simp: leaky_ok_def)
    with c1 show ?thesis by linarith
  qed
  have "LeakyBucket_leak b t =
      (if ?k > 0 then b\<lparr>lb_water := max 0 (lb_water b - ?k), lb_last := t\<rparr> else b)"
    using assms by (cases b) (simp add: LeakyBucket_leak_def leaky_ok_def Let_def max_def)
  moreover have "leaky_credit (b\<lparr>lb_water := max 0 (lb_water b - ?k), lb_last := t\<rparr>) t \<le> leaky_credit b t"
    using c1 c2 by (cases "lb_water b < ?k") (simp_all add: leaky_credit_def max_def)
  ultimately show "leaky_credit (LeakyBucket_leak b t) t \<le> leaky_credit b t" by simp
  show "leaky_ok (LeakyBucket_leak b t) t"
    using assms k(1) by (auto simp: LeakyBucket_leak_def leaky_ok_def Let_def)
  show "lb_interval (LeakyBucket_leak b t) = lb_interval b" "lb_capacity (LeakyBucket_leak b t) = lb_capacity b"
    by (simp_all add: LeakyBucket_leak_def Let_def)
qed

lemma leaky_allow_step:
  assumes "leaky_ok b t" "LeakyBucket_Allow b t = (ok, b')"
  shows "leaky_ok b' t" "lb_interval b' = lb_interval b" "lb_capacity b' = lb_capacity b"
    "leaky_credit b' t \<le> leaky_credit b t - (if ok then lb_interval b else 0)"
proof -
  note l = leak_step [OF assms(1)]
  show "leaky_ok b' t" "lb_interval b' = lb_interval b" "lb_capacity b' = lb_capacity b"
    using assms(2) l by (auto simp: LeakyBucket_Allow_def Let_def leaky_ok_def split: if_splits)
  show "leaky_credit b' t \<le> leaky_credit b t - (if ok then lb_interval b else 0)"
    using assms(2) l by (auto simp: LeakyBucket_Allow_def Let_def leaky_credit_def algebra_simps split: if_splits)
qed

lemma leaky_run_credit:
  assumes "leaky_ok b t0" "sorted (t0 # ts)"
  shows "int (fst (leaky_run b ts)) * lb_interval b \<le> leaky_credit b t0 + (last (t0 # ts) - t0)"
  using assms
proof (induction ts arbitrary: b t0)
  case Nil
  then show ?case by (simp add: leaky_ok_def leaky_credit_def)
next
  case (Cons t ts)
  have ok: "leaky_ok b t" using Cons.prems by (simp add: leaky_ok_def)
  obtain a b' where ab: "LeakyBucket_Allow b t = (a, b')" by (cases "LeakyBucket_Allow b t")
  note st = leaky_allow_step [OF ok ab]
  have "int (fst (leaky_run b' ts)) * lb_interval b' \<le> leaky_credit b' t + (last (t # ts) - t)"
    using Cons.prems st(1) by (intro Cons.IH) auto
  moreover have "leaky_credit b t = leaky_credit b t0 + (t - t0)" by (simp add: leaky_credit_def)
  ultimately show ?case using st(2,4) by (auto simp: ab case_prod_unfold Let_def algebra_simps)
qed

text \<open>
  Rate guarantee of the leaky bucket: between its creation and the last request it admits at most
  \<open>capacity\<close> requests plus one per full interval that passed.
\<close>

theorem LeakyBucket_rate_bound:
  assumes "0 \<le> capacity" "0 < interval" "sorted (t0 # ts)"
  shows "int (fst (leaky_run (NewLeakyBucket capacity interval t0) ts))
    \<le> capacity + (last (t0 # ts) - t0) div interval"
proof -
  let ?b = "NewLeakyBucket capacity interval t0"
  have ok: "leaky_ok ?b t0" using assms by (simp add: leaky_ok_def NewLeakyBucket_def)
  have "(int (fst (leaky_run ?b ts)) - capacity) * interval \<le> last (t0 # ts) - t0"
    using leaky_run_credit [OF ok assms(3)]
    by (simp add: leaky_credit_def NewLeakyBucket_def left_diff_distrib)
  then have "int (fst (leaky_run ?b ts)) - capacity \<le> (last (t0 # ts) - t0) div interval"
    using assms(2) by (simp only: int_le_div_iff)
  then show ?thesis by simp
qed

theorem LeakyBucket_rate_bound_witness:
  "int (fst (leaky_run (NewLeakyBucket 2 10 0) [0, 0, 0, 25])) \<le> 2 + (25 - 0) div 10"
  using LeakyBucket_rate_bound [of 2 10 0 "[0, 0, 0, 25]"] by simp

text \<open>The bucket forgets the part of an interval that has passed when it leaks: polled every 19 units, a
  bucket of interval 10 leaks one request per 19 units.\<close>

lemma leaky_forgets_remainder:
  "map (\<lambda>k. fst (LeakyBucket_Allow (snd (leaky_run (NewLeakyBucket 1 10 0) (take k [0, 19, 28, 38]))) ([0, 19, 28, 38] ! k)))
     [0, 1, 2, 3] = [True, True, False, True]"
  by (simp add: NewLeakyBucket_def LeakyBucket_Allow_def LeakyBucket_leak_def numeral_eq_Suc Let_def)

section \<open>The ticker-refilled limiter\<close>

text \<open>
  The two counters are \<open>atomic.Int32\<close>. Every atomic operation is a step of its own: \<open>loaded\<close> holds the
  values that the \<open>Acquire\<close> calls now between their load and their compare-and-swap have read, and
  \<open>tick\<close> the value the refill goroutine has loaded and not yet stored. \<open>granted\<close> counts the successful
  acquisitions since the last refill and \<open>refilled\<close> is the value of that refill.
\<close>

record qpsLimiter =
  qinterval :: duration
  maxAllows :: int
  curAllows :: int
  qstopped :: bool

definition NewQPSLimiter :: "duration \<Rightarrow> int \<Rightarrow> qpsLimiter go" where
  "NewQPSLimiter interval limit =
     (if interval \<le> 0 then Inl (Panic ''non-positive interval for NewTicker'')
      else Inr \<lparr>qinterval = interval, maxAllows = int32 limit, curAllows = int32 limit, qstopped = False\<rparr>)"

definition qps_close :: "qpsLimiter \<Rightarrow> qpsLimiter" where
  "qps_close l = l\<lparr>qstopped := True\<rparr>"

definition qps_Status :: "qpsLimiter \<Rightarrow> int \<times> int \<times> duration" where
  "qps_Status l = (maxAllows l, curAllows l, qinterval l)"

definition UpdateLimit :: "qpsLimiter \<Rightarrow> int \<Rightarrow> qpsLimiter" where
  "UpdateLimit l limit = (if limit > 0 then l\<lparr>maxAllows := int32 limit\<rparr> else l)"

definition CompareAndSwap :: "qpsLimiter \<Rightarrow> int \<Rightarrow> int \<Rightarrow> bool \<times> qpsLimiter" where
  "CompareAndSwap l old new = (if curAllows l = old then (True, l\<lparr>curAllows := new\<rparr>) else (False, l))"

text \<open>\<open>Acquire\<close> when no other call interferes: the swap succeeds at the first attempt.\<close>

definition qps_Acquire :: "bool \<Rightarrow> qpsLimiter \<Rightarrow> bool \<times> qpsLimiter" where
  "qps_Acquire ctxDone l =
     (if ctxDone then (False, l)
      else let cur = curAllows l
           in if cur \<le> 0 then (False, l) else CompareAndSwap l cur (int32 (cur - 1)))"

record qps_sys =
  qlim :: qpsLimiter
  loaded :: "int list"
  tick :: "int option"
  granted :: int
  refilled :: int

text \<open>The steps of \<open>Acquire\<close> (load and test, then swap; a failed swap loads again), of \<open>run\<close>, and of \<open>UpdateLimit\<close>.\<close>

inductive qps_step :: "qps_sys \<Rightarrow> qps_sys \<Rightarrow> bool" where
  load_empty: "curAllows (qlim s) \<le> 0 \<Longrightarrow> qps_step s s"
| load: "curAllows (qlim s) > 0 \<Longrightarrow> qps_step s (s\<lparr>loaded := curAllows (qlim s) # loaded s\<rparr>)"
| swap: "loaded s = as @ cur # bs \<Longrightarrow> CompareAndSwap (qlim s) cur (int32 (cur - 1)) = (True, l) \<Longrightarrow>
    qps_step s (s\<lparr>qlim := l, loaded := as @ bs, granted := granted s + 1\<rparr>)"
| swap_failed: "loaded s = as @ cur # bs \<Longrightarrow> CompareAndSwap (qlim s) cur (int32 (cur - 1)) = (False, l) \<Longrightarrow>
    qps_step s (s\<lparr>loaded := as @ bs\<rparr>)"
| tick_load: "\<not> qstopped (qlim s) \<Longrightarrow> tick s = None \<Longrightarrow> qps_step s (s\<lparr>tick := Some (maxAllows (qlim s))\<rparr>)"
| tick_store: "tick s = Some v \<Longrightarrow>
    qps_step s (s\<lparr>qlim := (qlim s)\<lparr>curAllows := v\<rparr>, tick := None, granted := 0, refilled := v\<rparr>)"
| update: "qps_step s (s\<lparr>qlim := UpdateLimit (qlim s) limit\<rparr>)"
| stop: "qps_step s (s\<lparr>qlim := qps_close (qlim s)\<rparr>)"

inductive qps_reach :: "qps_sys \<Rightarrow> qps_sys \<Rightarrow> bool" for s0 where
  qps_init: "qps_reach s0 s0"
| qps_more: "qps_reach s0 s \<Longrightarrow> qps_step s s' \<Longrightarrow> qps_reach s0 s'"

definition qps_start :: "qpsLimiter \<Rightarrow> qps_sys" where
  "qps_start l = \<lparr>qlim = l, loaded = [], tick = None, granted = 0, refilled = curAllows l\<rparr>"

definition qps_inv :: "qps_sys \<Rightarrow> bool" where
  "qps_inv s \<longleftrightarrow> curAllows (qlim s) = refilled s - granted s \<and> 0 \<le> granted s
     \<and> (0 < granted s \<longrightarrow> 0 \<le> curAllows (qlim s)) \<and> (\<forall>v \<in> set (loaded s). 0 < v \<and> v < 2 ^ 31)
     \<and> curAllows (qlim s) < 2 ^ 31 \<and> maxAllows (qlim s) < 2 ^ 31 \<and> (\<forall>v. tick s = Some v \<longrightarrow> v < 2 ^ 31)"

lemma int32_less: "int32 x < 2 ^ 31"
  using pos_mod_bound [of "2 ^ 32" "x + 2 ^ 31"] by (simp add: int32_def)

lemma qps_inv_step:
  assumes "qps_step s s'" "qps_inv s"
  shows "qps_inv s'"
  using assms
proof (induction rule: qps_step.induct)
  case (swap s as cur bs l)
  then have "0 < cur" "cur < 2 ^ 31" "curAllows (qlim s) = cur" "l = (qlim s)\<lparr>curAllows := int32 (cur - 1)\<rparr>"
    by (auto simp: qps_inv_def CompareAndSwap_def split: if_splits)
  moreover from this have "int32 (cur - 1) = cur - 1" by (intro int32_id) auto
  ultimately show ?case using swap by (auto simp: qps_inv_def)
next
  case (update s limit)
  then show ?case using int32_less [of limit] by (auto simp: qps_inv_def UpdateLimit_def)
next
  case (load s)
  then show ?case by (auto simp: qps_inv_def)
next
  case (tick_load s)
  then show ?case by (auto simp: qps_inv_def)
qed (auto simp: qps_inv_def qps_close_def)

lemma qps_inv_reach: "qps_reach s0 s \<Longrightarrow> qps_inv s0 \<Longrightarrow> qps_inv s"
  by (induction rule: qps_reach.induct) (auto dest: qps_inv_step)

text \<open>
  C10. In every interleaving of the load and compare-and-swap steps of concurrent \<open>Acquire\<close> calls, of the
  refill goroutine and of hot updates, at most as many requests are admitted between two refills as the
  last refill stored, and exactly the missing tokens were handed out.
\<close>

theorem qps_no_overgrant:
  assumes "NewQPSLimiter interval limit = Inr l" "qps_reach (qps_start l) s"
  shows "granted s \<le> max 0 (refilled s) \<and> curAllows (qlim s) = refilled s - granted s"
proof -
  have "qps_inv (qps_start l)" using assms(1) int32_less [of limit]
    by (auto simp: qps_inv_def qps_start_def NewQPSLimiter_def split: if_splits)
  with assms(2) have "qps_inv s" by (rule qps_inv_reach)
  then show ?thesis by (cases "0 < granted s") (auto simp: qps_inv_def)
qed

definition qps_one :: qpsLimiter where
  "qps_one = \<lparr>qinterval = 1, maxAllows = 1, curAllows = 1, qstopped = False\<rparr>"

theorem qps_no_overgrant_witness:
  "granted \<lparr>qlim = qps_one\<lparr>curAllows := 0\<rparr>, loaded = [1], tick = None, granted = 1, refilled = 1\<rparr> \<le> 1"
proof -
  have new: "NewQPSLimiter 1 1 = Inr qps_one" by (simp add: NewQPSLimiter_def qps_one_def int32_id)
  let ?s1 = "(qps_start qps_one)\<lparr>loaded := curAllows qps_one # []\<rparr>"
  let ?s2 = "?s1\<lparr>loaded := curAllows qps_one # loaded ?s1\<rparr>"
  let ?s3 = "?s2\<lparr>qlim := qps_one\<lparr>curAllows := 0\<rparr>, loaded := [] @ [1], granted := granted ?s2 + 1\<rparr>"
  have "qps_step (qps_start qps_one) ?s1"
    using qps_step.load [of "qps_start qps_one"] by (simp add: qps_start_def qps_one_def)
  moreover have "qps_step ?s1 ?s2" using qps_step.load [of ?s1] by (simp add: qps_start_def qps_one_def)
  moreover have "qps_step ?s2 ?s3"
    by (rule qps_step.swap [where cur = 1])
       (simp_all add: CompareAndSwap_def qps_start_def qps_one_def int32_id)
  ultimately have "qps_reach (qps_start qps_one) ?s3" by (meson qps_reach.intros)
  from qps_no_overgrant [OF new this] show ?thesis by (simp add: qps_start_def qps_one_def)
qed

text \<open>A hot update above the 32-bit range turns the limit negative: the guard only tests the argument.\<close>

lemma UpdateLimit_wraps: "maxAllows (UpdateLimit l (2 ^ 31)) < 0"
  by (simp add: UpdateLimit_def int32_def)

end
