(* ===== verification/RateStore.thy ===== *)
theory RateStore
  imports Buckets GoStrings Errno
begin

text \<open>
  \<open>pkg/ratelimit\<close>, the limiters behind a \<open>Store\<close>: the in-process store (\<open>store/memory\<close>), the period
  limiter (\<open>periodlimit.go\<close>) and the token limiter with its local fallback (\<open>tokenlimit.go\<close>). The store's
  bucket operation is an instance of the locale \<open>token_bucket\<close>, its window counter of \<open>window_store\<close>. The
  key lifetime of the Redis store is modelled as the Go function that computes it; the fallback limiter
  \<open>golang.org/x/time/rate\<close> is a parameter.
\<close>

section \<open>The in-process store\<close>

definition cleanupInterval :: duration where "cleanupInterval = Minute"

record mbucket =
  mb_rate :: float64
  mb_burst :: float64
  mb_tokens :: float64
  mb_last :: time

record windowEntry =
  wcount :: int
  wexpires :: time

record store =
  buckets_of :: "string \<rightharpoonup> mbucket"
  windows_of :: "string \<rightharpoonup> windowEntry"
  lastCleanup :: time

definition store_New :: "time \<Rightarrow> store" where
  "store_New now = \<lparr>buckets_of = Map.empty, windows_of = Map.empty, lastCleanup = now\<rparr>"

definition refill :: "mbucket \<Rightarrow> time \<Rightarrow> mbucket" where
  "refill b now =
     (let elapsed = Seconds (now - mb_last b);
          b = b\<lparr>mb_tokens := mb_tokens b + elapsed * mb_rate b\<rparr>;
          b = (if mb_tokens b > mb_burst b then b\<lparr>mb_tokens := mb_burst b\<rparr> else b)
      in b\<lparr>mb_last := now\<rparr>)"

text \<open>The sweep: the two loops delete the entries that satisfy their condition.\<close>

definition map_delete_if :: "('v \<Rightarrow> bool) \<Rightarrow> ('k \<rightharpoonup> 'v) \<Rightarrow> ('k \<rightharpoonup> 'v)" where
  "map_delete_if p m = (\<lambda>k. case m k of None \<Rightarrow> None | Some v \<Rightarrow> if p v then None else Some v)"

definition cleanupLocked :: "store \<Rightarrow> time \<Rightarrow> store" where
  "cleanupLocked s now =
     (if now - lastCleanup s < cleanupInterval then s
      else s\<lparr>lastCleanup := now,
             windows_of := map_delete_if (\<lambda>w. \<not> wexpires w > now) (windows_of s),
             buckets_of := map_delete_if (\<lambda>b. mb_rate b > 0 \<and> Seconds (now - mb_last b) \<ge> mb_burst b / mb_rate b)
                             (buckets_of s)\<rparr>)"

definition TakeTokens :: "store \<Rightarrow> string \<Rightarrow> int \<Rightarrow> int \<Rightarrow> int \<Rightarrow> time \<Rightarrow> bool \<times> store" where
  "TakeTokens s key rate burst n now =
     (let s = cleanupLocked s now;
          b = (case buckets_of s key of
                 Some b \<Rightarrow> b
               | None \<Rightarrow> \<lparr>mb_rate = of_int rate, mb_burst = of_int burst, mb_tokens = of_int burst, mb_last = now\<rparr>);
          b = refill b now
      in if mb_tokens b < of_int n then (False, s\<lparr>buckets_of := (buckets_of s)(key \<mapsto> b)\<rparr>)
         else (True, s\<lparr>buckets_of := (buckets_of s)(key \<mapsto> b\<lparr>mb_tokens := mb_tokens b - of_int n\<rparr>)\<rparr>))"

definition IncrWindow :: "store \<Rightarrow> string \<Rightarrow> duration \<Rightarrow> time \<Rightarrow> int \<times> store" where
  "IncrWindow s key window now =
     (let s = cleanupLocked s now;
          w = (case windows_of s key of
                 Some w \<Rightarrow> if \<not> wexpires w > now then \<lparr>wcount = 0, wexpires = now + window\<rparr> else w
               | None \<Rightarrow> \<lparr>wcount = 0, wexpires = now + window\<rparr>);
          w = w\<lparr>wcount := wcount w + 1\<rparr>
      in (wcount w, s\<lparr>windows_of := (windows_of s)(key \<mapsto> w)\<rparr>))"

section \<open>The store's buckets\<close>

definition mb_level :: "mbucket \<Rightarrow> time \<Rightarrow> float64" where
  "mb_level b t = min (mb_burst b) (mb_tokens b + Seconds (t - mb_last b) * mb_rate b)"

definition store_level :: "string \<Rightarrow> float64 \<Rightarrow> store \<Rightarrow> time \<Rightarrow> float64" where
  "store_level key burst s t = (case buckets_of s key of None \<Rightarrow> burst | Some b \<Rightarrow> mb_level b t)"

definition mb_ok :: "int \<Rightarrow> int \<Rightarrow> mbucket \<Rightarrow> time \<Rightarrow> bool" where
  "mb_ok rate burst b t \<longleftrightarrow> mb_rate b = of_int rate \<and> mb_burst b = of_int burst \<and> mb_last b \<le> t
     \<and> 0 \<le> mb_tokens b \<and> mb_tokens b \<le> of_int burst"

definition store_valid :: "string \<Rightarrow> int \<Rightarrow> int \<Rightarrow> store \<Rightarrow> time \<Rightarrow> bool" where
  "store_valid key rate burst s t \<longleftrightarrow> 0 \<le> rate \<and> 0 \<le> burst
     \<and> (case buckets_of s key of None \<Rightarrow> True | Some b \<Rightarrow> mb_ok rate burst b t)"

lemma refill_level: "refill b now = b\<lparr>mb_tokens := mb_level b now, mb_last := now\<rparr>"
  by (cases b) (simp add: refill_def mb_level_def Let_def min_def not_less)

lemma mb_level_range:
  assumes "mb_ok rate burst b t" "0 \<le> rate"
  shows "0 \<le> mb_level b t" "mb_level b t \<le> of_int burst"
proof -
  have "0 \<le> Seconds (t - mb_last b) * of_int rate"
    using assms Seconds_nonneg [of "t - mb_last b"] by (simp add: mb_ok_def)
  then show "0 \<le> mb_level b t" "mb_level b t \<le> of_int burst"
    using assms by (auto simp: mb_level_def mb_ok_def)
qed

text \<open>The comment of \<open>cleanupLocked\<close>: a bucket that the sweep deletes is full, like a fresh one.\<close>

lemma swept_bucket_full:
  assumes "mb_ok rate burst b now" "mb_rate b > 0" "Seconds (now - mb_last b) \<ge> mb_burst b / mb_rate b"
  shows "mb_level b now = of_int burst"
proof -
  have "mb_burst b \<le> Seconds (now - mb_last b) * mb_rate b"
    using assms(2,3) by (simp add: pos_divide_le_eq)
  then show ?thesis using assms(1) by (simp add: mb_level_def mb_ok_def)
qed

lemma cleanup_level:
  assumes "store_valid key rate burst s now"
  shows "store_level key (of_int burst) (cleanupLocked s now) now = store_level key (of_int burst) s now"
    "store_valid key rate burst (cleanupLocked s now) now"
proof -
  have "store_level key (of_int burst) (cleanupLocked s now) now = store_level key (of_int burst) s now
      \<and> store_valid key rate burst (cleanupLocked s now) now"
  proof (cases "buckets_of s key")
    case (Some b)
    then have "mb_ok rate burst b now" using assms by (simp add: store_valid_def)
    from swept_bucket_full [OF this] show ?thesis using Some assms
      by (auto simp: cleanupLocked_def store_level_def store_valid_def map_delete_if_def)
  qed (use assms in \<open>auto simp: cleanupLocked_def store_level_def store_valid_def map_delete_if_def\<close>)
  then show "store_level key (of_int burst) (cleanupLocked s now) now = store_level key (of_int burst) s now"
    "store_valid key rate burst (cleanupLocked s now) now" by simp_all
qed

text \<open>\<open>TakeTokens\<close> in terms of the level.\<close>

lemma TakeTokens_level:
  assumes "store_valid key rate burst s now"
  shows "\<exists>b s'. mb_rate b = of_int rate \<and> mb_burst b = of_int burst \<and> mb_last b = now
     \<and> (let l = store_level key (of_int burst) s now; ok = (of_int n \<le> l) in
        TakeTokens s key rate burst n now = (ok, s') \<and> buckets_of s' key = Some b
        \<and> mb_tokens b = l - (if ok then of_int n else 0))"
proof -
  let ?s = "cleanupLocked s now"
  note c = cleanup_level [OF assms]
  define b0 where "b0 = (case buckets_of ?s key of Some b \<Rightarrow> b
     | None \<Rightarrow> \<lparr>mb_rate = of_int rate, mb_burst = of_int burst, mb_tokens = of_int burst, mb_last = now\<rparr>)"
  have b0: "mb_rate b0 = of_int rate" "mb_burst b0 = of_int burst"
      "mb_level b0 now = store_level key (of_int burst) s now"
    using c assms
    by (auto simp: b0_def store_level_def store_valid_def mb_ok_def mb_level_def Seconds_def split: option.splits)
  let ?l = "store_level key (of_int burst) s now"
  let ?b = "b0\<lparr>mb_tokens := ?l - (if of_int n \<le> ?l then of_int n else 0), mb_last := now\<rparr>"
  have "TakeTokens s key rate burst n now =
      (of_int n \<le> ?l, ?s\<lparr>buckets_of := (buckets_of ?s)(key \<mapsto> ?b)\<rparr>)"
    unfolding TakeTokens_def Let_def b0_def [symmetric] refill_level b0(3)
    by (cases b0) (simp add: not_less)
  then show ?thesis using b0
    by (intro exI [of _ ?b] exI [of _ "?s\<lparr>buckets_of := (buckets_of ?s)(key \<mapsto> ?b)\<rparr>"]) (simp add: Let_def)
qed

lemma store_level_later:
  assumes "store_valid key rate burst s t" "t \<le> t'"
  shows "store_level key (of_int burst) s t' =
    min (of_int burst) (store_level key (of_int burst) s t + of_int (t' - t) * (of_int rate / of_int Second))"
proof -
  have pos: "0 \<le> Seconds (t' - t) * of_int rate"
    using assms Seconds_nonneg [of "t' - t"] by (simp add: store_valid_def)
  show ?thesis
  proof (cases "buckets_of s key")
    case None
    then show ?thesis using pos by (simp add: store_level_def Seconds_def)
  next
    case (Some b)
    then have b: "mb_ok rate burst b t" using assms by (simp add: store_valid_def)
    have "Seconds (t' - mb_last b) = Seconds (t - mb_last b) + Seconds (t' - t)"
      using Seconds_add [of "t - mb_last b" "t' - t"] by simp
    then have e: "Seconds (t' - mb_last b) * of_int rate =
        Seconds (t - mb_last b) * of_int rate + Seconds (t' - t) * of_int rate" by (simp add: distrib_right)
    from refill_min [OF pos, of "of_int burst" "mb_tokens b" "Seconds (t - mb_last b) * of_int rate"]
    have "mb_level b t' = min (of_int burst) (mb_level b t + Seconds (t' - t) * of_int rate)"
      using b by (simp add: mb_level_def mb_ok_def e)
    then show ?thesis using Some by (simp add: store_level_def Seconds_def)
  qed
qed

lemma store_level_range:
  "store_valid key rate burst s t \<Longrightarrow>
     0 \<le> store_level key (of_int burst) s t \<and> store_level key (of_int burst) s t \<le> of_int burst"
  using mb_level_range [of rate burst _ t]
  by (auto simp: store_valid_def store_level_def split: option.splits)

interpretation mem: token_bucket "\<lambda>s t n. TakeTokens s key rate burst n t" of_int
    "store_level key (of_int burst)" "store_valid key rate burst" "of_int rate / of_int Second" "of_int burst"
  for key rate burst
proof (unfold_locales, goal_cases)
  case (1 s t t')
  then show ?case by (auto simp: store_valid_def mb_ok_def split: option.splits)
next
  case (2 s t) then show ?case by (rule store_level_range)
next
  case (3 s t t') then show ?case by (rule store_level_later)
next
  case (4 s t n)
  from TakeTokens_level [OF 4(1), of n] store_level_range [OF 4(1)] 4 show ?case
    by (auto simp: Let_def store_valid_def mb_ok_def)
next
  case (5 s t n)
  from TakeTokens_level [OF 5(1), of n] show ?case by (auto simp: Let_def)
next
  case (6 s t n)
  from TakeTokens_level [OF 6(1), of n] store_level_range [OF 6(1)] 6(2) show ?case
    by (auto simp: Let_def store_level_def mb_level_def Seconds_def)
qed

text \<open>Requests on other keys and on windows do not change what a key's bucket holds.\<close>

lemma TakeTokens_frame:
  assumes "store_valid key rate burst s now" "key' \<noteq> key"
  shows "store_level key (of_int burst) (snd (TakeTokens s key' rate' burst' n now)) now
      = store_level key (of_int burst) s now
    \<and> store_valid key rate burst (snd (TakeTokens s key' rate' burst' n now)) now"
  using cleanup_level [OF assms(1)] assms(2)
  by (auto simp: TakeTokens_def Let_def store_level_def store_valid_def)

lemma IncrWindow_frame:
  assumes "store_valid key rate burst s now"
  shows "store_level key (of_int burst) (snd (IncrWindow s key' w now)) now = store_level key (of_int burst) s now
    \<and> store_valid key rate burst (snd (IncrWindow s key' w now)) now"
  using cleanup_level [OF assms]
  by (auto simp: IncrWindow_def Let_def store_level_def store_valid_def)

section \<open>Mixed traffic on the store\<close>

datatype store_call = Tokens string int int int | Window string duration

text \<open>The tokens that a run of calls grants to \<open>key\<close>.\<close>

fun tokens_granted :: "string \<Rightarrow> store \<Rightarrow> (time \<times> store_call) list \<Rightarrow> float64" where
  "tokens_granted key s [] = 0"
| "tokens_granted key s ((now, Tokens k rate burst n) # cs) =
     (let (ok, s') = TakeTokens s k rate burst n now
      in (if ok \<and> k = key then of_int n else 0) + tokens_granted key s' cs)"
| "tokens_granted key s ((now, Window k w) # cs) = tokens_granted key (snd (IncrWindow s k w now)) cs"

definition calls_on :: "string \<Rightarrow> int \<Rightarrow> int \<Rightarrow> store_call \<Rightarrow> bool" where
  "calls_on key rate burst c \<longleftrightarrow>
     (case c of Tokens k r b n \<Rightarrow> k = key \<longrightarrow> r = rate \<and> b = burst \<and> 0 \<le> n | Window k w \<Rightarrow> True)"

lemma tokens_granted_bound:
  assumes "store_valid key rate burst s t0" "sorted (t0 # map fst cs)"
    and "\<forall>c \<in> set cs. calls_on key rate burst (snd c)"
  shows "tokens_granted key s cs
    \<le> store_level key (of_int burst) s t0 + Seconds (last (t0 # map fst cs) - t0) * of_int rate"
  using assms
proof (induction cs arbitrary: s t0)
  case Nil
  then show ?case using store_level_range [of key rate burst s t0] by (simp add: Seconds_def)
next
  case (Cons c cs)
  obtain t call where c: "c = (t, call)" by (cases c)
  have t: "t0 \<le> t" and srt: "sorted (t # map fst cs)" using Cons.prems c by auto
  have v: "store_valid key rate burst s t" using mem.valid_later Cons.prems(1) t by blast
  have l: "store_level key (of_int burst) s t \<le> store_level key (of_int burst) s t0 + Seconds (t - t0) * of_int rate"
    using store_level_later [OF Cons.prems(1) t] by (simp add: Seconds_def)
  have sp: "Seconds (last (t # map fst cs) - t0) * rat_of_int rate =
      Seconds (t - t0) * of_int rate + Seconds (last (t # map fst cs) - t) * of_int rate"
    using Seconds_add [of "t - t0" "last (t # map fst cs) - t"] by (simp add: distrib_right)
  have step: "\<exists>s' g. store_valid key rate burst s' t \<and> tokens_granted key s (c # cs) = g + tokens_granted key s' cs
      \<and> g + store_level key (of_int burst) s' t \<le> store_level key (of_int burst) s t"
  proof (cases call)
    case (Tokens k r b n)
    let ?s = "snd (TakeTokens s k r b n t)"
    show ?thesis
    proof (cases "k = key")
      case True
      then have k: "r = rate" "b = burst" "0 \<le> n" using Cons.prems(3) c Tokens by (auto simp: calls_on_def)
      have n: "0 \<le> rat_of_int n" using k by simp
      show ?thesis
        using mem.take_valid [OF v n] mem.take_granted [OF v n] mem.take_level [OF v n]
        by (intro exI [of _ ?s] exI [of _ "if of_int n \<le> store_level key (of_int burst) s t then of_int n else 0"])
           (simp add: c Tokens True k case_prod_unfold Let_def)
    next
      case False
      then show ?thesis using TakeTokens_frame [OF v False]
        by (intro exI [of _ ?s] exI [of _ 0]) (simp add: c Tokens case_prod_unfold Let_def)
    qed
  next
    case (Window k w)
    then show ?thesis using IncrWindow_frame [OF v]
      by (intro exI [of _ "snd (IncrWindow s k w t)"] exI [of _ 0]) (simp add: c)
  qed
  then obtain s' g where s': "store_valid key rate burst s' t"
      "tokens_granted key s (c # cs) = g + tokens_granted key s' cs"
      "g + store_level key (of_int burst) s' t \<le> store_level key (of_int burst) s t" by blast
  have "tokens_granted key s' cs \<le> store_level key (of_int burst) s' t + Seconds (last (t # map fst cs) - t) * of_int rate"
    using Cons.prems s'(1) srt by (intro Cons.IH) auto
  with s' l sp show ?case by (simp add: c)
qed

text \<open>
  C11. Rate guarantee of the shared in-process store: whatever calls, on whatever keys and windows, reach a
  new store, the tokens it grants to a key with \<open>rate\<close> and \<open>burst\<close> up to the last call are at most \<open>burst\<close>
  plus \<open>rate\<close> times the seconds that passed. In particular the periodic sweep of idle buckets, which
  forgets their state, never lets a client exceed its rate.
\<close>

theorem store_rate_bound:
  assumes "0 \<le> rate" "0 \<le> burst" "sorted (t0 # map fst cs)"
    and "\<forall>c \<in> set cs. calls_on key rate burst (snd c)"
  shows "tokens_granted key (store_New t0) cs
    \<le> of_int burst + Seconds (last (t0 # map fst cs) - t0) * of_int rate"
proof -
  have "store_valid key rate burst (store_New t0) t0" using assms by (simp add: store_valid_def store_New_def)
  from tokens_granted_bound [OF this assms(3,4)] show ?thesis by (simp add: store_level_def store_New_def)
qed

theorem store_rate_bound_witness:
  "tokens_granted ''a'' (store_New 0)
     [(0, Tokens ''a'' 1 2 2), (0, Tokens ''b'' 7 7 7), (0, Window ''w'' 5), (Minute, Tokens ''a'' 1 2 2)]
   \<le> of_int 2 + Seconds (last (0 # map fst [(0, Tokens ''a'' 1 2 2), (0, Tokens ''b'' 7 7 7), (0, Window ''w'' 5),
        (Minute, Tokens ''a'' 1 2 2)]) - 0) * of_int 1"
  by (rule store_rate_bound) (simp_all add: calls_on_def Minute_def)

section \<open>The contract of a window counter\<close>

text \<open>\<open>live s k t\<close> is the count and the expiry of the window of \<open>k\<close> that is open at time \<open>t\<close>.\<close>

locale window_store =
  fixes incr :: "'s \<Rightarrow> string \<Rightarrow> duration \<Rightarrow> time \<Rightarrow> int \<times> 's"
    and live :: "'s \<Rightarrow> string \<Rightarrow> time \<Rightarrow> (int \<times> time) option"
  assumes live_later: "t \<le> t' \<Longrightarrow>
      live s k t' = (case live s k t of None \<Rightarrow> None | Some (c, e) \<Rightarrow> if t' < e then Some (c, e) else None)"
    and incr_count: "fst (incr s k w t) = (case live s k t of None \<Rightarrow> 1 | Some (c, e) \<Rightarrow> c + 1)"
    and incr_live: "0 < w \<Longrightarrow> live (snd (incr s k w t)) k t =
      Some (case live s k t of None \<Rightarrow> (1, t + w) | Some (c, e) \<Rightarrow> (c + 1, e))"
    and incr_other: "k' \<noteq> k \<Longrightarrow> live (snd (incr s k w t)) k' t = live s k' t"
begin

text \<open>The counts returned by a run of increments at given times.\<close>

fun incrs :: "'s \<Rightarrow> duration \<Rightarrow> (time \<times> string) list \<Rightarrow> int list" where
  "incrs s w [] = []"
| "incrs s w ((t, k) # rs) = (let (c, s) = incr s k w t in c # incrs s w rs)"

lemma incrs_length: "length (incrs s w rs) = length rs"
  by (induction rs arbitrary: s) (auto simp: case_prod_unfold Let_def)

text \<open>Inside one window the calls on a key are numbered in order, whatever happens on other keys.\<close>

lemma incrs_numbered:
  assumes "live s k t0 = Some (c, e)" "sorted (t0 # map fst rs)" "last (t0 # map fst rs) < e" "0 < w"
    and "i < length rs" "snd (rs ! i) = k"
  shows "incrs s w rs ! i = c + int (length (filter (\<lambda>r. snd r = k) (take (Suc i) rs)))"
  using assms
proof (induction rs arbitrary: s t0 c i)
  case (Cons r rs)
  obtain t kk where r: "r = (t, kk)" by (cases r)
  have t: "t0 \<le> t" and srt: "sorted (t # map fst rs)" using Cons.prems r by auto
  have te: "t < e"
  proof -
    have "t \<le> last (t # map fst rs)" using srt by (cases "rs = []") (auto simp: last_map)
    then show ?thesis using Cons.prems(3) r by simp
  qed
  have lt: "live s k t = Some (c, e)" using live_later [OF t, of s k] Cons.prems(1) te by simp
  let ?s = "snd (incr s kk w t)"
  let ?c = "c + (if kk = k then 1 else 0)"
  have lk: "live ?s k t = Some (?c, e)"
    using lt incr_live [OF Cons.prems(4), of s kk t] incr_other [of k kk s w t] by (cases "kk = k") auto
  show ?case
  proof (cases i)
    case 0
    then show ?thesis using Cons.prems(6) r lt by (simp add: incr_count case_prod_unfold Let_def)
  next
    case (Suc j)
    then have "incrs ?s w rs ! j = ?c + int (length (filter (\<lambda>r. snd r = k) (take (Suc j) rs)))"
      using Cons.prems r srt by (intro Cons.IH [OF lk]) auto
    then show ?thesis using Suc r by (simp add: case_prod_unfold Let_def)
  qed
qed simp

end

definition mem_live :: "store \<Rightarrow> string \<Rightarrow> time \<Rightarrow> (int \<times> time) option" where
  "mem_live s k t = (case windows_of s k of None \<Rightarrow> None
     | Some w \<Rightarrow> if wexpires w > t then Some (wcount w, wexpires w) else None)"

lemma mem_live_cleanup: "mem_live (cleanupLocked s t) k t = mem_live s k t"
  by (auto simp: mem_live_def cleanupLocked_def map_delete_if_def split: option.splits)

interpretation memw: window_store IncrWindow mem_live
proof (unfold_locales, goal_cases)
  case (1 t t' s k)
  then show ?case by (auto simp: mem_live_def split: option.splits)
next
  case (2 s k w t)
  show ?case unfolding mem_live_cleanup [symmetric, of s k t]
    by (auto simp: IncrWindow_def mem_live_def Let_def split: option.splits)
next
  case (3 w s k t)
  then show ?case unfolding mem_live_cleanup [symmetric, of s k t]
    by (auto simp: IncrWindow_def mem_live_def Let_def split: option.splits)
next
  case (4 k' k s w t)
  then show ?case unfolding mem_live_cleanup [symmetric, of s k' t]
    by (simp add: IncrWindow_def mem_live_def Let_def)
qed

section \<open>Period limiter\<close>

datatype period_code = Unknown | Allowed | HitQuota | OverQuota

record PeriodLimit =
  period :: duration
  quota :: int
  keyPrefix :: string
  align :: bool

definition NewPeriodLimit :: "duration \<Rightarrow> int \<Rightarrow> string \<Rightarrow> bool \<Rightarrow> PeriodLimit" where
  "NewPeriodLimit p q prefix aligned = \<lparr>period = p, quota = q, keyPrefix = prefix, align = aligned\<rparr>"

text \<open>The key of a request; \<open>now\<close> counts from the Unix epoch, so \<open>Unix()\<close> is its whole seconds.\<close>

definition period_key :: "PeriodLimit \<Rightarrow> string \<Rightarrow> time \<Rightarrow> string" where
  "period_key l key now =
     (let k = keyPrefix l @ key
      in if align l then
           (let sec = float_to_int (Seconds (period l)); sec = (if sec < 1 then 1 else sec)
            in k @ '':'' @ Itoa ((now div Second) sdiv sec))
         else k)"

text \<open>\<open>TakeCtx\<close> over any store: \<open>incr\<close> returns the store's error or the count.\<close>

definition TakeCtx :: "('s \<Rightarrow> string \<Rightarrow> duration \<Rightarrow> time \<Rightarrow> (err + int) \<times> 's) \<Rightarrow> PeriodLimit \<Rightarrow> 's \<Rightarrow> string \<Rightarrow> time
    \<Rightarrow> (period_code \<times> err option) \<times> 's" where
  "TakeCtx incr l s key now =
     (case incr s (period_key l key now) (period l) now of
        (Inl e, s) \<Rightarrow> ((Unknown, Some e), s)
      | (Inr count, s) \<Rightarrow>
          ((if count > quota l then OverQuota else if count = quota l then HitQuota else Allowed, None), s))"

definition mem_incr :: "store \<Rightarrow> string \<Rightarrow> duration \<Rightarrow> time \<Rightarrow> (err + int) \<times> store" where
  "mem_incr s k w t = (let (c, s) = IncrWindow s k w t in (Inr c, s))"

fun period_run :: "PeriodLimit \<Rightarrow> store \<Rightarrow> (time \<times> string) list \<Rightarrow> period_code list" where
  "period_run l s [] = []"
| "period_run l s ((now, key) # rs) =
     (let (r, s) = TakeCtx mem_incr l s key now in fst r # period_run l s rs)"

definition code_of :: "int \<Rightarrow> int \<Rightarrow> period_code" where
  "code_of q count = (if count > q then OverQuota else if count = q then HitQuota else Allowed)"

lemma period_run_incrs:
  "\<not> align l \<Longrightarrow> period_run l s rs =
     map (code_of (quota l)) (memw.incrs s (period l) (map (\<lambda>(t, k). (t, keyPrefix l @ k)) rs))"
  by (induction l s rs rule: period_run.induct)
     (auto simp: TakeCtx_def mem_incr_def period_key_def code_of_def Let_def case_prod_unfold)

text \<open>
  A period limiter with a rolling window on the in-process store: for a key not seen before, the first
  request opens a window, and as long as the requests fall into it, the \<open>n\<close>-th request on that key is
  answered \<open>Allowed\<close> for \<open>n < quota\<close>, \<open>HitQuota\<close> for \<open>n = quota\<close> and \<open>OverQuota\<close> beyond, whatever requests
  on other keys come in between.
\<close>

theorem PeriodLimit_quota:
  assumes "\<not> align l" "0 < period l" "sorted (t0 # map fst rs)" "last (t0 # map fst rs) < t0 + period l"
    and "mem_live s (keyPrefix l @ key) t0 = None" "i < Suc (length rs)" "snd (((t0, key) # rs) ! i) = key"
  shows "period_run l s ((t0, key) # rs) ! i =
    code_of (quota l) (int (length (filter (\<lambda>r. snd r = key) (take (Suc i) ((t0, key) # rs)))))"
proof -
  let ?f = "\<lambda>(t, k). (t :: time, keyPrefix l @ k)"
  let ?s = "snd (IncrWindow s (keyPrefix l @ key) (period l) t0)"
  have first: "fst (IncrWindow s (keyPrefix l @ key) (period l) t0) = 1"
    using assms(5) memw.incr_count [of s "keyPrefix l @ key" "period l" t0] by simp
  have run: "period_run l s ((t0, key) # rs) =
      map (code_of (quota l)) (1 # memw.incrs ?s (period l) (map ?f rs))"
    using first by (simp add: period_run_incrs [OF assms(1)] case_prod_unfold Let_def del: period_run.simps)
  show ?thesis
  proof (cases i)
    case 0
    then show ?thesis unfolding run by simp
  next
    case (Suc j)
    have live: "mem_live ?s (keyPrefix l @ key) t0 = Some (1, t0 + period l)"
      using memw.incr_live [OF assms(2), of s "keyPrefix l @ key" t0] assms(5) by simp
    have fm: "map fst (map ?f rs) = map fst rs" by (induction rs) auto
    have cnt: "length (filter (\<lambda>r. snd r = keyPrefix l @ key) (take (Suc j) (map ?f rs))) =
        length (filter (\<lambda>r. snd r = key) (take (Suc j) rs))"
      by (simp add: take_map filter_map o_def case_prod_unfold)
    have "memw.incrs ?s (period l) (map ?f rs) ! j =
        1 + int (length (filter (\<lambda>r. snd r = keyPrefix l @ key) (take (Suc j) (map ?f rs))))"
      using assms Suc
      by (intro memw.incrs_numbered [OF live]) (simp_all only: fm, auto simp: case_prod_unfold)
    then show ?thesis using Suc assms(6) cnt unfolding run
      by (simp add: nth_map memw.incrs_length)
  qed
qed

theorem PeriodLimit_quota_witness:
  "period_run (NewPeriodLimit Minute 2 ''user:'' False) (store_New 0)
     ((0 :: time, ''alice'') # [(1, ''bob''), (2, ''alice''), (3, ''alice'')]) ! 3 = OverQuota"
proof -
  have "period_run (NewPeriodLimit Minute 2 ''user:'' False) (store_New 0)
      ((0 :: time, ''alice'') # [(1, ''bob''), (2, ''alice''), (3, ''alice'')]) ! 3 =
    code_of (quota (NewPeriodLimit Minute 2 ''user:'' False)) (int (length (filter (\<lambda>r. snd r = ''alice'')
      (take (Suc 3) ((0 :: time, ''alice'') # [(1, ''bob''), (2, ''alice''), (3, ''alice'')])))))"
    by (rule PeriodLimit_quota) (simp_all add: NewPeriodLimit_def Minute_def mem_live_def store_New_def)
  then show ?thesis by (simp add: code_of_def NewPeriodLimit_def)
qed

text \<open>A store error is reported as \<open>Unknown\<close> together with the error.\<close>

lemma TakeCtx_store_error:
  "incr s (period_key l key now) (period l) now = (Inl e, s') \<Longrightarrow>
     TakeCtx incr l s key now = ((Unknown, Some e), s')"
  by (simp add: TakeCtx_def)

text \<open>Aligned windows cut the period to whole seconds: with 1.5 seconds the key changes every second.\<close>

lemma aligned_period_truncates:
  "period_key (NewPeriodLimit (1500 * Millisecond) 1 [] True) ''k'' (4 * Second) \<noteq>
   period_key (NewPeriodLimit (1500 * Millisecond) 1 [] True) ''k'' (5 * Second)"
proof -
  have "float_to_int (Seconds (1500 * Millisecond)) = 1"
    by (simp add: float_to_int_def Seconds_def duration_units floor_unique)
  then show ?thesis
    by (simp add: period_key_def NewPeriodLimit_def Let_def Second_def Itoa_def Itoa_nat.simps digit_char_def)
qed

section \<open>Token limiter with a local fallback\<close>

definition probeInterval :: duration where "probeInterval = 100 * Millisecond"

record TokenLimiter =
  tl_rate :: int
  tl_burst :: int
  tl_key :: string
  alive :: bool
  monitorStarted :: bool
  tl_closed :: bool

definition NewTokenLimiter :: "int \<Rightarrow> int \<Rightarrow> string \<Rightarrow> TokenLimiter" where
  "NewTokenLimiter rate burst key =
     \<lparr>tl_rate = rate, tl_burst = burst, tl_key = key, alive = True, monitorStarted = False, tl_closed = False\<rparr>"

text \<open>
  \<open>markDown\<close> is two atomic parts: the swap of \<open>alive\<close>, which one of the callers wins, and the part under
  the mutex, which tells whether a monitor goroutine is started.
\<close>

definition markDown_swap :: "TokenLimiter \<Rightarrow> bool \<times> TokenLimiter" where
  "markDown_swap l = (if alive l then (True, l\<lparr>alive := False\<rparr>) else (False, l))"

definition markDown_start :: "TokenLimiter \<Rightarrow> bool \<times> TokenLimiter" where
  "markDown_start l = (if monitorStarted l then (False, l) else (True, l\<lparr>monitorStarted := True\<rparr>))"

definition markDown :: "TokenLimiter \<Rightarrow> bool \<times> TokenLimiter" where
  "markDown l = (case markDown_swap l of (False, l) \<Rightarrow> (False, l) | (True, l) \<Rightarrow> markDown_start l)"

text \<open>The two writes of the monitor after a successful ping, and \<open>Close\<close>.\<close>

definition monitor_clear :: "TokenLimiter \<Rightarrow> TokenLimiter" where
  "monitor_clear l = l\<lparr>monitorStarted := False\<rparr>"

definition monitor_revive :: "TokenLimiter \<Rightarrow> TokenLimiter" where
  "monitor_revive l = l\<lparr>alive := True\<rparr>"

definition TokenLimiter_Close :: "TokenLimiter \<Rightarrow> TokenLimiter" where
  "TokenLimiter_Close l = l\<lparr>tl_closed := True\<rparr>"

text \<open>
  One call of \<open>AllowContext\<close>: \<open>store_take\<close> is the store's operation with its error, \<open>rescue\<close> the local
  limiter. The second component tells whether a monitor was started.
\<close>

definition AllowContext :: "('s \<Rightarrow> string \<Rightarrow> int \<Rightarrow> int \<Rightarrow> int \<Rightarrow> time \<Rightarrow> (err + bool) \<times> 's) \<Rightarrow> ('r \<Rightarrow> time \<Rightarrow> int \<Rightarrow> bool \<times> 'r)
    \<Rightarrow> TokenLimiter \<Rightarrow> 's \<Rightarrow> 'r \<Rightarrow> int \<Rightarrow> time \<Rightarrow> bool \<times> bool \<times> TokenLimiter \<times> 's \<times> 'r" where
  "AllowContext store_take rescue l s r n now =
     (let local = (\<lambda>started l s. let (ok, r) = rescue r now n in (ok, started, l, s, r))
      in if alive l then
           (case store_take s (tl_key l) (tl_rate l) (tl_burst l) n now of
              (Inr ok, s) \<Rightarrow> (ok, False, l, s, r)
            | (Inl e, s) \<Rightarrow> (let (started, l) = markDown l in local started l s))
         else local False l s)"

text \<open>
  While the store answers, the token limiter decides exactly as the store does and leaves the local
  limiter alone; when the store fails, or is marked down, the decision is the local limiter's: a store
  outage never rejects a request by itself, and the limiter is then marked down.
\<close>

theorem AllowContext_fallback:
  assumes "store_take s (tl_key l) (tl_rate l) (tl_burst l) n now = (res, s')"
  shows "(case res of
      Inr ok \<Rightarrow> alive l \<longrightarrow> AllowContext store_take rescue l s r n now = (ok, False, l, s', r)
    | Inl e \<Rightarrow> (let (ok, started, l', s'', r') = AllowContext store_take rescue l s r n now
               in (ok, r') = rescue r now n \<and> \<not> alive l' \<and> s'' = (if alive l then s' else s)
                  \<and> (started \<longleftrightarrow> alive l \<and> \<not> monitorStarted l)))"
  using assms
  by (auto simp: AllowContext_def markDown_def markDown_swap_def markDown_start_def Let_def
      case_prod_unfold split: sum.splits)

theorem AllowContext_fallback_witness:
  "AllowContext (\<lambda>s k r b n t. (Inl ErrTimeout, s)) (\<lambda>r t n. (n \<le> r, r - n))
     (NewTokenLimiter 1 2 ''k'') () 2 1 0 =
   (True, True, (NewTokenLimiter 1 2 ''k'')\<lparr>alive := False, monitorStarted := True\<rparr>, (), 1)"
proof -
  let ?l = "NewTokenLimiter 1 2 ''k''"
  let ?take = "\<lambda>s k r b n t. (Inl ErrTimeout, s) :: (err + bool) \<times> unit"
  let ?r = "AllowContext ?take (\<lambda>r t n. (n \<le> r, r - n)) ?l () 2 1 0"
  have "let (ok, started, l', s'', r') = ?r in (ok, r') = (1 \<le> (2::int), 2 - 1) \<and> \<not> alive l'
      \<and> s'' = () \<and> (started \<longleftrightarrow> alive ?l \<and> \<not> monitorStarted ?l)"
    using AllowContext_fallback [of ?take "()" ?l 1 0 "Inl ErrTimeout" "()" "\<lambda>r t n. (n \<le> r, r - n)" 2]
    by simp
  then show ?thesis
    by (simp add: AllowContext_def NewTokenLimiter_def markDown_def markDown_swap_def markDown_start_def Let_def)
qed

subsection \<open>Going down and coming back\<close>

text \<open>
  The interleaving of callers and monitors. \<open>winners\<close> counts the callers that won the swap and have not
  yet taken the mutex; a monitor waits for its timer or has cleared \<open>monitorStarted\<close> after a good ping.
\<close>

datatype monitor_pc = Probing | Cleared

record limiter_sys =
  tlim :: TokenLimiter
  winners :: nat
  monitors :: "monitor_pc list"

inductive limiter_step :: "limiter_sys \<Rightarrow> limiter_sys \<Rightarrow> bool" where
  store_fails: "markDown_swap (tlim s) = (won, l) \<Longrightarrow>
    limiter_step s (s\<lparr>tlim := l, winners := winners s + (if won then 1 else 0)\<rparr>)"
| enter_mutex: "0 < winners s \<Longrightarrow> markDown_start (tlim s) = (start, l) \<Longrightarrow>
    limiter_step s (s\<lparr>tlim := l, winners := winners s - 1,
                      monitors := monitors s @ (if start then [Probing] else [])\<rparr>)"
| monitor_stopped: "tl_closed (tlim s) \<Longrightarrow> monitors s = as @ Probing # bs \<Longrightarrow>
    limiter_step s (s\<lparr>monitors := as @ bs\<rparr>)"
| ping_failed: "monitors s = as @ Probing # bs \<Longrightarrow> limiter_step s s"
| ping_ok: "monitors s = as @ Probing # bs \<Longrightarrow>
    limiter_step s (s\<lparr>tlim := monitor_clear (tlim s), monitors := as @ Cleared # bs\<rparr>)"
| revive: "monitors s = as @ Cleared # bs \<Longrightarrow>
    limiter_step s (s\<lparr>tlim := monitor_revive (tlim s), monitors := as @ bs\<rparr>)"
| close: "limiter_step s (s\<lparr>tlim := TokenLimiter_Close (tlim s)\<rparr>)"

inductive limiter_reach :: "limiter_sys \<Rightarrow> limiter_sys \<Rightarrow> bool" for s0 where
  limiter_init: "limiter_reach s0 s0"
| limiter_more: "limiter_reach s0 s \<Longrightarrow> limiter_step s s' \<Longrightarrow> limiter_reach s0 s'"

definition limiter_start :: "TokenLimiter \<Rightarrow> limiter_sys" where
  "limiter_start l = \<lparr>tlim = l, winners = 0, monitors = []\<rparr>"

definition limiter_inv :: "limiter_sys \<Rightarrow> bool" where
  "limiter_inv s \<longleftrightarrow>
     (alive (tlim s) \<and> winners s = 0 \<and> monitors s = [] \<and> \<not> monitorStarted (tlim s))
   \<or> (\<not> alive (tlim s) \<and> winners s = 1 \<and> monitors s = [] \<and> \<not> monitorStarted (tlim s))
   \<or> (\<not> alive (tlim s) \<and> winners s = 0 \<and> monitors s = [Probing] \<and> monitorStarted (tlim s))
   \<or> (\<not> alive (tlim s) \<and> winners s = 0 \<and> monitors s = [Cleared] \<and> \<not> monitorStarted (tlim s))
   \<or> (\<not> alive (tlim s) \<and> winners s = 0 \<and> monitors s = [] \<and> monitorStarted (tlim s) \<and> tl_closed (tlim s))"

lemma single_split:
  "[a] = as @ b # bs \<longleftrightarrow> as = [] \<and> bs = [] \<and> a = b"
  "as @ b # bs = [a] \<longleftrightarrow> as = [] \<and> bs = [] \<and> a = b"
  by (cases as; auto)+

lemma limiter_inv_step: "limiter_step s s' \<Longrightarrow> limiter_inv s \<Longrightarrow> limiter_inv s'"
  by (induction rule: limiter_step.induct)
     (auto simp: limiter_inv_def markDown_swap_def markDown_start_def monitor_clear_def monitor_revive_def
       TokenLimiter_Close_def single_split split: if_splits)

lemma limiter_inv_reach: "limiter_reach s0 s \<Longrightarrow> limiter_inv s0 \<Longrightarrow> limiter_inv s"
  by (induction rule: limiter_reach.induct) (auto dest: limiter_inv_step)

lemma limiter_recovers:
  assumes "limiter_inv s" "\<not> tl_closed (tlim s)"
  shows "\<exists>s'. limiter_reach s s' \<and> alive (tlim s')"
proof -
  have cleared: "\<exists>s'. limiter_step s s' \<and> alive (tlim s')" if "monitors s = [Cleared]" for s
    using limiter_step.revive [of s "[]" "[]"] that by (intro exI conjI) (auto simp: monitor_revive_def)
  have probing: "\<exists>s' s''. limiter_step s s' \<and> limiter_step s' s'' \<and> alive (tlim s'')"
    if "monitors s = [Probing]" for s
    using limiter_step.ping_ok [of s "[]" "[]"] cleared that by fastforce
  have won: "\<exists>s'. limiter_step s s' \<and> monitors s' = [Probing]"
    if "winners s = 1" "monitors s = []" "\<not> monitorStarted (tlim s)" for s
    using limiter_step.enter_mutex [of s True] that by (fastforce simp: markDown_start_def)
  from assms show ?thesis unfolding limiter_inv_def
    by (elim disjE) (meson limiter_reach.intros cleared probing won)+
qed

text \<open>
  In every interleaving of failing requests, monitors and \<open>Close\<close>: at most one recovery monitor exists,
  a limiter that is up has none, a limiter that is down and not closed has one running or about to be
  started, and so an answer of the store to its ping brings the limiter back: it is never left
  permanently degraded.
\<close>

theorem TokenLimiter_monitored:
  assumes "limiter_reach (limiter_start (NewTokenLimiter rate burst key)) s"
  shows "winners s + length (monitors s) \<le> 1
    \<and> (alive (tlim s) \<longrightarrow> winners s + length (monitors s) = 0)
    \<and> (\<not> alive (tlim s) \<and> \<not> tl_closed (tlim s) \<longrightarrow>
         winners s + length (monitors s) = 1 \<and> (\<exists>s'. limiter_reach s s' \<and> alive (tlim s')))"
proof -
  have "limiter_inv (limiter_start (NewTokenLimiter rate burst key))"
    by (simp add: limiter_inv_def limiter_start_def NewTokenLimiter_def)
  with assms have inv: "limiter_inv s" by (rule limiter_inv_reach)
  then show ?thesis using limiter_recovers [OF inv] by (auto simp: limiter_inv_def)
qed

theorem TokenLimiter_monitored_witness:
  "\<exists>s'. limiter_reach \<lparr>tlim = (NewTokenLimiter 1 1 ''k'')\<lparr>alive := False\<rparr>, winners = 1, monitors = []\<rparr> s'
     \<and> alive (tlim s')"
proof -
  let ?s = "limiter_start (NewTokenLimiter 1 1 ''k'')"
  let ?s' = "\<lparr>tlim = (NewTokenLimiter 1 1 ''k'')\<lparr>alive := False\<rparr>, winners = 1, monitors = []\<rparr>"
  have "limiter_step ?s ?s'"
    using limiter_step.store_fails [of ?s True "(NewTokenLimiter 1 1 ''k'')\<lparr>alive := False\<rparr>"]
    by (simp add: limiter_start_def NewTokenLimiter_def markDown_swap_def)
  then have "limiter_reach ?s ?s'" by (rule limiter_reach.limiter_more [OF limiter_reach.limiter_init])
  from TokenLimiter_monitored [OF this] show ?thesis by (simp add: NewTokenLimiter_def)
qed

section \<open>Key lifetime of the Redis store\<close>

definition tokenTTLMillis :: "int \<Rightarrow> int \<Rightarrow> int" where
  "tokenTTLMillis rate burst =
     (if rate \<le> 0 then Minute sdiv Millisecond
      else let fill = int64 (burst * (Second sdiv Millisecond)) sdiv rate;
               fill = (if fill < Second sdiv Millisecond then Second sdiv Millisecond else fill)
           in int64 (2 * fill))"

text \<open>
  The key of a bucket outlives its refill: for a positive rate and a burst below \<open>2^51\<close>, an idle key is
  dropped no earlier than the time a completely empty bucket needs to become full, so expiry never hands
  out tokens that the rate would not have produced, and never earlier than two seconds.
\<close>

theorem tokenTTL_covers_refill:
  assumes "0 < rate" "0 \<le> burst" "burst < 2 ^ 51"
  shows "burst * 1000 \<le> tokenTTLMillis rate burst * rate \<and> 2000 \<le> tokenTTLMillis rate burst"
proof -
  let ?f = "burst * 1000 div rate"
  have k: "(Second sdiv Millisecond) = 1000" by (simp add: duration_units)
  have f0: "0 \<le> ?f" using assms by (simp add: pos_imp_zdiv_nonneg_iff)
  have "?f * 1 \<le> ?f * rate" using f0 assms by (intro mult_left_mono) auto
  moreover have "?f * rate \<le> burst * 1000" using assms by (simp add: int_le_div_iff [symmetric])
  ultimately have f: "0 \<le> ?f" "?f \<le> burst * 1000" using f0 by linarith+
  have i: "int64 (burst * 1000) = burst * 1000" using assms by (intro int64_id) auto
  have "int64 (2 * max 1000 ?f) = 2 * max 1000 ?f" using f assms by (intro int64_id) auto
  then have t: "tokenTTLMillis rate burst = 2 * max 1000 ?f"
    using assms i f by (simp add: tokenTTLMillis_def k Let_def max_def split: if_splits)
  have "burst * 1000 < (?f + 1) * rate"
    using pos_mod_bound [OF assms(1), of "burst * 1000"] div_mult_mod_eq [of "burst * 1000" rate]
    unfolding distrib_right by linarith
  also have "\<dots> \<le> (2 * max 1000 ?f) * rate" using f assms by (intro mult_right_mono) auto
  finally show ?thesis using t by simp
qed

theorem tokenTTL_covers_refill_witness:
  "50 * 1000 \<le> tokenTTLMillis 10 50 * 10 \<and> 2000 \<le> tokenTTLMillis 10 50"
  using tokenTTL_covers_refill [of 10 50] by simp

end
