(* ===== verification/Selector.thy ===== *)
theory Selector
  imports SreBreaker
begin

text \<open>
  \<open>pkg/selector\<close>: nodes, the registry of strategies, the round-robin, random and weighted strategies and
  the decorator that skips nodes whose breaker has tripped. The contract that every strategy keeps is
  the locale \<open>selector\<close>; the decorator is proved against the contract, not against a strategy. Random
  numbers are arguments: \<open>rand.IntN n\<close> is a draw reduced modulo \<open>n\<close>, and a panic for \<open>n \<le> 0\<close>.
\<close>

section \<open>Nodes\<close>

record node =
  Address :: string
  Scheme :: string
  ServiceName :: string
  Weight :: int
  Metadata :: "string \<rightharpoonup> string"

definition NewNode :: "string \<Rightarrow> string \<Rightarrow> string \<Rightarrow> int \<Rightarrow> (string \<rightharpoonup> string) \<Rightarrow> node" where
  "NewNode address scheme serviceName weight metadata =
     \<lparr>Address = address, Scheme = scheme, ServiceName = serviceName, Weight = weight, Metadata = metadata\<rparr>"

definition IntN :: "nat \<Rightarrow> int \<Rightarrow> int go" where
  "IntN draw n = (if n \<le> 0 then Inl (Panic ''invalid argument to IntN'') else Inr (int draw mod n))"

text \<open>Indexing a slice: out of range is a panic.\<close>

definition index :: "'a list \<Rightarrow> int \<Rightarrow> 'a go" where
  "index xs i = (if 0 \<le> i \<and> i < int (length xs) then Inr (xs ! nat i) else Inl (Panic ''index out of range''))"

text \<open>The length of a Go slice is an \<open>int\<close>; the model's lists are not bounded by their type.\<close>

definition slice_ok :: "'a list \<Rightarrow> bool" where
  "slice_ok xs \<longleftrightarrow> length xs < 2 ^ 63"

lemma slice_ok_filter: "slice_ok xs \<Longrightarrow> slice_ok (filter P xs)"
  using length_filter_le [of P xs] unfolding slice_ok_def by linarith

section \<open>The contract\<close>

text \<open>
  A strategy with state \<open>'s\<close>; \<open>'e\<close> is what a call takes from outside (clock, random draws). On an empty
  candidate set it returns an error and on any other set one of the candidates, and it never panics.
\<close>

locale selector =
  fixes select :: "'s \<Rightarrow> 'e \<Rightarrow> node list \<Rightarrow> ((err + node) \<times> 's) go"
  assumes select_empty: "\<exists>e s'. select s x [] = Inr (Inl e, s')"
    and select_member: "nodes \<noteq> [] \<Longrightarrow> slice_ok nodes \<Longrightarrow> \<exists>n s'. select s x nodes = Inr (Inr n, s') \<and> n \<in> set nodes"
begin

text \<open>Filtering the candidates, with the full set when none is left, keeps the contract.\<close>

lemma select_filtered:
  assumes "cand = (if filter P nodes = [] then nodes else filter P nodes)" "nodes \<noteq> []" "slice_ok nodes"
  shows "\<exists>n s'. select s x cand = Inr (Inr n, s') \<and> n \<in> set nodes \<and> ((\<exists>m \<in> set nodes. P m) \<longrightarrow> P n)"
proof -
  have "cand \<noteq> []" "slice_ok cand" using assms slice_ok_filter [OF assms(3), of P] by simp_all
  from select_member [OF this, of s x] obtain n s' where n: "select s x cand = Inr (Inr n, s')" "n \<in> set cand"
    by blast
  then have "n \<in> set nodes \<and> ((\<exists>m \<in> set nodes. P m) \<longrightarrow> P n)"
    using assms(1) by (auto simp: filter_empty_conv split: if_splits)
  with n show ?thesis by blast
qed

end

section \<open>Round robin\<close>

definition roundrobin_Select :: "64 word \<Rightarrow> unit \<Rightarrow> node list \<Rightarrow> ((err + node) \<times> 64 word) go" where
  "roundrobin_Select counter x nodes =
     (if nodes = [] then Inr (Inl (ErrString ''roundrobin: no nodes available''), counter)
      else let counter = counter + 1; idx = counter - 1
           in case index nodes (uint (idx mod of_nat (length nodes))) of
                Inl p \<Rightarrow> Inl p | Inr n \<Rightarrow> Inr (Inr n, counter))"

lemma rr_index:
  assumes "nodes \<noteq> []" "slice_ok nodes"
  shows "roundrobin_Select c x nodes = Inr (Inr (nodes ! (unat c mod length nodes)), c + 1)"
proof -
  have u: "unat (of_nat (length nodes) :: 64 word) = length nodes"
    using assms(2) by (simp add: unat_of_nat slice_ok_def)
  have "uint (c mod of_nat (length nodes)) = int (unat c mod length nodes)"
    by (simp add: uint_nat unat_mod_distrib u)
  then show ?thesis using assms(1) by (simp add: roundrobin_Select_def index_def Let_def)
qed

section \<open>Random and weighted\<close>

definition random_Select :: "unit \<Rightarrow> nat \<Rightarrow> node list \<Rightarrow> ((err + node) \<times> unit) go" where
  "random_Select s draw nodes =
     (if nodes = [] then Inr (Inl (ErrString ''random: no nodes available''), s)
      else case IntN draw (int (length nodes)) of
             Inl p \<Rightarrow> Inl p
           | Inr i \<Rightarrow> (case index nodes i of Inl p \<Rightarrow> Inl p | Inr n \<Rightarrow> Inr (Inr n, s)))"

definition effectiveWeight :: "node \<Rightarrow> int" where
  "effectiveWeight n = (if Weight n > 0 then Weight n else 1)"

text \<open>The loop that walks the nodes with the draw \<open>r\<close>; after it the last node is returned.\<close>

fun weighted_walk :: "node list \<Rightarrow> int \<Rightarrow> node option" where
  "weighted_walk [] r = None"
| "weighted_walk (n # ns) r =
     (let w = effectiveWeight n in if r < w then Some n else weighted_walk ns (r - w))"

definition total_weight :: "node list \<Rightarrow> int" where
  "total_weight nodes = foldl (\<lambda>total_w n. total_w + effectiveWeight n) 0 nodes"

definition weighted_Select :: "unit \<Rightarrow> nat \<Rightarrow> node list \<Rightarrow> ((err + node) \<times> unit) go" where
  "weighted_Select s draw nodes =
     (if nodes = [] then Inr (Inl (ErrString ''weighted: no nodes available''), s)
      else let w = total_weight nodes; w = (if w \<le> 0 then int (length nodes) else w)
           in case IntN draw w of
                Inl p \<Rightarrow> Inl p
              | Inr r \<Rightarrow>
                  (case weighted_walk nodes r of
                     Some n \<Rightarrow> Inr (Inr n, s)
                   | None \<Rightarrow> (case index nodes (int (length nodes) - 1) of
                         Inl p \<Rightarrow> Inl p | Inr n \<Rightarrow> Inr (Inr n, s))))"

lemma effectiveWeight_pos: "0 < effectiveWeight n"
  by (simp add: effectiveWeight_def)

lemma total_weight_sum: "total_weight nodes = (\<Sum>n\<leftarrow>nodes. effectiveWeight n)"
proof -
  have "foldl (\<lambda>t n. t + effectiveWeight n) a nodes = a + (\<Sum>n\<leftarrow>nodes. effectiveWeight n)" for a
    by (induction nodes arbitrary: a) auto
  then show ?thesis by (simp add: total_weight_def)
qed

lemma total_weight_pos: "nodes \<noteq> [] \<Longrightarrow> 0 < total_weight nodes"
proof -
  have nn: "0 \<le> (\<Sum>n\<leftarrow>ns. effectiveWeight n)" for ns
    by (intro sum_list_nonneg) (auto intro: order.strict_implies_order effectiveWeight_pos)
  show "nodes \<noteq> [] \<Longrightarrow> 0 < total_weight nodes"
    unfolding total_weight_sum using nn effectiveWeight_pos by (cases nodes) (auto intro: add_pos_nonneg)
qed

lemma weighted_walk_mem: "weighted_walk nodes r = Some n \<Longrightarrow> n \<in> set nodes"
  by (induction nodes r rule: weighted_walk.induct) (auto simp: Let_def split: if_splits)

lemma weighted_walk_Some:
  "0 \<le> r \<Longrightarrow> r < total_weight nodes \<Longrightarrow> \<exists>n. weighted_walk nodes r = Some n"
  unfolding total_weight_sum
  by (induction nodes r rule: weighted_walk.induct) (auto simp: Let_def)

text \<open>The node found at draw \<open>r\<close> is the one whose slot of the cumulated weights contains \<open>r\<close>.\<close>

lemma weighted_walk_slot:
  assumes "i < length nodes" "total_weight (take i nodes) \<le> r" "r < total_weight (take (Suc i) nodes)"
  shows "weighted_walk nodes r = Some (nodes ! i)"
  using assms unfolding total_weight_sum
proof (induction nodes r arbitrary: i rule: weighted_walk.induct)
  case (2 n ns r)
  show ?case
  proof (cases i)
    case 0
    then show ?thesis using 2 by (simp add: Let_def)
  next
    case (Suc j)
    have "0 \<le> (\<Sum>n\<leftarrow>take j ns. effectiveWeight n)"
      by (intro sum_list_nonneg) (auto intro: order.strict_implies_order effectiveWeight_pos)
    then have "\<not> r < effectiveWeight n" using 2(3) Suc by simp
    with 2(1) [OF refl this, of j] 2 Suc show ?thesis by (simp add: Let_def)
  qed
qed simp

interpretation rand: selector random_Select
proof (unfold_locales, goal_cases)
  case (1 s x)
  then show ?case by (simp add: random_Select_def)
next
  case (2 nodes s x)
  then have "nat (int x mod int (length nodes)) < length nodes" by (simp add: nat_less_iff)
  with 2 show ?case by (auto simp: random_Select_def IntN_def index_def)
qed

interpretation wrand: selector weighted_Select
proof (unfold_locales, goal_cases)
  case (1 s x)
  then show ?case by (simp add: weighted_Select_def)
next
  case (2 nodes s x)
  let ?r = "int x mod total_weight nodes"
  have w: "0 < total_weight nodes" using 2(1) by (rule total_weight_pos)
  then obtain n where n: "weighted_walk nodes ?r = Some n" using weighted_walk_Some [of ?r nodes] by auto
  then have "weighted_Select s x nodes = Inr (Inr n, s)"
    using 2 w by (simp add: weighted_Select_def IntN_def Let_def)
  with weighted_walk_mem [OF n] show ?case by blast
qed

interpretation rr: selector roundrobin_Select
proof (unfold_locales, goal_cases)
  case (1 s x)
  then show ?case by (simp add: roundrobin_Select_def)
next
  case (2 nodes s x)
  then have "nodes ! (unat s mod length nodes) \<in> set nodes" by (intro nth_mem) simp
  with rr_index [OF 2] show ?case by blast
qed

fun rr_selects :: "64 word \<Rightarrow> nat \<Rightarrow> node list \<Rightarrow> (err + node) list go" where
  "rr_selects c 0 nodes = Inr []"
| "rr_selects c (Suc k) nodes =
     (case roundrobin_Select c () nodes of
        Inl p \<Rightarrow> Inl p
      | Inr (r, c) \<Rightarrow> (case rr_selects c k nodes of Inl p \<Rightarrow> Inl p | Inr rs \<Rightarrow> Inr (r # rs)))"

lemma rr_selects_indices:
  assumes "nodes \<noteq> []" "slice_ok nodes" "unat c + k \<le> 2 ^ 64"
  shows "rr_selects c k nodes = Inr (map (\<lambda>i. Inr (nodes ! (i mod length nodes))) [unat c..<unat c + k])"
  using assms(3)
proof (induction k arbitrary: c)
  case (Suc k)
  show ?case
  proof (cases k)
    case 0
    then show ?thesis using assms(1,2) by (simp add: rr_index)
  next
    case (Suc j)
    then have "unat c + 1 < 2 ^ 64" using Suc.prems by linarith
    then have "unat (c + 1) = unat c + 1" by (simp add: unat_word_ariths unsigned_1)
    with Suc.IH [of "c + 1"] Suc.prems have "rr_selects (c + 1) k nodes =
        Inr (map (\<lambda>i. Inr (nodes ! (i mod length nodes))) [unat c + 1..<unat c + 1 + k])" by simp
    then show ?thesis using assms(1,2) by (simp add: rr_index upt_conv_Cons [of "unat c"] del: upt_Suc)
  qed
qed simp

lemma cycle_rotate:
  assumes "xs \<noteq> []"
  shows "map (\<lambda>i. xs ! (i mod length xs)) [a..<a + length xs] = rotate a xs"
  using assms by (intro nth_equalityI) (auto simp: nth_rotate)

text \<open>
  C12. Round robin is fair: as long as the 64-bit counter does not wrap, any \<open>length nodes\<close> successive
  selections over the same candidates visit every position exactly once, in cyclic order starting where
  the counter stands.
\<close>

theorem roundrobin_fair:
  assumes "nodes \<noteq> []" "slice_ok nodes" "unat c + length nodes \<le> 2 ^ 64"
  shows "rr_selects c (length nodes) nodes = Inr (map Inr (rotate (unat c) nodes))"
proof -
  have "map (\<lambda>i. Inr (nodes ! (i mod length nodes))) [unat c..<unat c + length nodes] =
      map Inr (map (\<lambda>i. nodes ! (i mod length nodes)) [unat c..<unat c + length nodes])" by simp
  then show ?thesis using rr_selects_indices [OF assms] cycle_rotate [OF assms(1)] by simp
qed

definition three_nodes :: "node list" where
  "three_nodes = map (\<lambda>(a, w). NewNode a ''grpc'' ''svc'' w Map.empty) [(''a'', 1), (''b'', 3), (''c'', 0)]"

theorem roundrobin_fair_witness:
  "rr_selects 4 3 three_nodes = Inr (map Inr (rotate 4 three_nodes))"
proof -
  have "length three_nodes = 3" "three_nodes \<noteq> []" by (simp_all add: three_nodes_def)
  then show ?thesis using roundrobin_fair [of three_nodes 4] by (auto simp: slice_ok_def simp del: rr_selects.simps)
qed

text \<open>
  The weighted strategy chooses in proportion to the weights: of the \<open>total\<close> equally likely values of
  the draw, exactly \<open>effectiveWeight\<close> many select the node at position \<open>i\<close> by the slot of the cumulated
  weights that belongs to it, the slots are disjoint and cover all values, and the branches for a
  non-positive total and for a finished loop are never taken.
\<close>

theorem weighted_proportional:
  assumes "i < length nodes"
  shows "{r \<in> {0..<total_weight nodes}. total_weight (take i nodes) \<le> r \<and> r < total_weight (take (Suc i) nodes)}
           = {total_weight (take i nodes)..<total_weight (take (Suc i) nodes)}
    \<and> card {total_weight (take i nodes)..<total_weight (take (Suc i) nodes)} = nat (effectiveWeight (nodes ! i))
    \<and> (\<forall>draw. int draw mod total_weight nodes \<in> {total_weight (take i nodes)..<total_weight (take (Suc i) nodes)}
          \<longrightarrow> weighted_Select () draw nodes = Inr (Inr (nodes ! i), ()))"
proof -
  have nn: "0 \<le> (\<Sum>n\<leftarrow>ns. effectiveWeight n)" for ns
    by (intro sum_list_nonneg) (auto intro: order.strict_implies_order effectiveWeight_pos)
  have suc: "total_weight (take (Suc i) nodes) = total_weight (take i nodes) + effectiveWeight (nodes ! i)"
    using assms by (simp add: total_weight_sum take_Suc_conv_app_nth)
  have "total_weight nodes = total_weight (take (Suc i) nodes) + total_weight (drop (Suc i) nodes)"
    unfolding total_weight_sum by (simp flip: sum_list_append map_append)
  then have le: "total_weight (take (Suc i) nodes) \<le> total_weight nodes" "0 \<le> total_weight (take i nodes)"
    using nn by (simp_all add: total_weight_sum)
  have ne: "nodes \<noteq> []" using assms by auto
  have pos: "0 < total_weight nodes" by (rule total_weight_pos [OF ne])
  have "weighted_Select () draw nodes = Inr (Inr (nodes ! i), ())"
    if "int draw mod total_weight nodes \<in> {total_weight (take i nodes)..<total_weight (take (Suc i) nodes)}" for draw
    using that weighted_walk_slot [OF assms] ne pos by (simp add: weighted_Select_def IntN_def Let_def)
  then show ?thesis using le suc by auto
qed

theorem weighted_proportional_witness:
  "card {total_weight (take 1 three_nodes)..<total_weight (take (Suc 1) three_nodes)} = 3"
  using weighted_proportional [of 1 three_nodes]
  by (simp add: three_nodes_def NewNode_def effectiveWeight_def)

section \<open>The registry of strategies\<close>

definition RegisterSelector :: "(string \<rightharpoonup> 'f) \<Rightarrow> string \<Rightarrow> 'f \<Rightarrow> (string \<rightharpoonup> 'f)" where
  "RegisterSelector factories name f = factories(name \<mapsto> f)"

definition GetSelector :: "(string \<rightharpoonup> (unit \<Rightarrow> 's)) \<Rightarrow> string \<Rightarrow> err + 's" where
  "GetSelector factories name =
     (case factories name of
        None \<Rightarrow> Inl (ErrString ''selector not registered'') | Some f \<Rightarrow> Inr (f ()))"

definition Registered :: "(string \<rightharpoonup> 'f) \<Rightarrow> string \<Rightarrow> bool" where
  "Registered factories name \<longleftrightarrow> factories name \<noteq> None"

section \<open>Circuit breaking per node\<close>

text \<open>The healthy candidates; \<open>Healthy\<close> creates the breaker of a node it sees for the first time.\<close>

fun healthy_nodes :: "breakerRegistry \<Rightarrow> time \<Rightarrow> node list \<Rightarrow> (node list \<times> breakerRegistry) go" where
  "healthy_nodes r now [] = Inr ([], r)"
| "healthy_nodes r now (n # ns) =
     (case Registry_Healthy r (Address n) now of
        Inl p \<Rightarrow> Inl p
      | Inr (h, r) \<Rightarrow>
          (case healthy_nodes r now ns of
             Inl p \<Rightarrow> Inl p | Inr (hs, r) \<Rightarrow> Inr (if h then n # hs else hs, r)))"

definition breakerSelector_Select :: "('s \<Rightarrow> 'e \<Rightarrow> node list \<Rightarrow> ((err + node) \<times> 's) go) \<Rightarrow> 's \<times> breakerRegistry
    \<Rightarrow> 'e \<times> time \<Rightarrow> node list \<Rightarrow> ((err + node) \<times> 's \<times> breakerRegistry) go" where
  "breakerSelector_Select select s x nodes =
     (case healthy_nodes (snd s) (snd x) nodes of
        Inl p \<Rightarrow> Inl p
      | Inr (cand, r) \<Rightarrow>
          (let cand = (if length cand = 0 then nodes else cand)
           in case select (fst s) (fst x) cand of
                Inl p \<Rightarrow> Inl p
              | Inr (Inl e, s) \<Rightarrow> Inr (Inl e, s, r)
              | Inr (Inr n, s) \<Rightarrow> Inr (Inr n, s, r)))"

text \<open>The breaker's half of the \<open>DoneFunc\<close>: the call's error is fed into \<open>Do\<close>.\<close>

definition breakerSelector_Done :: "breakerRegistry \<Rightarrow> node \<Rightarrow> err option \<Rightarrow> time \<Rightarrow> float64 \<Rightarrow> breakerRegistry go" where
  "breakerSelector_Done r n e now rnd =
     (case Registry_Do r (Address n) now rnd (\<lambda>_. Inr e) now None of
        Inl p \<Rightarrow> Inl p | Inr (_, r) \<Rightarrow> Inr r)"

text \<open>What \<open>Healthy\<close> says of an address: a node not seen before is healthy.\<close>

definition verdict :: "breakerRegistry \<Rightarrow> time \<Rightarrow> string \<Rightarrow> bool" where
  "verdict r now a = (case breakers r a of None \<Rightarrow> True | Some b \<Rightarrow> healthy b now = Inr True)"

text \<open>
  A registry whose breakers were all made by its configuration and used no later than \<open>now\<close>. The
  configuration's window must be long enough to give its buckets a positive length.
\<close>

definition registry_ok :: "breakerRegistry \<Rightarrow> time \<Rightarrow> bool" where
  "registry_ok r now \<longleftrightarrow>
     (\<forall>t. \<exists>b. newSREBreaker (rcfg r) t = Inr b \<and> 0 < interval (stat b))
     \<and> (\<forall>a b. breakers r a = Some b \<longrightarrow> (\<exists>t0 h n. breaker_ok t0 h n b \<and> n \<le> tick t0 (interval (stat b)) now))"

lemma fresh_healthy:
  assumes "newSREBreaker cfg now = Inr b" "0 < interval (stat b)"
  shows "healthy b now = Inr True"
proof -
  have ok: "breaker_ok now [] 0 b" by (rule newSREBreaker_ok [OF assms])
  have "0 \<le> tick now (interval (stat b)) now" by (simp add: tick_def)
  from breaker_ok_history [OF ok this] obtain r where r: "history b now = Inr r"
      "accepts r = occurrences resultSuccess (window_outcomes now [] b now)"
      "total r = int (length (window_outcomes now [] b now))" by blast
  have "window_outcomes now [] b now = []" by (simp add: window_outcomes_def outcomes_since_def)
  then have "accepts r = 0" "total r = 0" using r occurrences_bounds [of resultSuccess "[]"] by auto
  then have "drop_ratio b r \<le> 0" by (simp add: drop_ratio_le_0_iff protection_def)
  then show ?thesis using r by (simp add: healthy_def)
qed

lemma Registry_Healthy_ok:
  assumes "registry_ok r now"
  shows "\<exists>r'. Registry_Healthy r a now = Inr (verdict r now a, r') \<and> registry_ok r' now \<and> verdict r' now = verdict r now"
proof (cases "breakers r a")
  case (Some b)
  with assms have "\<exists>t0 h n. breaker_ok t0 h n b \<and> n \<le> tick t0 (interval (stat b)) now"
    unfolding registry_ok_def by blast
  then obtain t0 h n where "breaker_ok t0 h n b" "n \<le> tick t0 (interval (stat b)) now" by blast
  from breaker_ok_history [OF this] obtain r' where "history b now = Inr r'" by blast
  then show ?thesis using Some assms
    by (simp add: Registry_Healthy_def Registry_Get_def verdict_def healthy_def)
next
  case None
  obtain b where b: "newSREBreaker (rcfg r) now = Inr b" "0 < interval (stat b)"
    using assms unfolding registry_ok_def by blast
  have ok: "breaker_ok now [] 0 b \<and> 0 \<le> tick now (interval (stat b)) now"
    using newSREBreaker_ok [OF b] by (simp add: tick_def)
  let ?r = "r\<lparr>breakers := (breakers r)(a \<mapsto> b)\<rparr>"
  have "registry_ok ?r now" using assms ok by (auto simp: registry_ok_def)
  moreover have "verdict ?r now = verdict r now"
    using None fresh_healthy [OF b] by (auto simp: verdict_def fun_eq_iff)
  ultimately show ?thesis using None b fresh_healthy [OF b]
    by (simp add: Registry_Healthy_def Registry_Get_def verdict_def)
qed

lemma healthy_nodes_filter:
  assumes "registry_ok r now"
  shows "\<exists>r'. healthy_nodes r now nodes = Inr (filter (\<lambda>n. verdict r now (Address n)) nodes, r') \<and> registry_ok r' now"
  using assms
proof (induction nodes arbitrary: r)
  case (Cons n ns)
  from Registry_Healthy_ok [OF Cons.prems, of "Address n"] obtain r1 where
    r1: "Registry_Healthy r (Address n) now = Inr (verdict r now (Address n), r1)"
      "registry_ok r1 now" "verdict r1 now = verdict r now" by blast
  from Cons.IH [OF r1(2)] r1 show ?case by auto
qed simp

text \<open>
  C13. Selection with circuit breaking over any strategy that keeps the contract: it always returns a
  candidate, it returns a candidate whose breaker is not tripped whenever there is one, and when every
  breaker has tripped it still returns one of the candidates, so that a recovery can be observed.
\<close>

theorem breakerSelector_skips_tripped:
  assumes "selector select" "registry_ok r now" "nodes \<noteq> []" "slice_ok nodes"
  shows "\<exists>n s' r'. breakerSelector_Select select (s, r) (x, now) nodes = Inr (Inr n, s', r')
    \<and> n \<in> set nodes \<and> registry_ok r' now
    \<and> ((\<exists>m \<in> set nodes. verdict r now (Address m)) \<longrightarrow> verdict r now (Address n))"
proof -
  let ?P = "\<lambda>n :: node. verdict r now (Address n)"
  obtain r' where h: "healthy_nodes r now nodes = Inr (filter ?P nodes, r')" "registry_ok r' now"
    using healthy_nodes_filter [OF assms(2)] by blast
  from selector.select_filtered [OF assms(1) refl assms(3,4), where P = ?P and s = s and x = x]
  obtain n s' where n: "select s x (if filter ?P nodes = [] then nodes else filter ?P nodes) = Inr (Inr n, s')"
      "n \<in> set nodes" "(\<exists>m \<in> set nodes. ?P m) \<longrightarrow> ?P n" by blast
  then have "breakerSelector_Select select (s, r) (x, now) nodes = Inr (Inr n, s', r')"
    using h by (simp add: breakerSelector_Select_def Let_def)
  with n h show ?thesis by blast
qed

lemma default_registry_ok: "registry_ok (NewBreakerRegistry []) now"
  by (simp add: registry_ok_def NewBreakerRegistry_def newSREBreaker_def defaultBreakerConfig_def
      NewRollingWindow_def defaultBucket_def defaultWindow_def Second_def Let_def)

theorem breakerSelector_skips_tripped_witness:
  "\<exists>n s' r'. breakerSelector_Select roundrobin_Select (0, NewBreakerRegistry []) ((), 7) three_nodes = Inr (Inr n, s', r')
    \<and> n \<in> set three_nodes \<and> registry_ok r' 7
    \<and> ((\<exists>m \<in> set three_nodes. verdict (NewBreakerRegistry []) 7 (Address m)) \<longrightarrow>
         verdict (NewBreakerRegistry []) 7 (Address n))"
  by (rule breakerSelector_skips_tripped [OF rr.selector_axioms default_registry_ok])
     (simp_all add: three_nodes_def slice_ok_def)

end
