(* ===== verification/P2C.thy ===== *)
theory P2C
  imports Selector
begin

text \<open>
  \<open>pkg/selector/p2c\<close>: power of two choices over time-decayed estimates of latency and success. The map
  \<open>state\<close> holds pointers, and a \<open>DoneFunc\<close> keeps the pointer it was made with even when the entry has been
  pruned since: the per-address records live in a heap and the map holds indices into it. A call of
  \<open>Select\<close> and a call of its \<open>DoneFunc\<close> are one step each. \<open>math.Exp\<close> is a parameter, of which the
  results use only that it maps non-positive arguments into the unit interval.
\<close>

section \<open>Model\<close>

definition decayTime :: duration where "decayTime = 10 * Second"
definition forcePick :: duration where "forcePick = Second"
definition initSuccess :: int where "initSuccess = 1000"
definition throttleSuccess :: int where "throttleSuccess = initSuccess div 2"
definition pickTimes :: nat where "pickTimes = 3"

record p2cNode =
  lag :: int
  inflight :: int
  success :: int
  lastPick :: int
  lastDone :: int

record p2c =
  pstate :: "(string \<times> nat) list"
  pheap :: "p2cNode list"

text \<open>\<open>int64(math.Sqrt(x))\<close> for a non-negative integer: the integer square root.\<close>

fun isqrt :: "nat \<Rightarrow> nat" where
  "isqrt n = (if n = 0 then 0 else let r = 2 * isqrt (n div 4) in if (r + 1) * (r + 1) \<le> n then r + 1 else r)"

declare isqrt.simps [simp del]

text \<open>\<open>node\<close>: the record of an address, created on first use.\<close>

definition p2c_node :: "p2c \<Rightarrow> string \<Rightarrow> time \<Rightarrow> nat \<times> p2c" where
  "p2c_node s addr now =
     (case map_of (pstate s) addr of
        Some i \<Rightarrow> (i, s)
      | None \<Rightarrow> (length (pheap s),
          s\<lparr>pstate := (addr, length (pheap s)) # pstate s,
            pheap := pheap s @ [\<lparr>lag = 10 * Millisecond, inflight = 0, success = initSuccess,
                                 lastPick = 0, lastDone = now\<rparr>]\<rparr>))"

definition p2c_healthy :: "p2c \<Rightarrow> node \<Rightarrow> time \<Rightarrow> bool \<times> p2c" where
  "p2c_healthy s n now = (let (i, s) = p2c_node s (Address n) now in (success (pheap s ! i) > throttleSuccess, s))"

definition p2c_load :: "p2c \<Rightarrow> node \<Rightarrow> time \<Rightarrow> int \<times> p2c" where
  "p2c_load s n now =
     (let (i, s) = p2c_node s (Address n) now; st = pheap s ! i;
          l = int (isqrt (nat (lag st + 1)))
      in (int64 (l * (inflight st + 1)), s))"

text \<open>
  The sampling loop: \<open>draws\<close> are the random numbers, two per round; the pair of the last round is kept
  when no round finds two healthy nodes of different addresses.
\<close>

fun p2c_sample :: "p2c \<Rightarrow> node list \<Rightarrow> (nat \<times> nat) list \<Rightarrow> node \<times> node \<Rightarrow> time \<Rightarrow> ((node \<times> node) \<times> p2c) go" where
  "p2c_sample s nodes [] ab now = Inr (ab, s)"
| "p2c_sample s nodes ((d1, d2) # draws) ab now =
     (case IntN d1 (int (length nodes)) of Inl p \<Rightarrow> Inl p | Inr i \<Rightarrow>
      (case index nodes i of Inl p \<Rightarrow> Inl p | Inr a \<Rightarrow>
       (case IntN d2 (int (length nodes)) of Inl p \<Rightarrow> Inl p | Inr j \<Rightarrow>
        (case index nodes j of Inl p \<Rightarrow> Inl p | Inr b \<Rightarrow>
          if Address a = Address b then p2c_sample s nodes draws (a, b) now
          else let (ha, s) = p2c_healthy s a now;
                   (hb, s) = (if ha then p2c_healthy s b now else (False, s))
               in if ha \<and> hb then Inr ((a, b), s) else p2c_sample s nodes draws (a, b) now))))"

text \<open>
  \<open>Select\<close> is one step: its \<open>CompareAndSwap\<close> of the pick time does not fail, since nobody else swaps in between.
\<close>

definition p2c_pick :: "p2c \<Rightarrow> node list \<Rightarrow> (nat \<Rightarrow> nat \<times> nat) \<Rightarrow> time \<Rightarrow> (node \<times> p2c) go" where
  "p2c_pick s nodes draws now =
     (case nodes of
        [] \<Rightarrow> Inl (Panic ''index out of range'')
      | [n] \<Rightarrow> Inr (n, s)
      | n # _ \<Rightarrow>
          (case p2c_sample s nodes (map draws [0..<pickTimes]) (n, n) now of
             Inl p \<Rightarrow> Inl p
           | Inr ((a, b), s) \<Rightarrow>
               (let (la, s) = p2c_load s a now; (lb, s) = p2c_load s b now;
                    (a, b) = (if la > lb then (b, a) else (a, b));
                    (na, s) = p2c_node s (Address a) now; (nb, s) = p2c_node s (Address b) now
                in if now - lastPick (pheap s ! nb) > forcePick
                   then Inr (b, s\<lparr>pheap := (pheap s)[nb := (pheap s ! nb)\<lparr>lastPick := now\<rparr>]\<rparr>)
                   else Inr (a, s\<lparr>pheap := (pheap s)[na := (pheap s ! na)\<lparr>lastPick := now\<rparr>]\<rparr>))))"

definition p2c_prune :: "p2c \<Rightarrow> node list \<Rightarrow> p2c" where
  "p2c_prune s nodes =
     (if length (pstate s) \<le> length nodes then s
      else s\<lparr>pstate := filter (\<lambda>(addr, _). addr \<in> Address ` set nodes) (pstate s)\<rparr>)"

text \<open>\<open>Select\<close> returns the node together with the heap index its \<open>DoneFunc\<close> holds.\<close>

definition p2c_Select :: "p2c \<Rightarrow> (nat \<Rightarrow> nat \<times> nat) \<times> time \<Rightarrow> node list \<Rightarrow> ((err + node \<times> nat) \<times> p2c) go" where
  "p2c_Select s x nodes =
     (if length nodes = 0 then Inr (Inl (ErrString ''p2c: no nodes available''), s)
      else case p2c_pick s nodes (fst x) (snd x) of
             Inl p \<Rightarrow> Inl p
           | Inr (chosen, s) \<Rightarrow>
               (let (i, s) = p2c_node s (Address chosen) (snd x);
                    s = s\<lparr>pheap := (pheap s)[i := (pheap s ! i)\<lparr>inflight := inflight (pheap s ! i) + 1\<rparr>]\<rparr>
                in Inr (Inr (chosen, i), p2c_prune s nodes)))"

definition updateEWMA :: "int \<Rightarrow> float64 \<Rightarrow> float64 \<Rightarrow> int" where
  "updateEWMA old w sample = float_to_int (of_int old * w + sample * (1 - w))"

definition p2c_done :: "(float64 \<Rightarrow> float64) \<Rightarrow> p2cNode \<Rightarrow> time \<Rightarrow> time \<Rightarrow> err option \<Rightarrow> p2cNode" where
  "p2c_done Exp n start now e =
     (let n = n\<lparr>inflight := inflight n - 1\<rparr>;
          td = now - lastDone n;
          n = n\<lparr>lastDone := now\<rparr>;
          td = (if td < 0 then 0 else td);
          w = Exp (of_int (- td) / of_int decayTime);
          l = now - start; l = (if l < 0 then 0 else l);
          w = (if lag n = 0 then 0 else w);
          n = n\<lparr>lag := updateEWMA (lag n) w (of_int l)\<rparr>;
          s = (if e \<noteq> None then 0 else of_int initSuccess)
      in n\<lparr>success := updateEWMA (success n) w s\<rparr>)"

definition p2c_Done :: "(float64 \<Rightarrow> float64) \<Rightarrow> p2c \<Rightarrow> nat \<Rightarrow> time \<Rightarrow> time \<Rightarrow> err option \<Rightarrow> p2c" where
  "p2c_Done Exp s i start now e = s\<lparr>pheap := (pheap s)[i := p2c_done Exp (pheap s ! i) start now e]\<rparr>"

section \<open>Invariant of the estimates\<close>

definition node_ok :: "p2cNode \<Rightarrow> bool" where
  "node_ok n \<longleftrightarrow> 0 \<le> lag n \<and> 0 \<le> success n \<and> success n \<le> initSuccess"

definition p2c_ok :: "p2c \<Rightarrow> bool" where
  "p2c_ok s \<longleftrightarrow> distinct (map fst (pstate s)) \<and> (\<forall>(a, i) \<in> set (pstate s). i < length (pheap s))
     \<and> (\<forall>n \<in> set (pheap s). node_ok n)"

text \<open>An average of two values lies between them, also after truncation.\<close>

lemma updateEWMA_bounds:
  assumes "0 \<le> w" "w \<le> 1" "a \<le> old" "old \<le> b" "of_int a \<le> sample" "sample \<le> of_int b"
  shows "a \<le> updateEWMA old w sample \<and> updateEWMA old w sample \<le> b"
proof -
  have "of_int a * w + of_int a * (1 - w) \<le> of_int old * w + sample * (1 - w)"
    using assms by (intro add_mono mult_right_mono) auto
  moreover have "of_int old * w + sample * (1 - w) \<le> of_int b * w + of_int b * (1 - w)"
    using assms by (intro add_mono mult_right_mono) auto
  ultimately have "of_int a \<le> of_int old * w + sample * (1 - w)" "of_int old * w + sample * (1 - w) \<le> of_int b"
    by (simp_all add: algebra_simps)
  then show ?thesis unfolding updateEWMA_def using float_to_int_bounds by blast
qed

lemma isqrt_correct: "isqrt n * isqrt n \<le> n \<and> n < (isqrt n + 1) * (isqrt n + 1)"
proof (induction n rule: isqrt.induct)
  case (1 n)
  show ?case
  proof (cases "n = 0")
    case False
    let ?q = "isqrt (n div 4)"
    have ih: "?q * ?q \<le> n div 4" "n div 4 < (?q + 1) * (?q + 1)" using 1 [OF False] by auto
    have "4 * (?q * ?q) \<le> n" using ih(1) by linarith
    moreover have "n < 4 * ((?q + 1) * (?q + 1))" using ih(2) by linarith
    ultimately show ?thesis using False
      by (subst (1 2 3 4) isqrt.simps) (auto simp: Let_def algebra_simps)
  qed (simp add: isqrt.simps)
qed

lemma p2c_done_ok:
  assumes "node_ok n" "\<And>x. x \<le> 0 \<Longrightarrow> 0 \<le> Exp x \<and> Exp x \<le> 1"
  shows "node_ok (p2c_done Exp n start now e)" "inflight (p2c_done Exp n start now e) = inflight n - 1"
proof -
  define td where "td = (if now - lastDone n < 0 then 0 else now - lastDone n)"
  define w where "w = (if lag n = 0 then 0 else Exp (of_int (- td) / of_int decayTime))"
  define l where "l = (if now - start < 0 then 0 else now - start)"
  define sm where "sm = (if e \<noteq> None then 0 else rat_of_int initSuccess)"
  have eq: "p2c_done Exp n start now e = n\<lparr>inflight := inflight n - 1, lastDone := now,
      lag := updateEWMA (lag n) w (of_int l), success := updateEWMA (success n) w sm\<rparr>"
    by (cases n) (simp add: p2c_done_def td_def w_def l_def sm_def Let_def)
  have "0 \<le> td" "0 \<le> l" by (simp_all add: td_def l_def)
  then have "of_int (- td) / of_int decayTime \<le> (0 :: rat)"
    by (simp add: divide_nonpos_pos decayTime_def Second_def)
  then have w: "0 \<le> w" "w \<le> 1" using assms(2) unfolding w_def by auto
  have sm: "of_int 0 \<le> sm" "sm \<le> of_int initSuccess" by (simp_all add: sm_def initSuccess_def)
  have "0 \<le> updateEWMA (lag n) w (of_int l)"
    using updateEWMA_bounds [OF w, of 0 "lag n" "max (lag n) l" "of_int l"] assms(1) \<open>0 \<le> l\<close>
    by (simp add: node_ok_def)
  then show "node_ok (p2c_done Exp n start now e)"
    using updateEWMA_bounds [OF w _ _ sm, of "success n"] assms(1) by (simp add: eq node_ok_def)
  show "inflight (p2c_done Exp n start now e) = inflight n - 1" by (simp add: eq)
qed

section \<open>What the operations keep\<close>

text \<open>The count of outstanding calls that the heap holds for an index.\<close>

definition infl :: "p2c \<Rightarrow> nat \<Rightarrow> int" where
  "infl s i = (if i < length (pheap s) then inflight (pheap s ! i) else 0)"

definition grows :: "p2c \<Rightarrow> p2c \<Rightarrow> bool" where
  "grows s s' \<longleftrightarrow> p2c_ok s' \<and> length (pheap s) \<le> length (pheap s') \<and> infl s' = infl s"

lemma grows_refl: "p2c_ok s \<Longrightarrow> grows s s"
  by (simp add: grows_def)

lemma grows_trans: "grows a b \<Longrightarrow> grows b c \<Longrightarrow> grows a c"
  by (simp add: grows_def)

lemma p2c_node_grows:
  assumes "p2c_ok s" "p2c_node s a now = (i, s')"
  shows "grows s s'" "i < length (pheap s')" "map_of (pstate s') a = Some i"
proof -
  have "grows s s' \<and> i < length (pheap s') \<and> map_of (pstate s') a = Some i"
  proof (cases "map_of (pstate s) a")
    case None
    then have "a \<notin> fst ` set (pstate s)" by (simp add: map_of_eq_None_iff)
    then show ?thesis using None assms
      by (force simp: p2c_node_def grows_def p2c_ok_def infl_def node_ok_def nth_append Millisecond_def
          initSuccess_def fun_eq_iff)
  next
    case (Some j)
    then have "(a, j) \<in> set (pstate s)" by (rule map_of_SomeD)
    then show ?thesis using Some assms by (auto simp: p2c_node_def grows_def p2c_ok_def)
  qed
  then show "grows s s'" "i < length (pheap s')" "map_of (pstate s') a = Some i" by simp_all
qed

lemma p2c_healthy_grows: "p2c_ok s \<Longrightarrow> p2c_healthy s n now = (h, s') \<Longrightarrow> grows s s'"
  by (auto simp: p2c_healthy_def case_prod_unfold Let_def intro: p2c_node_grows(1) [OF _ prod.collapse [symmetric]])

lemma p2c_load_grows: "p2c_ok s \<Longrightarrow> p2c_load s n now = (h, s') \<Longrightarrow> grows s s'"
  by (auto simp: p2c_load_def case_prod_unfold Let_def intro: p2c_node_grows(1) [OF _ prod.collapse [symmetric]])

lemma grows_ok: "grows s s' \<Longrightarrow> p2c_ok s'"
  by (simp add: grows_def)

lemma p2c_sample_grows:
  assumes "p2c_ok s" "nodes \<noteq> []" "set [fst ab, snd ab] \<subseteq> set nodes"
  shows "\<exists>a b s'. p2c_sample s nodes draws ab now = Inr ((a, b), s') \<and> a \<in> set nodes \<and> b \<in> set nodes \<and> grows s s'"
  using assms
proof (induction draws arbitrary: s ab)
  case Nil
  then show ?case by (cases ab) (simp add: grows_refl)
next
  case (Cons d draws)
  obtain d1 d2 where d: "d = (d1, d2)" by (cases d)
  define a where "a = nodes ! (d1 mod length nodes)"
  define b where "b = nodes ! (d2 mod length nodes)"
  have ab: "a \<in> set nodes" "b \<in> set nodes" using Cons.prems(2) by (simp_all add: a_def b_def)
  have ix: "index nodes (int k mod int (length nodes)) = Inr (nodes ! (k mod length nodes))" for k
    using Cons.prems(2) by (simp add: index_def nat_mod_distrib)
  have "\<exists>s1 stop. p2c_sample s nodes (d # draws) ab now =
      (if stop then Inr ((a, b), s1) else p2c_sample s1 nodes draws (a, b) now) \<and> grows s s1"
  proof (cases "Address a = Address b")
    case True
    then show ?thesis using Cons.prems grows_refl
      by (intro exI [of _ s] exI [of _ False]) (simp add: d IntN_def ix flip: a_def b_def)
  next
    case False
    obtain ha s1 where h1: "p2c_healthy s a now = (ha, s1)" by (cases "p2c_healthy s a now")
    obtain hb s2 where h2: "(if ha then p2c_healthy s1 b now else (False, s1)) = (hb, s2)"
      by (cases "if ha then p2c_healthy s1 b now else (False, s1)")
    have g1: "grows s s1" by (rule p2c_healthy_grows [OF Cons.prems(1) h1])
    have "grows s1 s2" using h2 p2c_healthy_grows [OF grows_ok [OF g1]] grows_refl [OF grows_ok [OF g1]]
      by (cases ha) auto
    then have "grows s s2" using g1 grows_trans by blast
    then show ?thesis using False Cons.prems(2) h1 h2
      by (intro exI [of _ s2] exI [of _ "ha \<and> hb"]) (simp add: d IntN_def ix flip: a_def b_def)
  qed
  then obtain s1 stop where st: "p2c_sample s nodes (d # draws) ab now =
      (if stop then Inr ((a, b), s1) else p2c_sample s1 nodes draws (a, b) now)" "grows s s1" by blast
  show ?case
  proof (cases stop)
    case True
    then show ?thesis using st ab by auto
  next
    case False
    from Cons.IH [OF grows_ok [OF st(2)] Cons.prems(2), of "(a, b)"] ab obtain x y s' where
      "p2c_sample s1 nodes draws (a, b) now = Inr ((x, y), s')" "x \<in> set nodes" "y \<in> set nodes" "grows s1 s'"
      by auto
    with False st show ?thesis using grows_trans by auto
  qed
qed

text \<open>Writing the time of the last pick changes no estimate and no count.\<close>

lemma set_pick_grows:
  assumes "p2c_ok s"
  shows "grows s (s\<lparr>pheap := (pheap s)[i := (pheap s ! i)\<lparr>lastPick := t\<rparr>]\<rparr>)"
proof (cases "i < length (pheap s)")
  case True
  then have "node_ok (pheap s ! i)" using assms by (simp add: p2c_ok_def)
  then have "\<forall>n \<in> set ((pheap s)[i := (pheap s ! i)\<lparr>lastPick := t\<rparr>]). node_ok n"
    using assms set_update_subset_insert [of "pheap s" i "(pheap s ! i)\<lparr>lastPick := t\<rparr>"]
    by (auto simp: p2c_ok_def node_ok_def)
  then show ?thesis using assms True by (auto simp: grows_def p2c_ok_def infl_def fun_eq_iff nth_list_update)
qed (use assms in \<open>simp add: grows_def list_update_beyond\<close>)

lemma p2c_pick_grows:
  assumes "p2c_ok s" "nodes \<noteq> []"
  shows "\<exists>n s'. p2c_pick s nodes draws now = Inr (n, s') \<and> n \<in> set nodes \<and> grows s s'"
proof (cases "length nodes = 1")
  case True
  then obtain n where "nodes = [n]" by (auto simp: length_Suc_conv)
  then show ?thesis using assms grows_refl by (simp add: p2c_pick_def)
next
  case False
  then obtain n m ns where nodes: "nodes = n # m # ns" using assms(2) by (metis One_nat_def length_Cons list.exhaust list.size(3))
  obtain a b s1 where sm: "p2c_sample s nodes (map draws [0..<pickTimes]) (n, n) now = Inr ((a, b), s1)"
      "a \<in> set nodes" "b \<in> set nodes" "grows s s1"
    using p2c_sample_grows [OF assms, of "(n, n)" "map draws [0..<pickTimes]" now] nodes by auto
  obtain la s2 where l1: "p2c_load s1 a now = (la, s2)" by (cases "p2c_load s1 a now")
  obtain lb s3 where l2: "p2c_load s2 b now = (lb, s3)" by (cases "p2c_load s2 b now")
  define a' where "a' = (if la > lb then b else a)"
  define b' where "b' = (if la > lb then a else b)"
  obtain na s4 where n1: "p2c_node s3 (Address a') now = (na, s4)" by (cases "p2c_node s3 (Address a') now")
  obtain nb s5 where n2: "p2c_node s4 (Address b') now = (nb, s5)" by (cases "p2c_node s4 (Address b') now")
  have g2: "grows s s2" using p2c_load_grows [OF grows_ok [OF sm(4)] l1] sm(4) grows_trans by blast
  have g3: "grows s s3" using p2c_load_grows [OF grows_ok [OF g2] l2] g2 grows_trans by blast
  have g4: "grows s s4" using p2c_node_grows(1) [OF grows_ok [OF g3] n1] g3 grows_trans by blast
  have g5: "grows s s5" using p2c_node_grows(1) [OF grows_ok [OF g4] n2] g4 grows_trans by blast
  have g6: "grows s (s5\<lparr>pheap := (pheap s5)[i := (pheap s5 ! i)\<lparr>lastPick := t\<rparr>]\<rparr>)" for i t
    using set_pick_grows [OF grows_ok [OF g5]] g5 grows_trans by blast
  have sw: "(if la > lb then (b, a) else (a, b)) = (a', b')" by (simp add: a'_def b'_def)
  have mem: "a' \<in> set nodes" "b' \<in> set nodes" using sm by (simp_all add: a'_def b'_def)
  have "p2c_pick s nodes draws now =
      (if now - lastPick (pheap s5 ! nb) > forcePick
       then Inr (b', s5\<lparr>pheap := (pheap s5)[nb := (pheap s5 ! nb)\<lparr>lastPick := now\<rparr>]\<rparr>)
       else Inr (a', s5\<lparr>pheap := (pheap s5)[na := (pheap s5 ! na)\<lparr>lastPick := now\<rparr>]\<rparr>))"
    using sm(1) unfolding p2c_pick_def nodes by (simp add: l1 l2 sw n1 n2 Let_def)
  with g6 mem show ?thesis by auto
qed

text \<open>\<open>Select\<close> counts the call at the index it returns and nowhere else, and bounds the map.\<close>

lemma p2c_Select_ok:
  assumes "p2c_ok s" "nodes \<noteq> []"
  shows "\<exists>n i s'. p2c_Select s x nodes = Inr (Inr (n, i), s') \<and> n \<in> set nodes \<and> p2c_ok s'
    \<and> i < length (pheap s') \<and> length (pheap s) \<le> length (pheap s')
    \<and> infl s' = (infl s)(i := infl s i + 1) \<and> length (pstate s') \<le> length nodes"
proof -
  obtain n s1 where p: "p2c_pick s nodes (fst x) (snd x) = Inr (n, s1)" "n \<in> set nodes" "grows s s1"
    using p2c_pick_grows [OF assms] by blast
  obtain i s2 where nd: "p2c_node s1 (Address n) (snd x) = (i, s2)" by (cases "p2c_node s1 (Address n) (snd x)")
  note g = p2c_node_grows [OF grows_ok [OF p(3)] nd]
  have gs: "grows s s2" using p(3) g(1) grows_trans by blast
  let ?n = "(pheap s2 ! i)\<lparr>inflight := inflight (pheap s2 ! i) + 1\<rparr>"
  let ?s3 = "s2\<lparr>pheap := (pheap s2)[i := ?n]\<rparr>"
  have "node_ok (pheap s2 ! i)" using gs g(2) by (simp add: grows_def p2c_ok_def)
  then have "\<forall>m \<in> set ((pheap s2)[i := ?n]). node_ok m"
    using gs set_update_subset_insert [of "pheap s2" i ?n] by (auto simp: grows_def p2c_ok_def node_ok_def)
  then have ok3: "p2c_ok ?s3" using gs by (auto simp: grows_def p2c_ok_def)
  have infl3: "infl ?s3 = (infl s)(i := infl s i + 1)"
  proof -
    have "infl ?s3 = (infl s2)(i := infl s2 i + 1)" using g(2) by (auto simp: infl_def fun_eq_iff nth_list_update)
    then show ?thesis using gs by (simp add: grows_def)
  qed
  let ?s' = "p2c_prune ?s3 nodes"
  have heap: "pheap ?s' = pheap ?s3" by (simp add: p2c_prune_def)
  have ok': "p2c_ok ?s'" using ok3
    by (auto simp: p2c_prune_def p2c_ok_def distinct_map_filter intro: distinct_map_filter)
  have size: "length (pstate ?s') \<le> length nodes"
  proof (cases "length (pstate ?s3) \<le> length nodes")
    case True
    then show ?thesis by (simp add: p2c_prune_def)
  next
    case False
    then have st: "pstate ?s' = filter (\<lambda>(addr, _). addr \<in> Address ` set nodes) (pstate s2)"
      by (simp add: p2c_prune_def)
    have "length (pstate ?s') = card (fst ` set (pstate ?s'))"
      using ok' by (metis p2c_ok_def distinct_card length_map list.set_map)
    also have "\<dots> \<le> card (Address ` set nodes)" by (intro card_mono) (auto simp: st)
    also have "\<dots> \<le> card (set nodes)" by (rule card_image_le) simp
    also have "\<dots> \<le> length nodes" by (rule card_length)
    finally show ?thesis .
  qed
  have sel: "p2c_Select s x nodes = Inr (Inr (n, i), ?s')"
    using assms(2) p(1) nd by (simp add: p2c_Select_def Let_def)
  have "infl ?s' = infl ?s3" by (simp add: infl_def heap fun_eq_iff)
  moreover have "length (pheap s) \<le> length (pheap ?s')" using gs heap by (simp add: grows_def)
  ultimately show ?thesis using sel p(2) ok' g(2) heap infl3 size by auto
qed

lemma p2c_Done_ok:
  assumes "p2c_ok s" "i < length (pheap s)" "\<And>x. x \<le> 0 \<Longrightarrow> 0 \<le> Exp x \<and> Exp x \<le> 1"
  shows "p2c_ok (p2c_Done Exp s i start now e)"
    "infl (p2c_Done Exp s i start now e) = (infl s)(i := infl s i - 1)"
    "length (pheap (p2c_Done Exp s i start now e)) = length (pheap s)"
proof -
  let ?n = "p2c_done Exp (pheap s ! i) start now e"
  have "node_ok (pheap s ! i)" using assms(1,2) by (simp add: p2c_ok_def)
  note d = p2c_done_ok [OF this assms(3)]
  have "\<forall>m \<in> set ((pheap s)[i := ?n]). node_ok m"
    using assms(1) d(1) set_update_subset_insert [of "pheap s" i ?n] by (auto simp: p2c_ok_def)
  then show "p2c_ok (p2c_Done Exp s i start now e)" using assms(1) by (auto simp: p2c_Done_def p2c_ok_def)
  show "infl (p2c_Done Exp s i start now e) = (infl s)(i := infl s i - 1)"
    using assms(2) d(2) by (auto simp: infl_def p2c_Done_def fun_eq_iff nth_list_update)
  show "length (pheap (p2c_Done Exp s i start now e)) = length (pheap s)" by (simp add: p2c_Done_def)
qed

section \<open>Interleaved calls\<close>

text \<open>
  A run of selections and of completions of outstanding calls, in any order. \<open>outstanding\<close> holds for each
  call not yet done the index and the start time that its \<open>DoneFunc\<close> captured.
\<close>

record p2c_sys =
  sel_state :: p2c
  outstanding :: "(nat \<times> time) list"

inductive p2c_step :: "(float64 \<Rightarrow> float64) \<Rightarrow> p2c_sys \<Rightarrow> p2c_sys \<Rightarrow> bool" for Exp where
  selected: "p2c_Select (sel_state y) (draws, now) nodes = Inr (Inr (n, i), s') \<Longrightarrow>
    p2c_step Exp y \<lparr>sel_state = s', outstanding = outstanding y @ [(i, now)]\<rparr>"
| refused: "p2c_Select (sel_state y) (draws, now) nodes = Inr (Inl e, s') \<Longrightarrow>
    p2c_step Exp y (y\<lparr>sel_state := s'\<rparr>)"
| finished: "outstanding y = as @ (i, start) # bs \<Longrightarrow>
    p2c_step Exp y \<lparr>sel_state = p2c_Done Exp (sel_state y) i start now e, outstanding = as @ bs\<rparr>"

inductive p2c_reach :: "(float64 \<Rightarrow> float64) \<Rightarrow> p2c_sys \<Rightarrow> p2c_sys \<Rightarrow> bool" for Exp y0 where
  p2c_init: "p2c_reach Exp y0 y0"
| p2c_more: "p2c_reach Exp y0 y \<Longrightarrow> p2c_step Exp y y' \<Longrightarrow> p2c_reach Exp y0 y'"

definition p2c_new :: p2c_sys where
  "p2c_new = \<lparr>sel_state = \<lparr>pstate = [], pheap = []\<rparr>, outstanding = []\<rparr>"

definition p2c_inv :: "p2c_sys \<Rightarrow> bool" where
  "p2c_inv y \<longleftrightarrow> p2c_ok (sel_state y) \<and> (\<forall>o1 \<in> set (outstanding y). fst o1 < length (pheap (sel_state y)))
     \<and> (\<forall>i. infl (sel_state y) i = int (length (filter (\<lambda>o1. fst o1 = i) (outstanding y))))"

lemma p2c_inv_step:
  assumes "p2c_step Exp y y'" "p2c_inv y" "\<And>x. x \<le> 0 \<Longrightarrow> 0 \<le> Exp x \<and> Exp x \<le> 1"
  shows "p2c_inv y'"
  using assms(1,2)
proof (induction rule: p2c_step.induct)
  case (selected y draws now nodes n i s')
  have ne: "nodes \<noteq> []" using selected(1) by (auto simp: p2c_Select_def)
  have ok: "p2c_ok (sel_state y)" using selected(2) by (simp add: p2c_inv_def)
  from p2c_Select_ok [OF ok ne, of "(draws, now)"] selected(1)
  have "p2c_ok s'" "i < length (pheap s')" "length (pheap (sel_state y)) \<le> length (pheap s')"
      "infl s' = (infl (sel_state y))(i := infl (sel_state y) i + 1)" by auto
  then show ?case using selected(2) by (fastforce simp: p2c_inv_def)
next
  case (refused y draws now nodes e s')
  have "nodes = []"
    using p2c_Select_ok [of "sel_state y" nodes "(draws, now)"] refused by (cases "nodes = []") (auto simp: p2c_inv_def)
  then have "s' = sel_state y" using refused(1) by (simp add: p2c_Select_def)
  then show ?case using refused(2) by (simp add: p2c_inv_def)
next
  case (finished y as i start bs now e)
  have ok: "p2c_ok (sel_state y)" "i < length (pheap (sel_state y))" using finished by (auto simp: p2c_inv_def)
  note d = p2c_Done_ok [OF ok assms(3), where start = start and now = now and e = e]
  show ?case using finished d by (auto simp: p2c_inv_def)
qed

lemma p2c_inv_reach:
  assumes "p2c_reach Exp y0 y" "p2c_inv y0" "\<And>x. x \<le> 0 \<Longrightarrow> 0 \<le> Exp x \<and> Exp x \<le> 1"
  shows "p2c_inv y"
  using assms by (induction rule: p2c_reach.induct) (auto intro: p2c_inv_step)

text \<open>
  C14. In every interleaving of selections (over changing candidate sets, with pruning) and completions,
  each node record counts exactly the calls that were started on it and have not completed, so the count
  is never negative; its latency estimate is non-negative and its success estimate stays between 0 and
  1000; and the next selection over non-empty candidates returns one of them and leaves at most as many
  map entries as there are candidates.
\<close>

theorem p2c_accounting:
  assumes "p2c_reach Exp p2c_new y" "\<forall>x \<le> 0. 0 \<le> Exp x \<and> Exp x \<le> 1" "nodes \<noteq> []"
  shows "(\<forall>i < length (pheap (sel_state y)). let n = pheap (sel_state y) ! i in
      inflight n = int (length (filter (\<lambda>o1. fst o1 = i) (outstanding y)))
      \<and> 0 \<le> lag n \<and> 0 \<le> success n \<and> success n \<le> 1000)
    \<and> (\<exists>n i s'. p2c_Select (sel_state y) x nodes = Inr (Inr (n, i), s') \<and> n \<in> set nodes
         \<and> length (pstate s') \<le> length nodes)"
proof -
  have "p2c_inv p2c_new" by (simp add: p2c_inv_def p2c_new_def p2c_ok_def infl_def)
  then have inv: "p2c_inv y" using p2c_inv_reach [OF assms(1)] assms(2) by blast
  then have ok: "p2c_ok (sel_state y)" by (simp add: p2c_inv_def)
  have "node_ok (pheap (sel_state y) ! i)" if "i < length (pheap (sel_state y))" for i
    using ok that by (simp add: p2c_ok_def)
  moreover have "inflight (pheap (sel_state y) ! i) = int (length (filter (\<lambda>o1. fst o1 = i) (outstanding y)))"
    if "i < length (pheap (sel_state y))" for i
    using inv that unfolding p2c_inv_def infl_def by metis
  ultimately show ?thesis using p2c_Select_ok [OF ok assms(3), of x]
    unfolding Let_def node_ok_def initSuccess_def by blast
qed

theorem p2c_accounting_witness:
  "\<exists>n i s'. p2c_Select (sel_state p2c_new) (\<lambda>k. (k, k + 1), 5) three_nodes = Inr (Inr (n, i), s')
     \<and> n \<in> set three_nodes \<and> length (pstate s') \<le> length three_nodes"
  using p2c_accounting [of "\<lambda>x. 1 / 2" p2c_new three_nodes "(\<lambda>k. (k, k + 1), 5)", OF p2c_reach.p2c_init]
  by (simp add: three_nodes_def)

end
