(* ===== verification/Balancer.thy ===== *)
theory Balancer
  imports P2C
begin

text \<open>
  \<open>pkg/client/balancer\<close>: the adapter that makes the selectors usable as a gRPC balancer. gRPC hands the
  builder the ready connections with their address attributes; the model takes them as a list in the
  order in which the builder's loop over that map happens to visit them. Selector instances are shared
  between pickers through the builder's table, so a picker holds the table's key and not a copy.
\<close>

section \<open>The strategies behind one interface\<close>

datatype strategy =
    RoundRobinS "64 word"
  | RandomS
  | WeightedS
  | P2cS p2c

record pick_env =
  rdraw :: nat
  rdraws :: "nat \<Rightarrow> nat \<times> nat"
  rnow :: time

definition strategy_select :: "strategy \<Rightarrow> pick_env \<Rightarrow> node list \<Rightarrow> ((err + node) \<times> strategy) go" where
  "strategy_select st x nodes =
     (case st of
        RoundRobinS c \<Rightarrow> (case roundrobin_Select c () nodes of Inl p \<Rightarrow> Inl p | Inr (r, c) \<Rightarrow> Inr (r, RoundRobinS c))
      | RandomS \<Rightarrow> (case random_Select () (rdraw x) nodes of Inl p \<Rightarrow> Inl p | Inr (r, _) \<Rightarrow> Inr (r, RandomS))
      | WeightedS \<Rightarrow> (case weighted_Select () (rdraw x) nodes of Inl p \<Rightarrow> Inl p | Inr (r, _) \<Rightarrow> Inr (r, WeightedS))
      | P2cS s \<Rightarrow> (case p2c_Select s (rdraws x, rnow x) nodes of
            Inl p \<Rightarrow> Inl p
          | Inr (Inl e, s) \<Rightarrow> Inr (Inl e, P2cS s)
          | Inr (Inr (n, _), s) \<Rightarrow> Inr (Inr n, P2cS s)))"

text \<open>The factories that the \<open>init\<close> functions of the four strategy packages register.\<close>

definition factories :: "string \<rightharpoonup> (unit \<Rightarrow> strategy)" where
  "factories =
     RegisterSelector (RegisterSelector (RegisterSelector (RegisterSelector Map.empty
       ''p2c'' (\<lambda>_. P2cS \<lparr>pstate = [], pheap = []\<rparr>))
       ''random'' (\<lambda>_. RandomS))
       ''round_robin'' (\<lambda>_. RoundRobinS 0))
       ''weighted'' (\<lambda>_. WeightedS)"

definition newSelector :: "string \<Rightarrow> strategy option" where
  "newSelector name =
     (case GetSelector factories name of
        Inr s \<Rightarrow> Some s
      | Inl _ \<Rightarrow> (case GetSelector factories ''round_robin'' of Inr s \<Rightarrow> Some s | Inl _ \<Rightarrow> None))"

section \<open>Builder and picker\<close>

record 'sc subConn =
  conn :: 'sc
  addr :: string
  strategyAttr :: "string option"
  serviceAttr :: "string option"
  weightAttr :: "int option"

definition ErrNoSubConnAvailable :: err where
  "ErrNoSubConnAvailable = ErrString ''no SubConn is available''"

record pickerBuilder =
  selTable :: "string \<rightharpoonup> strategy option"

record 'sc picker =
  pkey :: string
  scByAddr :: "string \<rightharpoonup> 'sc"
  pnodes :: "node list"

record 'sc build_vars =
  vstrategy :: string
  vservice :: string
  vnodes :: "node list"
  vscs :: "string \<rightharpoonup> 'sc"

definition build_step :: "'sc build_vars \<Rightarrow> 'sc subConn \<Rightarrow> 'sc build_vars" where
  "build_step v sc =
     (let v = (case strategyAttr sc of Some s \<Rightarrow> if s \<noteq> [] then v\<lparr>vstrategy := s\<rparr> else v | None \<Rightarrow> v);
          v = (case serviceAttr sc of Some s \<Rightarrow> if s \<noteq> [] then v\<lparr>vservice := s\<rparr> else v | None \<Rightarrow> v);
          weight = (case weightAttr sc of Some w \<Rightarrow> if w \<ge> 0 then w else 100 | None \<Rightarrow> 100)
      in v\<lparr>vnodes := vnodes v @ [NewNode (addr sc) [] [] weight Map.empty],
           vscs := (vscs v)(addr sc \<mapsto> conn sc)\<rparr>)"

definition Build :: "pickerBuilder \<Rightarrow> 'sc subConn list \<Rightarrow> (err + 'sc picker) \<times> pickerBuilder" where
  "Build b ready =
     (if length ready = 0 then (Inl ErrNoSubConnAvailable, b)
      else let v = foldl build_step \<lparr>vstrategy = ''round_robin'', vservice = [], vnodes = [], vscs = Map.empty\<rparr> ready;
               key = vstrategy v @ CHR 0x00 # vservice v;
               b = (case selTable b key of
                      Some _ \<Rightarrow> b | None \<Rightarrow> b\<lparr>selTable := (selTable b)(key \<mapsto> newSelector (vstrategy v))\<rparr>)
           in case selTable b key of
                Some (Some _) \<Rightarrow> (Inr \<lparr>pkey = key, scByAddr = vscs v, pnodes = vnodes v\<rparr>, b)
              | _ \<Rightarrow> (Inl (ErrString ''balancer: no selector for strategy''), b))"

text \<open>\<open>Pick\<close> runs the shared selector; the table is updated with its new state.\<close>

definition Pick :: "pickerBuilder \<Rightarrow> 'sc picker \<Rightarrow> pick_env \<Rightarrow> ((err + 'sc) \<times> pickerBuilder) go" where
  "Pick b p x =
     (case selTable b (pkey p) of
        Some (Some st) \<Rightarrow>
          (case strategy_select st x (pnodes p) of
             Inl e \<Rightarrow> Inl e
           | Inr (r, st) \<Rightarrow>
               (let b = b\<lparr>selTable := (selTable b)(pkey p \<mapsto> Some st)\<rparr>
                in case r of
                     Inl e \<Rightarrow> Inr (Inl e, b)
                   | Inr n \<Rightarrow> (case scByAddr p (Address n) of
                         None \<Rightarrow> Inr (Inl ErrNoSubConnAvailable, b)
                       | Some sc \<Rightarrow> Inr (Inr sc, b))))
      | _ \<Rightarrow> Inl (Panic ''nil selector''))"

section \<open>Correctness\<close>

definition strategy_ok :: "strategy \<Rightarrow> bool" where
  "strategy_ok st \<longleftrightarrow> (case st of P2cS s \<Rightarrow> p2c_ok s | _ \<Rightarrow> True)"

definition builder_ok :: "pickerBuilder \<Rightarrow> bool" where
  "builder_ok b \<longleftrightarrow> (\<forall>key s. selTable b key = Some s \<longrightarrow> (\<exists>st. s = Some st \<and> strategy_ok st))"

lemma newSelector_ok: "\<exists>st. newSelector name = Some st \<and> strategy_ok st"
proof -
  have "\<exists>st. GetSelector factories ''round_robin'' = Inr st \<and> strategy_ok st"
    by (simp add: GetSelector_def factories_def RegisterSelector_def strategy_ok_def)
  moreover have "strategy_ok st" if "GetSelector factories name = Inr st" for st
    using that by (auto simp: GetSelector_def factories_def RegisterSelector_def strategy_ok_def p2c_ok_def
        split: if_splits)
  ultimately show ?thesis by (auto simp: newSelector_def split: sum.splits)
qed

lemma strategy_select_ok:
  assumes "strategy_ok st" "nodes \<noteq> []" "slice_ok nodes"
  shows "\<exists>n st'. strategy_select st x nodes = Inr (Inr n, st') \<and> n \<in> set nodes \<and> strategy_ok st'"
proof (cases st)
  case (RoundRobinS c)
  then show ?thesis using rr.select_member [OF assms(2,3), of c "()"]
    by (auto simp: strategy_select_def strategy_ok_def)
next
  case RandomS
  then show ?thesis using rand.select_member [OF assms(2,3), of "()" "rdraw x"]
    by (auto simp: strategy_select_def strategy_ok_def)
next
  case WeightedS
  then show ?thesis using wrand.select_member [OF assms(2,3), of "()" "rdraw x"]
    by (auto simp: strategy_select_def strategy_ok_def)
next
  case (P2cS s)
  then have "p2c_ok s" using assms(1) by (simp add: strategy_ok_def)
  from p2c_Select_ok [OF this assms(2), of "(rdraws x, rnow x)"] show ?thesis
    using P2cS by (auto simp: strategy_select_def strategy_ok_def)
qed

text \<open>The loop of \<open>Build\<close> turns every ready connection into a node and keeps a connection per address.\<close>

lemma build_fold:
  "(\<forall>a. vscs (foldl build_step v ready) a \<noteq> None \<longleftrightarrow> vscs v a \<noteq> None \<or> a \<in> addr ` set ready)
   \<and> (\<forall>a sc. vscs (foldl build_step v ready) a = Some sc \<longrightarrow>
        vscs v a = Some sc \<or> (\<exists>r \<in> set ready. addr r = a \<and> conn r = sc))
   \<and> map Address (vnodes (foldl build_step v ready)) = map Address (vnodes v) @ map addr ready"
proof (induction ready arbitrary: v)
  case (Cons r ready)
  have st: "vscs (build_step v r) = (vscs v)(addr r \<mapsto> conn r)"
      "map Address (vnodes (build_step v r)) = map Address (vnodes v) @ [addr r]"
    by (auto simp: build_step_def NewNode_def Let_def split: option.splits)
  show ?case using Cons [of "build_step v r"] by (auto simp: st split: if_splits)
qed simp

text \<open>
  From every table of selectors that calls can produce, building a picker for ready connections
  succeeds, and every pick, with any strategy name (an unknown one falls back to round robin) and in
  whatever order other pickers use the shared selectors, returns one of the ready connections: never an
  error and never a panic.
\<close>

theorem picker_total:
  assumes "builder_ok b" "ready \<noteq> []" "slice_ok ready"
  shows "\<exists>p b'. Build b ready = (Inr p, b') \<and> builder_ok b'
    \<and> (\<forall>b2 x. builder_ok b2 \<and> selTable b2 (pkey p) \<noteq> None \<longrightarrow>
         (\<exists>r b3. Pick b2 p x = Inr (Inr (conn r), b3) \<and> r \<in> set ready \<and> builder_ok b3
            \<and> selTable b3 (pkey p) \<noteq> None))
    \<and> selTable b' (pkey p) \<noteq> None"
proof -
  let ?v0 = "\<lparr>vstrategy = ''round_robin'', vservice = [], vnodes = [], vscs = Map.empty\<rparr>"
  define v where "v = foldl build_step ?v0 ready"
  define key where "key = vstrategy v @ CHR 0x00 # vservice v"
  define b' where "b' = (case selTable b key of Some _ \<Rightarrow> b
      | None \<Rightarrow> b\<lparr>selTable := (selTable b)(key \<mapsto> newSelector (vstrategy v))\<rparr>)"
  have ok': "builder_ok b'" using assms(1) newSelector_ok [of "vstrategy v"]
    by (auto simp: b'_def builder_ok_def split: option.splits)
  have "selTable b' key \<noteq> None" by (simp add: b'_def split: option.splits)
  then obtain st where st: "selTable b' key = Some (Some st)" using ok' by (auto simp: builder_ok_def)
  let ?p = "\<lparr>pkey = key, scByAddr = vscs v, pnodes = vnodes v\<rparr>"
  have build: "Build b ready = (Inr ?p, b')"
    unfolding Build_def Let_def v_def [symmetric] key_def [symmetric] b'_def [symmetric]
    using assms(2) st by simp
  have f: "map Address (vnodes v) = map addr ready"
      "\<And>a. vscs v a \<noteq> None \<longleftrightarrow> a \<in> addr ` set ready"
      "\<And>a sc. vscs v a = Some sc \<Longrightarrow> \<exists>r \<in> set ready. addr r = a \<and> conn r = sc"
    using build_fold [of ?v0 ready] by (auto simp: v_def)
  have len: "length (vnodes v) = length ready" using f(1) by (metis length_map)
  have ne: "vnodes v \<noteq> []" "slice_ok (vnodes v)" using len assms(2,3) by (auto simp: slice_ok_def)
  have "\<exists>r b3. Pick b2 ?p x = Inr (Inr (conn r), b3) \<and> r \<in> set ready \<and> builder_ok b3
      \<and> selTable b3 key \<noteq> None"
    if b2: "builder_ok b2" "selTable b2 key \<noteq> None" for b2 x
  proof -
    obtain s2 where s2: "selTable b2 key = Some (Some s2)" "strategy_ok s2" using b2 by (auto simp: builder_ok_def)
    obtain n s3 where n: "strategy_select s2 x (vnodes v) = Inr (Inr n, s3)" "n \<in> set (vnodes v)" "strategy_ok s3"
      using strategy_select_ok [OF s2(2) ne] by blast
    have "Address n \<in> addr ` set ready" using n(2) f(1) by (metis image_eqI list.set_map)
    then obtain sc where sc: "vscs v (Address n) = Some sc" using f(2) by blast
    then obtain r where r: "r \<in> set ready" "conn r = sc" using f(3) by blast
    have "builder_ok (b2\<lparr>selTable := (selTable b2)(key \<mapsto> Some s3)\<rparr>)"
      using b2(1) n(3) by (auto simp: builder_ok_def)
    with s2 n sc r show ?thesis by (auto simp: Pick_def Let_def)
  qed
  with build ok' st show ?thesis by auto
qed

theorem picker_total_witness:
  "\<exists>p b'. Build \<lparr>selTable = Map.empty\<rparr>
      [\<lparr>conn = 7 :: nat, addr = ''10.0.0.1:80'', strategyAttr = Some ''unknown'', serviceAttr = None, weightAttr = None\<rparr>]
      = (Inr p, b') \<and> builder_ok b'"
proof -
  have "builder_ok \<lparr>selTable = Map.empty\<rparr>" by (simp add: builder_ok_def)
  from picker_total [OF this, of "[\<lparr>conn = 7 :: nat, addr = ''10.0.0.1:80'', strategyAttr = Some ''unknown'',
      serviceAttr = None, weightAttr = None\<rparr>]"]
  show ?thesis by (auto simp: slice_ok_def)
qed

end
