(* ===== verification/SafeMap.thy ===== *)
theory SafeMap
  imports Prelude "HOL-Library.AList"
begin

text \<open>
  \<open>pkg/core/collection\<close>: \<open>Set\<close> (\<open>set.go\<close>) and the map that rebuilds its storage after heavy deletions
  (\<open>safemap.go\<close>). A Go map is an association list in the order its iteration happens to take. The locale
  \<open>finite_map\<close> states what a client of a map relies on; both structures are instances.
\<close>

section \<open>Set\<close>

type_synonym 'a gset = "('a \<times> unit) list"

definition NewSet :: "'a gset" where "NewSet = []"

definition Set_Add :: "'a gset \<Rightarrow> 'a \<Rightarrow> 'a gset" where "Set_Add s v = AList.update v () s"

definition Set_Remove :: "'a gset \<Rightarrow> 'a \<Rightarrow> 'a gset" where "Set_Remove s v = AList.delete v s"

definition Set_Contains :: "'a gset \<Rightarrow> 'a \<Rightarrow> bool" where "Set_Contains s v \<longleftrightarrow> map_of s v \<noteq> None"

definition Set_Len :: "'a gset \<Rightarrow> nat" where "Set_Len s = length s"

definition Set_Values :: "'a gset \<Rightarrow> 'a list" where "Set_Values s = foldl (\<lambda>out (v, _). out @ [v]) [] s"

section \<open>SafeMap\<close>

definition rebuildThreshold :: nat where "rebuildThreshold = 1024"

record ('k, 'v) safeMap =
  sm_m :: "('k \<times> 'v) list"
  sm_deletions :: nat

definition NewSafeMap :: "('k, 'v) safeMap" where
  "NewSafeMap = \<lparr>sm_m = [], sm_deletions = 0\<rparr>"

definition SafeMap_Get :: "('k, 'v) safeMap \<Rightarrow> 'k \<Rightarrow> 'v option" where
  "SafeMap_Get sm key = map_of (sm_m sm) key"

definition maybeRebuildLocked :: "('k, 'v) safeMap \<Rightarrow> ('k, 'v) safeMap" where
  "maybeRebuildLocked sm =
     (if sm_deletions sm \<le> length (sm_m sm) \<or> length (sm_m sm) < rebuildThreshold then sm
      else let nm = foldl (\<lambda>nm (k, v). AList.update k v nm) [] (sm_m sm)
           in sm\<lparr>sm_m := nm, sm_deletions := 0\<rparr>)"

definition SafeMap_Set :: "('k, 'v) safeMap \<Rightarrow> 'k \<Rightarrow> 'v \<Rightarrow> ('k, 'v) safeMap" where
  "SafeMap_Set sm key value = maybeRebuildLocked (sm\<lparr>sm_m := AList.update key value (sm_m sm)\<rparr>)"

definition SafeMap_Del :: "('k, 'v) safeMap \<Rightarrow> 'k \<Rightarrow> ('k, 'v) safeMap" where
  "SafeMap_Del sm key =
     (if map_of (sm_m sm) key \<noteq> None
      then sm\<lparr>sm_m := AList.delete key (sm_m sm), sm_deletions := sm_deletions sm + 1\<rparr> else sm)"

definition SafeMap_Len :: "('k, 'v) safeMap \<Rightarrow> nat" where
  "SafeMap_Len sm = length (sm_m sm)"

text \<open>\<open>Range\<close> with a callback that works on a state and tells whether to go on.\<close>

fun range_loop :: "('k \<times> 'v) list \<Rightarrow> ('k \<Rightarrow> 'v \<Rightarrow> 's \<Rightarrow> bool \<times> 's) \<Rightarrow> 's \<Rightarrow> 's" where
  "range_loop [] fn s = s"
| "range_loop ((k, v) # es) fn s = (let (go, s) = fn k v s in if \<not> go then s else range_loop es fn s)"

definition SafeMap_Range :: "('k, 'v) safeMap \<Rightarrow> ('k \<Rightarrow> 'v \<Rightarrow> 's \<Rightarrow> bool \<times> 's) \<Rightarrow> 's \<Rightarrow> 's" where
  "SafeMap_Range sm fn s = range_loop (sm_m sm) fn s"

section \<open>The contract of a map\<close>

locale finite_map =
  fixes empty_map :: 'm
    and set_key :: "'m \<Rightarrow> 'k \<Rightarrow> 'v \<Rightarrow> 'm"
    and del_key :: "'m \<Rightarrow> 'k \<Rightarrow> 'm"
    and get_key :: "'m \<Rightarrow> 'k \<Rightarrow> 'v option"
    and len :: "'m \<Rightarrow> nat"
    and inv :: "'m \<Rightarrow> bool"
  assumes empty_inv: "inv empty_map" and empty_get: "get_key empty_map k = None"
    and set_inv: "inv m \<Longrightarrow> inv (set_key m k v)"
    and set_get: "inv m \<Longrightarrow> get_key (set_key m k v) = (get_key m)(k \<mapsto> v)"
    and del_inv: "inv m \<Longrightarrow> inv (del_key m k)"
    and del_get: "inv m \<Longrightarrow> get_key (del_key m k) = (get_key m)(k := None)"
    and len_card: "inv m \<Longrightarrow> finite (dom (get_key m)) \<and> len m = card (dom (get_key m))"
begin

text \<open>A history of writes (\<open>Some\<close>) and deletions (\<open>None\<close>), and the map it leaves.\<close>

definition write1 :: "'m \<Rightarrow> 'k \<times> 'v option \<Rightarrow> 'm" where
  "write1 m w = (case snd w of None \<Rightarrow> del_key m (fst w) | Some v \<Rightarrow> set_key m (fst w) v)"

definition writes :: "'m \<Rightarrow> ('k \<times> 'v option) list \<Rightarrow> 'm" where
  "writes = foldl write1"

lemma writes_inv: "inv m \<Longrightarrow> inv (writes m ws)"
  unfolding writes_def
  by (induction ws arbitrary: m) (auto simp: write1_def set_inv del_inv split: option.splits)

text \<open>A key holds what was last written to it.\<close>

lemma writes_get:
  "inv m \<Longrightarrow> get_key (writes m ws) k =
     (case map_of (rev ws) k of None \<Rightarrow> get_key m k | Some w \<Rightarrow> w)"
proof (induction ws rule: rev_induct)
  case (snoc w ws)
  have inv: "inv (writes m ws)" by (rule writes_inv [OF snoc.prems])
  have "writes m (ws @ [w]) = write1 (writes m ws) w" by (simp add: writes_def)
  then show ?case using snoc inv
    by (cases w) (auto simp: write1_def set_get del_get split: option.splits)
qed (simp add: writes_def)

lemma writes_len: "inv m \<Longrightarrow> len (writes m ws) = card (dom (get_key (writes m ws)))"
  using len_card writes_inv by blast

end

lemma update_new: "k \<notin> fst ` set al \<Longrightarrow> AList.update k v al = al @ [(k, v)]"
  by (induction al) auto

text \<open>Copying the entries in iteration order rebuilds the same association list.\<close>

lemma copy_entries:
  "distinct (map fst (acc @ xs)) \<Longrightarrow> foldl (\<lambda>nm (k, v). AList.update k v nm) acc xs = acc @ xs"
proof (induction xs arbitrary: acc)
  case (Cons x xs)
  obtain k v where x: "x = (k, v)" by (cases x)
  have "k \<notin> fst ` set acc" using Cons.prems x by auto
  then have "AList.update k v acc = acc @ [(k, v)]" by (rule update_new)
  then show ?case using Cons x by simp
qed simp

definition sm_inv :: "('k, 'v) safeMap \<Rightarrow> bool" where
  "sm_inv sm \<longleftrightarrow> distinct (map fst (sm_m sm))"

lemma maybeRebuild_same:
  assumes "sm_inv sm"
  shows "sm_m (maybeRebuildLocked sm) = sm_m sm"
  using assms copy_entries [of "[]" "sm_m sm"] by (simp add: maybeRebuildLocked_def sm_inv_def Let_def)

lemma card_dom_distinct: "distinct (map fst al) \<Longrightarrow> card (dom (map_of al)) = length al"
  by (metis distinct_card dom_map_of_conv_image_fst length_map set_map)

lemma maybeRebuild_bound:
  "sm_deletions (maybeRebuildLocked m) \<le> length (sm_m (maybeRebuildLocked m))
   \<or> length (sm_m (maybeRebuildLocked m)) < rebuildThreshold"
  by (auto simp: maybeRebuildLocked_def Let_def)

interpretation sm: finite_map NewSafeMap SafeMap_Set SafeMap_Del SafeMap_Get SafeMap_Len sm_inv
proof (unfold_locales, goal_cases)
  case (3 m k v)
  then have "sm_inv (m\<lparr>sm_m := AList.update k v (sm_m m)\<rparr>)" by (simp add: sm_inv_def distinct_update)
  then show ?case using maybeRebuild_same by (metis SafeMap_Set_def sm_inv_def)
next
  case (4 m k v)
  then have "sm_inv (m\<lparr>sm_m := AList.update k v (sm_m m)\<rparr>)" by (simp add: sm_inv_def distinct_update)
  from maybeRebuild_same [OF this] show ?case
    by (simp add: SafeMap_Set_def SafeMap_Get_def update_conv' fun_eq_iff)
next
  case (5 m k)
  then show ?case by (simp add: SafeMap_Del_def sm_inv_def distinct_delete)
next
  case (6 m k)
  then show ?case by (auto simp: SafeMap_Del_def SafeMap_Get_def delete_conv' fun_eq_iff)
next
  case (7 m)
  have "SafeMap_Get m = map_of (sm_m m)" by (rule ext) (simp add: SafeMap_Get_def)
  with 7 show ?case by (simp add: SafeMap_Len_def sm_inv_def card_dom_distinct finite_dom_map_of)
qed (simp_all add: NewSafeMap_def sm_inv_def SafeMap_Get_def)

interpretation gs: finite_map NewSet "\<lambda>s k v. Set_Add s k" Set_Remove "\<lambda>s k. map_of s k" Set_Len
    "\<lambda>s. distinct (map fst s)"
  by unfold_locales
     (simp_all add: NewSet_def Set_Add_def Set_Remove_def Set_Len_def distinct_update distinct_delete update_conv'
       delete_conv' card_dom_distinct finite_dom_map_of fun_eq_iff)

text \<open>
  The safe map is a map whatever its rebuilds do: after any history of \<open>Set\<close> and \<open>Del\<close> a key holds what
  was last written to it, \<open>Len\<close> is the number of keys present, and right after a \<open>Set\<close> the recorded
  deletions never exceed the live entries of a map of at least \<open>rebuildThreshold\<close> entries.
\<close>

theorem SafeMap_history:
  "SafeMap_Get (sm.writes NewSafeMap ws) k = (case map_of (rev ws) k of None \<Rightarrow> None | Some w \<Rightarrow> w)
   \<and> SafeMap_Len (sm.writes NewSafeMap ws) = card (dom (SafeMap_Get (sm.writes NewSafeMap ws)))
   \<and> (let m = SafeMap_Set (sm.writes NewSafeMap ws) k v
      in sm_deletions m \<le> SafeMap_Len m \<or> SafeMap_Len m < rebuildThreshold)"
  using sm.writes_get [OF sm.empty_inv, of ws k] sm.writes_len [OF sm.empty_inv, of ws]
    maybeRebuild_bound [of "sm.writes NewSafeMap ws\<lparr>sm_m := AList.update k v (sm_m (sm.writes NewSafeMap ws))\<rparr>"]
  by (simp add: sm.empty_get [of k] SafeMap_Set_def SafeMap_Len_def Let_def split: option.splits)

lemma Set_Values_members: "set (Set_Values s) = {v. Set_Contains s v}"
proof -
  have "foldl (\<lambda>out (v, _). out @ [v]) acc s = acc @ map fst s" for acc :: "'a list"
    by (induction s arbitrary: acc) auto
  then show ?thesis by (auto simp: Set_Values_def Set_Contains_def map_of_eq_None_iff)
qed

end
