(* ===== verification/TimingWheel.thy ===== *)
theory TimingWheel
  imports SafeMap Errno
begin

text \<open>
  \<open>pkg/core/collection/timingwheel.go\<close>. One goroutine owns the wheel: every operation that reaches it
  through a channel, and every tick, is one step on the state. Task entries are pointers shared between
  a slot's list and the timer table, so they live in a heap and both hold indices. The table \<open>timers\<close> is
  the safe map of \<open>safemap.go\<close>, which is a map (theory \<open>SafeMap\<close>). Executed tasks are the outputs of the
  steps. A key is \<open>None\<close> for nil.
\<close>

section \<open>Model\<close>

definition ErrClosed :: err where "ErrClosed = ErrString ''collection: timing wheel is closed''"
definition ErrArgument :: err where "ErrArgument = ErrString ''collection: incorrect timer argument''"

record ('k, 'v) timingEntry =
  tkey :: 'k
  tvalue :: 'v
  circle :: nat
  tdiff :: nat
  removed :: bool

record ('k, 'v) wheel =
  winterval :: duration
  slots :: "nat list list"
  timers :: "'k \<rightharpoonup> nat \<times> nat"
  tickedPos :: nat
  numSlots :: nat
  wheap :: "('k, 'v) timingEntry list"
  stopped :: bool

definition NewTimingWheel :: "duration \<Rightarrow> int \<Rightarrow> err + ('k, 'v) wheel" where
  "NewTimingWheel interval n =
     (if interval \<le> 0 \<or> n \<le> 0 then Inl (ErrString ''collection: interval, slots or execute'')
      else Inr \<lparr>winterval = interval, slots = replicate (nat n) [], timers = Map.empty,
                tickedPos = nat n - 1, numSlots = nat n, wheap = [], stopped = False\<rparr>)"

text \<open>Called with \<open>d\<close> at least one interval: \<open>steps\<close> is positive.\<close>

definition getPositionAndCircle :: "('k, 'v) wheel \<Rightarrow> duration \<Rightarrow> nat \<times> nat" where
  "getPositionAndCircle tw d =
     (let steps = nat (d sdiv winterval tw)
      in ((tickedPos tw + steps) mod numSlots tw, (steps - 1) div numSlots tw))"

definition setTimerPosition :: "('k, 'v) wheel \<Rightarrow> nat \<Rightarrow> nat \<Rightarrow> ('k, 'v) wheel" where
  "setTimerPosition tw pos i = tw\<lparr>timers := (timers tw)(tkey (wheap tw ! i) \<mapsto> (pos, i))\<rparr>"

definition push_slot :: "('k, 'v) wheel \<Rightarrow> nat \<Rightarrow> nat \<Rightarrow> ('k, 'v) wheel" where
  "push_slot tw pos i = tw\<lparr>slots := (slots tw)[pos := slots tw ! pos @ [i]]\<rparr>"

definition upd_entry :: "('k, 'v) wheel \<Rightarrow> nat \<Rightarrow> (('k, 'v) timingEntry \<Rightarrow> ('k, 'v) timingEntry) \<Rightarrow> ('k, 'v) wheel" where
  "upd_entry tw i f = tw\<lparr>wheap := (wheap tw)[i := f (wheap tw ! i)]\<rparr>"

definition new_entry :: "('k, 'v) wheel \<Rightarrow> ('k, 'v) timingEntry \<Rightarrow> nat \<times> ('k, 'v) wheel" where
  "new_entry tw e = (length (wheap tw), tw\<lparr>wheap := wheap tw @ [e]\<rparr>)"

text \<open>\<open>moveTask\<close> returns what it executes at once.\<close>

definition moveTask :: "('k, 'v) wheel \<Rightarrow> 'k \<Rightarrow> duration \<Rightarrow> ('k \<times> 'v) list \<times> ('k, 'v) wheel" where
  "moveTask tw key delay =
     (case timers tw key of
        None \<Rightarrow> ([], tw)
      | Some (tpos, i) \<Rightarrow>
          if delay < winterval tw then ([(tkey (wheap tw ! i), tvalue (wheap tw ! i))], tw)
          else
            (let (pos, c) = getPositionAndCircle tw delay
             in if pos \<ge> tpos then ([], upd_entry tw i (\<lambda>e. e\<lparr>circle := c, tdiff := pos - tpos\<rparr>))
                else if c > 0 then
                  (let c = c - 1 in ([], upd_entry tw i (\<lambda>e. e\<lparr>circle := c, tdiff := numSlots tw + pos - tpos\<rparr>)))
                else
                  (let tw = upd_entry tw i (\<lambda>e. e\<lparr>removed := True\<rparr>);
                       (j, tw) = new_entry tw \<lparr>tkey = key, tvalue = tvalue (wheap tw ! i), circle = 0,
                                              tdiff = 0, removed = False\<rparr>;
                       tw = push_slot tw pos j
                   in ([], setTimerPosition tw pos j))))"

definition setTask :: "('k, 'v) wheel \<Rightarrow> 'k \<Rightarrow> 'v \<Rightarrow> duration \<Rightarrow> ('k \<times> 'v) list \<times> ('k, 'v) wheel" where
  "setTask tw key value delay =
     (let delay = (if delay < winterval tw then winterval tw else delay)
      in case timers tw key of
           Some (tpos, i) \<Rightarrow> moveTask (upd_entry tw i (\<lambda>e. e\<lparr>tvalue := value\<rparr>)) key delay
         | None \<Rightarrow>
             (let (pos, c) = getPositionAndCircle tw delay;
                  (i, tw) = new_entry tw \<lparr>tkey = key, tvalue = value, circle = c, tdiff = 0, removed = False\<rparr>;
                  tw = push_slot tw pos i
              in ([], setTimerPosition tw pos i)))"

definition removeTask :: "('k, 'v) wheel \<Rightarrow> 'k \<Rightarrow> ('k, 'v) wheel" where
  "removeTask tw key =
     (case timers tw key of
        None \<Rightarrow> tw
      | Some (tpos, i) \<Rightarrow>
          (let tw = upd_entry tw i (\<lambda>e. e\<lparr>removed := True\<rparr>) in tw\<lparr>timers := (timers tw)(key := None)\<rparr>))"

text \<open>
  The scan of a slot's list: the entries kept, the tasks to run, and the wheel. An entry moved on by its
  \<open>diff\<close> goes to another slot, since \<open>diff\<close> is below the number of slots, so the list scanned is not
  extended while it is scanned.
\<close>

fun scan :: "('k, 'v) wheel \<Rightarrow> nat list \<Rightarrow> nat list \<Rightarrow> ('k \<times> 'v) list \<Rightarrow> ('k, 'v) wheel \<times> nat list \<times> ('k \<times> 'v) list" where
  "scan tw [] kept tasks = (tw, kept, tasks)"
| "scan tw (i # is) kept tasks =
     (let e = wheap tw ! i in
      if removed e then scan tw is kept tasks
      else if circle e > 0 then scan (upd_entry tw i (\<lambda>e. e\<lparr>circle := circle e - 1\<rparr>)) is (kept @ [i]) tasks
      else if tdiff e > 0 then
        (let pos = (tickedPos tw + tdiff e) mod numSlots tw;
             tw = setTimerPosition (push_slot tw pos i) pos i
         in scan (upd_entry tw i (\<lambda>e. e\<lparr>tdiff := 0\<rparr>)) is kept tasks)
      else scan (tw\<lparr>timers := (timers tw)(tkey e := None)\<rparr>) is kept (tasks @ [(tkey e, tvalue e)]))"

definition scanAndRunTasks :: "('k, 'v) wheel \<Rightarrow> nat \<Rightarrow> ('k \<times> 'v) list \<times> ('k, 'v) wheel" where
  "scanAndRunTasks tw p =
     (let (tw, kept, tasks) = scan tw (slots tw ! p) [] []
      in (tasks, tw\<lparr>slots := (slots tw)[p := kept]\<rparr>))"

definition onTick :: "('k, 'v) wheel \<Rightarrow> ('k \<times> 'v) list \<times> ('k, 'v) wheel" where
  "onTick tw =
     (let tw = tw\<lparr>tickedPos := (tickedPos tw + 1) mod numSlots tw\<rparr> in scanAndRunTasks tw (tickedPos tw))"

text \<open>\<open>drainAll\<close>: every slot is emptied and the live entries are handed to the callback.\<close>

definition drainAll :: "('k, 'v) wheel \<Rightarrow> ('k \<times> 'v) list \<times> ('k, 'v) wheel" where
  "drainAll tw =
     (let ids = concat (slots tw);
          tasks = map (\<lambda>i. (tkey (wheap tw ! i), tvalue (wheap tw ! i))) (filter (\<lambda>i. \<not> removed (wheap tw ! i)) ids);
          tm = foldl (\<lambda>m i. case m (tkey (wheap tw ! i)) of
                  Some (_, j) \<Rightarrow> if j = i then m(tkey (wheap tw ! i) := None) else m | None \<Rightarrow> m) (timers tw) ids
      in (tasks, tw\<lparr>slots := map (\<lambda>_. []) (slots tw), timers := tm\<rparr>))"

text \<open>The calls of the API: an argument check, then the channel to the wheel's goroutine or its stop.\<close>

definition SetTimer :: "('k, 'v) wheel \<Rightarrow> 'k option \<Rightarrow> 'v \<Rightarrow> duration \<Rightarrow> err option \<times> ('k \<times> 'v) list \<times> ('k, 'v) wheel" where
  "SetTimer tw key value delay =
     (case key of
        None \<Rightarrow> (Some ErrArgument, [], tw)
      | Some k \<Rightarrow> if delay \<le> 0 then (Some ErrArgument, [], tw)
                  else if stopped tw then (Some ErrClosed, [], tw) else (None, setTask tw k value delay))"

definition MoveTimer :: "('k, 'v) wheel \<Rightarrow> 'k option \<Rightarrow> duration \<Rightarrow> err option \<times> ('k \<times> 'v) list \<times> ('k, 'v) wheel" where
  "MoveTimer tw key delay =
     (case key of
        None \<Rightarrow> (Some ErrArgument, [], tw)
      | Some k \<Rightarrow> if delay \<le> 0 then (Some ErrArgument, [], tw)
                  else if stopped tw then (Some ErrClosed, [], tw) else (None, moveTask tw k delay))"

definition RemoveTimer :: "('k, 'v) wheel \<Rightarrow> 'k option \<Rightarrow> err option \<times> ('k, 'v) wheel" where
  "RemoveTimer tw key =
     (case key of
        None \<Rightarrow> (Some ErrArgument, tw)
      | Some k \<Rightarrow> if stopped tw then (Some ErrClosed, tw) else (None, removeTask tw k))"

definition Drain :: "('k, 'v) wheel \<Rightarrow> err option \<times> ('k \<times> 'v) list \<times> ('k, 'v) wheel" where
  "Drain tw = (if stopped tw then (Some ErrClosed, [], tw) else (None, drainAll tw))"

definition Stop :: "('k, 'v) wheel \<Rightarrow> ('k, 'v) wheel" where
  "Stop tw = tw\<lparr>stopped := True\<rparr>"

section \<open>Remaining ticks\<close>

text \<open>The number of ticks until the wheel's position reaches slot \<open>q\<close>, from 1 to the number of slots.\<close>

definition dist :: "nat \<Rightarrow> nat \<Rightarrow> nat \<Rightarrow> nat" where
  "dist n p q = (if q > p then q - p else q + n - p)"

definition due_of :: "('k, 'v) wheel \<Rightarrow> nat \<Rightarrow> nat \<Rightarrow> nat" where
  "due_of tw q i = dist (numSlots tw) (tickedPos tw) q + circle (wheap tw ! i) * numSlots tw + tdiff (wheap tw ! i)"

text \<open>What the wheel promises for a key: the ticks until it fires, and the value it fires with.\<close>

definition pending :: "('k, 'v) wheel \<Rightarrow> 'k \<rightharpoonup> nat \<times> 'v" where
  "pending tw k = (case timers tw k of None \<Rightarrow> None | Some (q, i) \<Rightarrow> Some (due_of tw q i, tvalue (wheap tw ! i)))"

text \<open>The invariant: live entries and table entries correspond to each other.\<close>

definition live :: "('k, 'v) wheel \<Rightarrow> nat \<Rightarrow> bool" where
  "live tw i \<longleftrightarrow> \<not> removed (wheap tw ! i)"

definition slots_ok :: "('k, 'v) wheel \<Rightarrow> bool" where
  "slots_ok tw \<longleftrightarrow> (\<forall>q < numSlots tw. distinct (slots tw ! q) \<and> (\<forall>i \<in> set (slots tw ! q). i < length (wheap tw)))"

definition slots_apart :: "('k, 'v) wheel \<Rightarrow> bool" where
  "slots_apart tw \<longleftrightarrow>
     (\<forall>q < numSlots tw. \<forall>r < numSlots tw. \<forall>i \<in> set (slots tw ! q). i \<in> set (slots tw ! r) \<longrightarrow> q = r)"

definition live_listed :: "('k, 'v) wheel \<Rightarrow> bool" where
  "live_listed tw \<longleftrightarrow>
     (\<forall>q < numSlots tw. \<forall>i \<in> set (slots tw ! q). live tw i \<longrightarrow> timers tw (tkey (wheap tw ! i)) = Some (q, i))"

definition table_ok :: "('k, 'v) wheel \<Rightarrow> bool" where
  "table_ok tw \<longleftrightarrow> (\<forall>k q i. timers tw k = Some (q, i) \<longrightarrow>
     q < numSlots tw \<and> i \<in> set (slots tw ! q) \<and> live tw i \<and> tkey (wheap tw ! i) = k)"

definition diffs_ok :: "('k, 'v) wheel \<Rightarrow> bool" where
  "diffs_ok tw \<longleftrightarrow> (\<forall>i < length (wheap tw). tdiff (wheap tw ! i) < numSlots tw)"

definition wheel_inv :: "('k, 'v) wheel \<Rightarrow> bool" where
  "wheel_inv tw \<longleftrightarrow>
     0 < winterval tw \<and> 0 < numSlots tw \<and> length (slots tw) = numSlots tw \<and> tickedPos tw < numSlots tw
     \<and> slots_ok tw \<and> slots_apart tw \<and> live_listed tw \<and> table_ok tw \<and> diffs_ok tw"

lemmas wheel_parts = slots_ok_def slots_apart_def live_listed_def table_ok_def diffs_ok_def

lemma dist_range: "p < n \<Longrightarrow> q < n \<Longrightarrow> 1 \<le> dist n p q \<and> dist n p q \<le> n"
  by (auto simp: dist_def)

lemma wheel_inv_new: "NewTimingWheel interval n = Inr tw \<Longrightarrow> wheel_inv tw \<and> pending tw = Map.empty"
  by (auto simp: NewTimingWheel_def wheel_inv_def wheel_parts pending_def split: if_splits)

section \<open>The effect of a scan\<close>

definition keeps :: "('k, 'v) timingEntry \<Rightarrow> bool" where
  "keeps e \<longleftrightarrow> \<not> removed e \<and> circle e > 0"
definition moves :: "('k, 'v) timingEntry \<Rightarrow> bool" where
  "moves e \<longleftrightarrow> \<not> removed e \<and> circle e = 0 \<and> tdiff e > 0"
definition fires :: "('k, 'v) timingEntry \<Rightarrow> bool" where
  "fires e \<longleftrightarrow> \<not> removed e \<and> circle e = 0 \<and> tdiff e = 0"
definition entry_tick :: "('k, 'v) timingEntry \<Rightarrow> ('k, 'v) timingEntry" where
  "entry_tick e = (if keeps e then e\<lparr>circle := circle e - 1\<rparr> else if moves e then e\<lparr>tdiff := 0\<rparr> else e)"

lemmas entry_defs = keeps_def moves_def fires_def entry_tick_def
lemmas wheel_ops = setTimerPosition_def push_slot_def upd_entry_def new_entry_def Let_def

text \<open>One step of the scan as a function of the wheel and the entry.\<close>

definition scan1 :: "('k, 'v) wheel \<Rightarrow> nat \<Rightarrow> ('k, 'v) wheel" where
  "scan1 tw i =
     (let e = wheap tw ! i; pos = (tickedPos tw + tdiff e) mod numSlots tw
      in tw\<lparr>wheap := (wheap tw)[i := entry_tick e],
            slots := (if moves e then (slots tw)[pos := slots tw ! pos @ [i]] else slots tw),
            timers := (if moves e then (timers tw)(tkey e \<mapsto> (pos, i))
                       else if fires e then (timers tw)(tkey e := None) else timers tw)\<rparr>)"

lemma scan_Cons:
  "scan tw (i # is) kept tasks =
     scan (scan1 tw i) is (if keeps (wheap tw ! i) then kept @ [i] else kept)
       (if fires (wheap tw ! i) then tasks @ [(tkey (wheap tw ! i), tvalue (wheap tw ! i))] else tasks)"
  by (cases tw) (auto simp: scan1_def entry_defs wheel_ops)

lemma scan1_frame [simp]:
  "numSlots (scan1 tw i) = numSlots tw" "tickedPos (scan1 tw i) = tickedPos tw"
  "winterval (scan1 tw i) = winterval tw" "stopped (scan1 tw i) = stopped tw"
  "length (slots (scan1 tw i)) = length (slots tw)" "length (wheap (scan1 tw i)) = length (wheap tw)"
  by (simp_all add: scan1_def Let_def)

lemma scan1_heap: "j \<noteq> i \<Longrightarrow> wheap (scan1 tw i) ! j = wheap tw ! j"
  "i < length (wheap tw) \<Longrightarrow> wheap (scan1 tw i) ! i = entry_tick (wheap tw ! i)"
  by (simp_all add: scan1_def Let_def)

lemma scan1_timers:
  "fires (wheap tw ! i) \<Longrightarrow> timers (scan1 tw i) (tkey (wheap tw ! i)) = None"
  "moves (wheap tw ! i) \<Longrightarrow> timers (scan1 tw i) (tkey (wheap tw ! i)) =
     Some ((tickedPos tw + tdiff (wheap tw ! i)) mod numSlots tw, i)"
  by (auto simp: scan1_def entry_defs Let_def)

lemma scan_frame:
  "numSlots (fst (scan tw is kept tasks)) = numSlots tw \<and> tickedPos (fst (scan tw is kept tasks)) = tickedPos tw
   \<and> winterval (fst (scan tw is kept tasks)) = winterval tw \<and> stopped (fst (scan tw is kept tasks)) = stopped tw
   \<and> length (slots (fst (scan tw is kept tasks))) = length (slots tw)
   \<and> length (wheap (fst (scan tw is kept tasks))) = length (wheap tw)"
proof (induction "is" arbitrary: tw kept tasks)
  case (Cons i "is")
  show ?case unfolding scan_Cons by (simp add: Cons)
qed simp

lemma scan_heap:
  "distinct is \<Longrightarrow> \<forall>i \<in> set is. i < length (wheap tw) \<Longrightarrow>
   wheap (fst (scan tw is kept tasks)) ! j = (if j \<in> set is then entry_tick (wheap tw ! j) else wheap tw ! j)"
proof (induction "is" arbitrary: tw kept tasks)
  case (Cons i "is")
  have "wheap (fst (scan tw (i # is) kept tasks)) ! j =
      (if j \<in> set is then entry_tick (wheap (scan1 tw i) ! j) else wheap (scan1 tw i) ! j)"
    unfolding scan_Cons using Cons.prems by (intro Cons.IH) auto
  also have "\<dots> = (if j \<in> set (i # is) then entry_tick (wheap tw ! j) else wheap tw ! j)"
    using Cons.prems by (cases "j = i") (auto simp: scan1_heap)
  finally show ?case .
qed simp

lemma scan_lists:
  "distinct is \<Longrightarrow> \<forall>i \<in> set is. i < length (wheap tw) \<Longrightarrow>
   fst (snd (scan tw is kept tasks)) = kept @ filter (\<lambda>i. keeps (wheap tw ! i)) is
   \<and> snd (snd (scan tw is kept tasks)) =
       tasks @ map (\<lambda>i. (tkey (wheap tw ! i), tvalue (wheap tw ! i))) (filter (\<lambda>i. fires (wheap tw ! i)) is)"
proof (induction "is" arbitrary: tw kept tasks)
  case (Cons i "is")
  have same: "wheap (scan1 tw i) ! j = wheap tw ! j" if "j \<in> set is" for j
    using Cons.prems(1) that by (metis distinct.simps(2) scan1_heap(1))
  have other: "filter (\<lambda>j. P (wheap (scan1 tw i) ! j)) is = filter (\<lambda>j. P (wheap tw ! j)) is"
      "map (\<lambda>j. (tkey (wheap (scan1 tw i) ! j), tvalue (wheap (scan1 tw i) ! j))) (filter Q is)
        = map (\<lambda>j. (tkey (wheap tw ! j), tvalue (wheap tw ! j))) (filter Q is)" for P Q
    using same by (auto intro!: filter_cong map_cong)
  show ?case unfolding scan_Cons
    using Cons.prems Cons.IH [of "scan1 tw i"] by (simp add: other)
qed simp

lemma scan_slots:
  "distinct is \<Longrightarrow> \<forall>i \<in> set is. i < length (wheap tw) \<Longrightarrow> q < length (slots tw) \<Longrightarrow>
   slots (fst (scan tw is kept tasks)) ! q = slots tw ! q @
     filter (\<lambda>i. moves (wheap tw ! i) \<and> (tickedPos tw + tdiff (wheap tw ! i)) mod numSlots tw = q) is"
proof (induction "is" arbitrary: tw kept tasks)
  case (Cons i "is")
  have same: "wheap (scan1 tw i) ! j = wheap tw ! j" if "j \<in> set is" for j
    using Cons.prems(1) that by (metis distinct.simps(2) scan1_heap(1))
  let ?P = "\<lambda>h i. moves (h ! i) \<and> (tickedPos tw + tdiff (h ! i)) mod numSlots tw = q"
  have "slots (fst (scan tw (i # is) kept tasks)) ! q =
      slots (scan1 tw i) ! q @ filter (?P (wheap (scan1 tw i))) is"
    unfolding scan_Cons using Cons.prems Cons.IH [of "scan1 tw i"] by simp
  also have "filter (?P (wheap (scan1 tw i))) is = filter (?P (wheap tw)) is"
    using same by (auto intro!: filter_cong)
  also have "slots (scan1 tw i) ! q = slots tw ! q @ (if ?P (wheap tw) i then [i] else [])"
    using Cons.prems(3) by (auto simp: scan1_def Let_def nth_list_update)
  finally show ?case by simp
qed simp

text \<open>The timer table after a scan: untouched keys first, then the keys of scanned entries.\<close>

lemma scan_timers_other:
  "distinct is \<Longrightarrow>
   \<forall>i \<in> set is. fires (wheap tw ! i) \<or> moves (wheap tw ! i) \<longrightarrow> tkey (wheap tw ! i) \<noteq> k \<Longrightarrow>
   timers (fst (scan tw is kept tasks)) k = timers tw k"
proof (induction "is" arbitrary: tw kept tasks)
  case (Cons i "is")
  have same: "wheap (scan1 tw i) ! j = wheap tw ! j" if "j \<in> set is" for j
    using Cons.prems(1) that by (metis distinct.simps(2) scan1_heap(1))
  have "timers (fst (scan tw (i # is) kept tasks)) k = timers (scan1 tw i) k"
    unfolding scan_Cons using Cons.prems same by (intro Cons.IH) auto
  also have "\<dots> = timers tw k" using Cons.prems(2) by (auto simp: scan1_def Let_def)
  finally show ?case .
qed simp

lemma scan_timers_own:
  "distinct is \<Longrightarrow> inj_on (\<lambda>i. tkey (wheap tw ! i)) {i \<in> set is. live tw i} \<Longrightarrow> j \<in> set is \<Longrightarrow>
   (fires (wheap tw ! j) \<longrightarrow> timers (fst (scan tw is kept tasks)) (tkey (wheap tw ! j)) = None)
   \<and> (moves (wheap tw ! j) \<longrightarrow> timers (fst (scan tw is kept tasks)) (tkey (wheap tw ! j)) =
        Some ((tickedPos tw + tdiff (wheap tw ! j)) mod numSlots tw, j))"
proof (induction "is" arbitrary: tw kept tasks)
  case (Cons i "is")
  let ?tw = "scan1 tw i"
  have same: "wheap ?tw ! m = wheap tw ! m" if "m \<in> set is" for m
    using Cons.prems(1) that by (metis distinct.simps(2) scan1_heap(1))
  have inj: "inj_on (\<lambda>m. tkey (wheap ?tw ! m)) {m \<in> set is. live ?tw m}"
    using Cons.prems(2) same by (auto simp: inj_on_def live_def)
  show ?case
  proof (cases "j = i")
    case True
    have "tkey (wheap tw ! m) \<noteq> tkey (wheap tw ! i)"
      if "m \<in> set is" "live tw m" "live tw i" for m
      using Cons.prems(1,2) that unfolding inj_on_def by auto
    then have "timers (fst (scan ?tw is k1 t1)) (tkey (wheap tw ! i)) = timers ?tw (tkey (wheap tw ! i))"
      if "fires (wheap tw ! i) \<or> moves (wheap tw ! i)" for k1 t1
      using Cons.prems(1) same that by (intro scan_timers_other) (auto simp: entry_defs live_def)
    then show ?thesis unfolding True scan_Cons using scan1_timers [of tw i] by auto
  next
    case False
    then have j: "j \<in> set is" using Cons.prems(3) by simp
    then show ?thesis unfolding scan_Cons using Cons.IH [OF _ inj j] Cons.prems(1) same by simp
  qed
qed simp

section \<open>Ticks\<close>

lemma wheel_invD:
  assumes "wheel_inv tw"
  shows "0 < winterval tw" "0 < numSlots tw" "length (slots tw) = numSlots tw" "tickedPos tw < numSlots tw"
    "\<And>q. q < numSlots tw \<Longrightarrow> distinct (slots tw ! q)"
    "\<And>q i. q < numSlots tw \<Longrightarrow> i \<in> set (slots tw ! q) \<Longrightarrow> i < length (wheap tw)"
    "\<And>q r i. q < numSlots tw \<Longrightarrow> r < numSlots tw \<Longrightarrow> i \<in> set (slots tw ! q) \<Longrightarrow> i \<in> set (slots tw ! r) \<Longrightarrow> q = r"
    "\<And>q i. q < numSlots tw \<Longrightarrow> i \<in> set (slots tw ! q) \<Longrightarrow> live tw i \<Longrightarrow> timers tw (tkey (wheap tw ! i)) = Some (q, i)"
    "\<And>k q i. timers tw k = Some (q, i) \<Longrightarrow>
       q < numSlots tw \<and> i \<in> set (slots tw ! q) \<and> live tw i \<and> tkey (wheap tw ! i) = k"
    "\<And>i. i < length (wheap tw) \<Longrightarrow> tdiff (wheap tw ! i) < numSlots tw"
proof -
  have w: "slots_ok tw" "slots_apart tw" "live_listed tw" "table_ok tw" "diffs_ok tw"
    and c: "0 < winterval tw" "0 < numSlots tw" "length (slots tw) = numSlots tw" "tickedPos tw < numSlots tw"
    using assms by (simp_all add: wheel_inv_def)
  show "0 < winterval tw" "0 < numSlots tw" "length (slots tw) = numSlots tw" "tickedPos tw < numSlots tw" by (fact c)+
  show "\<And>q. q < numSlots tw \<Longrightarrow> distinct (slots tw ! q)"
    "\<And>q i. q < numSlots tw \<Longrightarrow> i \<in> set (slots tw ! q) \<Longrightarrow> i < length (wheap tw)"
    using w(1) by (simp_all add: slots_ok_def)
  show "\<And>q r i. q < numSlots tw \<Longrightarrow> r < numSlots tw \<Longrightarrow> i \<in> set (slots tw ! q) \<Longrightarrow> i \<in> set (slots tw ! r) \<Longrightarrow> q = r"
    using w(2) unfolding slots_apart_def by blast
  show "\<And>q i. q < numSlots tw \<Longrightarrow> i \<in> set (slots tw ! q) \<Longrightarrow> live tw i \<Longrightarrow> timers tw (tkey (wheap tw ! i)) = Some (q, i)"
    using w(3) unfolding live_listed_def by blast
  show "\<And>k q i. timers tw k = Some (q, i) \<Longrightarrow>
       q < numSlots tw \<and> i \<in> set (slots tw ! q) \<and> live tw i \<and> tkey (wheap tw ! i) = k"
    using w(4) unfolding table_ok_def by blast
  show "\<And>i. i < length (wheap tw) \<Longrightarrow> tdiff (wheap tw ! i) < numSlots tw"
    using w(5) unfolding diffs_ok_def by blast
qed

text \<open>The wheel after a tick, in terms of the wheel before it.\<close>

lemma onTick_facts:
  assumes "wheel_inv tw" "onTick tw = (tasks, tw')"
  defines "p \<equiv> (tickedPos tw + 1) mod numSlots tw"
  defines "goal \<equiv> (\<lambda>i. (p + tdiff (wheap tw ! i)) mod numSlots tw)"
  shows "tickedPos tw' = p" "numSlots tw' = numSlots tw" "winterval tw' = winterval tw"
    "length (slots tw') = numSlots tw" "length (wheap tw') = length (wheap tw)"
    "tasks = map (\<lambda>i. (tkey (wheap tw ! i), tvalue (wheap tw ! i))) (filter (\<lambda>i. fires (wheap tw ! i)) (slots tw ! p))"
    "\<And>j. wheap tw' ! j = (if j \<in> set (slots tw ! p) then entry_tick (wheap tw ! j) else wheap tw ! j)"
    "slots tw' ! p = filter (\<lambda>i. keeps (wheap tw ! i)) (slots tw ! p)"
    "\<And>q. q < numSlots tw \<Longrightarrow> q \<noteq> p \<Longrightarrow>
       slots tw' ! q = slots tw ! q @ filter (\<lambda>i. moves (wheap tw ! i) \<and> goal i = q) (slots tw ! p)"
    "\<And>i. i \<in> set (slots tw ! p) \<Longrightarrow> fires (wheap tw ! i) \<Longrightarrow> timers tw' (tkey (wheap tw ! i)) = None"
    "\<And>i. i \<in> set (slots tw ! p) \<Longrightarrow> moves (wheap tw ! i) \<Longrightarrow> timers tw' (tkey (wheap tw ! i)) = Some (goal i, i)"
    "\<And>k. \<forall>i \<in> set (slots tw ! p). fires (wheap tw ! i) \<or> moves (wheap tw ! i) \<longrightarrow> tkey (wheap tw ! i) \<noteq> k \<Longrightarrow>
       timers tw' k = timers tw k"
proof -
  note inv = wheel_invD [OF assms(1)]
  have p: "p < numSlots tw" using inv(2) by (simp add: p_def)
  let ?tw = "tw\<lparr>tickedPos := p\<rparr>"
  let ?is = "slots tw ! p"
  let ?r = "scan ?tw ?is [] []"
  have d: "distinct ?is" "\<forall>i \<in> set ?is. i < length (wheap ?tw)" using inv(5,6) p by auto
  have hh: "wheap ?tw = wheap tw" by simp
  have inj: "inj_on (\<lambda>i. tkey (wheap ?tw ! i)) {i \<in> set ?is. live ?tw i}"
  proof (rule inj_onI)
    fix i j assume ij: "i \<in> {i \<in> set ?is. live ?tw i}" "j \<in> {i \<in> set ?is. live ?tw i}"
      and k: "tkey (wheap ?tw ! i) = tkey (wheap ?tw ! j)"
    have "timers tw (tkey (wheap tw ! i)) = Some (p, i)"
      by (rule inv(8) [OF p]) (use ij(1) in \<open>auto simp: live_def\<close>)
    moreover have "timers tw (tkey (wheap tw ! j)) = Some (p, j)"
      by (rule inv(8) [OF p]) (use ij(2) in \<open>auto simp: live_def\<close>)
    moreover have "tkey (wheap tw ! i) = tkey (wheap tw ! j)" using k unfolding hh .
    ultimately have "Some (p, i) = Some (p, j)" by metis
    then show "i = j" by blast
  qed
  have out: "tasks = snd (snd ?r)" "tw' = (fst ?r)\<lparr>slots := (slots (fst ?r))[p := fst (snd ?r)]\<rparr>"
  proof -
    have "(tasks, tw') = (snd (snd ?r), (fst ?r)\<lparr>slots := (slots (fst ?r))[p := fst (snd ?r)]\<rparr>)"
      using assms(2) by (simp add: onTick_def scanAndRunTasks_def Let_def case_prod_unfold p_def)
    then show "tasks = snd (snd ?r)" "tw' = (fst ?r)\<lparr>slots := (slots (fst ?r))[p := fst (snd ?r)]\<rparr>"
      by simp_all
  qed
  note f = scan_frame [of ?tw ?is "[]" "[]"] and h = scan_heap [OF d] and l = scan_lists [OF d, of "[]" "[]"]
  note s = scan_slots [OF d] and own = scan_timers_own [OF d(1) inj] and oth = scan_timers_other [OF d(1)]
  show "tickedPos tw' = p" "numSlots tw' = numSlots tw" "winterval tw' = winterval tw"
      "length (slots tw') = numSlots tw" "length (wheap tw') = length (wheap tw)"
    using f out(2) inv(3) by simp_all
  show "tasks = map (\<lambda>i. (tkey (wheap tw ! i), tvalue (wheap tw ! i))) (filter (\<lambda>i. fires (wheap tw ! i)) ?is)"
    using l out(1) by simp
  show "wheap tw' ! j = (if j \<in> set ?is then entry_tick (wheap tw ! j) else wheap tw ! j)" for j
    using h out(2) by simp
  show "slots tw' ! p = filter (\<lambda>i. keeps (wheap tw ! i)) ?is" using l out(2) f p inv(3) by simp
  show "slots tw' ! q = slots tw ! q @ filter (\<lambda>i. moves (wheap tw ! i) \<and> goal i = q) ?is"
    if "q < numSlots tw" "q \<noteq> p" for q
    using s [of q] out(2) that inv(3) by (simp add: goal_def)
  show "timers tw' (tkey (wheap tw ! i)) = None" if "i \<in> set ?is" "fires (wheap tw ! i)" for i
    using own [OF that(1)] that(2) out(2) by simp
  show "timers tw' (tkey (wheap tw ! i)) = Some (goal i, i)" if "i \<in> set ?is" "moves (wheap tw ! i)" for i
    using own [OF that(1)] that(2) out(2) by (simp add: goal_def)
  show "timers tw' k = timers tw k"
    if "\<forall>i \<in> set ?is. fires (wheap tw ! i) \<or> moves (wheap tw ! i) \<longrightarrow> tkey (wheap tw ! i) \<noteq> k" for k
    using oth [of ?tw k "[]" "[]"] that out(2) by simp
qed

lemma dist_tick:
  assumes "P < n" "q < n" "p = (P + 1) mod n"
  shows "dist n P p = 1" "q \<noteq> p \<Longrightarrow> dist n P q = dist n p q + 1" "dist n p p = n" "p < n"
  using assms by (auto simp: dist_def mod_Suc split: if_splits)

lemma dist_goal:
  assumes "p < n" "0 < d" "d < n"
  shows "dist n p ((p + d) mod n) = d" "(p + d) mod n \<noteq> p" "(p + d) mod n < n"
proof -
  have "(p + d) mod n = (if p + d < n then p + d else p + d - n)"
    using assms by (simp add: mod_if)
  then show "dist n p ((p + d) mod n) = d" "(p + d) mod n \<noteq> p" "(p + d) mod n < n"
    using assms by (auto simp: dist_def)
qed

lemma entry_kinds:
  "\<not> removed e \<Longrightarrow> keeps e \<or> moves e \<or> fires e" "\<not> (keeps e \<and> moves e)" "\<not> (keeps e \<and> fires e)"
  "\<not> (moves e \<and> fires e)" "keeps e \<or> moves e \<or> fires e \<Longrightarrow> \<not> removed e"
  by (auto simp: entry_defs)

lemma entry_tick_simps [simp]:
  "tkey (entry_tick e) = tkey e" "tvalue (entry_tick e) = tvalue e" "removed (entry_tick e) = removed e"
  by (auto simp: entry_tick_def)

text \<open>The timer of one key over a tick.\<close>

lemma onTick_timer:
  assumes "wheel_inv tw" "onTick tw = (tasks, tw')" "timers tw k = Some (q, i)"
  defines "p \<equiv> (tickedPos tw + 1) mod numSlots tw"
  shows "q \<noteq> p \<Longrightarrow> timers tw' k = Some (q, i) \<and> wheap tw' ! i = wheap tw ! i"
    "q = p \<Longrightarrow> keeps (wheap tw ! i) \<Longrightarrow>
       timers tw' k = Some (p, i) \<and> wheap tw' ! i = (wheap tw ! i)\<lparr>circle := circle (wheap tw ! i) - 1\<rparr>"
    "q = p \<Longrightarrow> moves (wheap tw ! i) \<Longrightarrow>
       timers tw' k = Some ((p + tdiff (wheap tw ! i)) mod numSlots tw, i) \<and> wheap tw' ! i = (wheap tw ! i)\<lparr>tdiff := 0\<rparr>"
    "q = p \<Longrightarrow> fires (wheap tw ! i) \<Longrightarrow> timers tw' k = None"
proof -
  note inv = wheel_invD [OF assms(1)] and f = onTick_facts [OF assms(1,2), folded p_def]
  have qi: "q < numSlots tw" "i \<in> set (slots tw ! q)" "live tw i" "tkey (wheap tw ! i) = k" using inv(9) [OF assms(3)] by auto
  have p: "p < numSlots tw" using inv(2) by (simp add: p_def)
  have only: "j = i \<and> q = p" if "j \<in> set (slots tw ! p)" "\<not> removed (wheap tw ! j)" "tkey (wheap tw ! j) = k" for j
    using inv(8) [OF p that(1)] that assms(3) by (simp add: live_def)
  show "timers tw' k = Some (q, i) \<and> wheap tw' ! i = wheap tw ! i" if "q \<noteq> p"
  proof -
    have "timers tw' k = timers tw k" using only that entry_kinds(5) by (intro f(12)) blast
    moreover have "i \<notin> set (slots tw ! p)" using inv(7) [OF qi(1) p qi(2)] that by blast
    ultimately show ?thesis using assms(3) f(7) by simp
  qed
  show "timers tw' k = Some (p, i) \<and> wheap tw' ! i = (wheap tw ! i)\<lparr>circle := circle (wheap tw ! i) - 1\<rparr>"
    if "q = p" "keeps (wheap tw ! i)"
  proof -
    have "timers tw' k = timers tw k" using only that entry_kinds by (intro f(12)) blast
    then show ?thesis using assms(3) f(7) qi(2) that by (simp add: entry_tick_def)
  qed
  show "timers tw' k = Some ((p + tdiff (wheap tw ! i)) mod numSlots tw, i) \<and> wheap tw' ! i = (wheap tw ! i)\<lparr>tdiff := 0\<rparr>"
    if "q = p" "moves (wheap tw ! i)"
    using f(11) [of i] f(7) [of i] qi that entry_kinds(2) [of "wheap tw ! i"] by (simp add: entry_tick_def)
  show "timers tw' k = None" if "q = p" "fires (wheap tw ! i)" using f(10) [of i] qi that by simp
qed

lemma onTick_no_timer:
  assumes "wheel_inv tw" "onTick tw = (tasks, tw')" "timers tw k = None"
  shows "timers tw' k = None"
proof -
  note inv = wheel_invD [OF assms(1)] and f = onTick_facts [OF assms(1,2)]
  have p: "(tickedPos tw + 1) mod numSlots tw < numSlots tw" using inv(2) by simp
  have "timers tw' k = timers tw k"
  proof (intro f(12) ballI impI notI)
    fix i assume i: "i \<in> set (slots tw ! ((tickedPos tw + 1) mod numSlots tw))"
      "fires (wheap tw ! i) \<or> moves (wheap tw ! i)" "tkey (wheap tw ! i) = k"
    then have "live tw i" using entry_kinds(5) by (auto simp: live_def)
    from inv(8) [OF p i(1) this] i(3) assms(3) show False by simp
  qed
  with assms(3) show ?thesis by simp
qed

lemma onTick_pending:
  assumes "wheel_inv tw" "onTick tw = (tasks, tw')"
  shows "pending tw' k = (case pending tw k of None \<Rightarrow> None
     | Some (d, v) \<Rightarrow> if d = 1 then None else Some (d - 1, v))"
    and "(k, v) \<in> set tasks \<longleftrightarrow> pending tw k = Some (1, v)"
proof -
  note inv = wheel_invD [OF assms(1)] and f = onTick_facts [OF assms]
  define p where "p = (tickedPos tw + 1) mod numSlots tw"
  note dt = dist_tick [OF inv(4) _ p_def]
  have p: "p < numSlots tw" using inv(2) by (simp add: p_def)
  have both: "pending tw' k = (case pending tw k of None \<Rightarrow> None
     | Some (d, v) \<Rightarrow> if d = 1 then None else Some (d - 1, v))
    \<and> (\<forall>q i. timers tw k = Some (q, i) \<longrightarrow>
        ((\<exists>v. pending tw k = Some (1, v)) \<longleftrightarrow> q = p \<and> fires (wheap tw ! i)))"
  proof (cases "timers tw k")
    case None
    then show ?thesis using onTick_no_timer [OF assms None] by (simp add: pending_def)
  next
    case (Some qi)
    obtain q i where qi: "qi = (q, i)" by (cases qi)
    with Some have tm: "timers tw k = Some (q, i)" by simp
    note t = onTick_timer [OF assms tm, folded p_def]
    have q: "q < numSlots tw" "live tw i" "i < length (wheap tw)" using inv(9) [OF tm] inv(6) by blast+
    have d: "tdiff (wheap tw ! i) < numSlots tw" using inv(10) [OF q(3)] .
    have c: "tickedPos tw' = p" "numSlots tw' = numSlots tw" using f(1,2) by (simp_all add: p_def)
    have d1: "1 \<le> dist (numSlots tw) p q" using dist_range [OF p q(1)] by simp
    consider "q \<noteq> p" | "q = p" "keeps (wheap tw ! i)" | "q = p" "moves (wheap tw ! i)" | "q = p" "fires (wheap tw ! i)"
      using q(2) entry_kinds(1) by (auto simp: live_def)
    then show ?thesis
    proof cases
      case 1
      then show ?thesis using t(1) [OF 1] dt(2) [OF q(1) 1] d1 c tm
        by (simp add: pending_def due_of_def)
    next
      case 2
      then have "0 < circle (wheap tw ! i)" "\<not> fires (wheap tw ! i)" by (auto simp: entry_defs)
      then show ?thesis using 2 t(2) [OF 2] dt(1,3) [OF p] c tm inv(2)
        by (cases "circle (wheap tw ! i)") (simp_all add: pending_def due_of_def)
    next
      case 3
      then have m: "0 < tdiff (wheap tw ! i)" "circle (wheap tw ! i) = 0" "\<not> fires (wheap tw ! i)"
        by (auto simp: entry_defs)
      then show ?thesis using 3 t(3) [OF 3] dt(1) [OF p] dist_goal(1) [OF p m(1) d] c tm
        by (simp add: pending_def due_of_def)
    next
      case 4
      then have "tdiff (wheap tw ! i) = 0" "circle (wheap tw ! i) = 0" by (auto simp: entry_defs)
      then show ?thesis using 4 t(4) [OF 4] dt(1) [OF p] tm by (simp add: pending_def due_of_def)
    qed
  qed
  then show "pending tw' k = (case pending tw k of None \<Rightarrow> None
     | Some (d, v) \<Rightarrow> if d = 1 then None else Some (d - 1, v))" by simp
  show "(k, v) \<in> set tasks \<longleftrightarrow> pending tw k = Some (1, v)"
  proof
    assume "(k, v) \<in> set tasks"
    then obtain i where i: "i \<in> set (slots tw ! p)" "fires (wheap tw ! i)" "tkey (wheap tw ! i) = k" "tvalue (wheap tw ! i) = v"
      using f(6) by (auto simp: p_def)
    then have "live tw i" using entry_kinds(5) by (auto simp: live_def)
    from inv(8) [OF p i(1) this] i(3) have tm: "timers tw k = Some (p, i)" by simp
    then obtain v' where "pending tw k = Some (1, v')" using both i(2) by blast
    with tm i(4) show "pending tw k = Some (1, v)" by (simp add: pending_def)
  next
    assume pd: "pending tw k = Some (1, v)"
    then obtain q i where tm: "timers tw k = Some (q, i)" by (auto simp: pending_def split: option.splits)
    then have qp: "q = p" "fires (wheap tw ! i)" using both pd by blast+
    have "tvalue (wheap tw ! i) = v" using pd tm by (simp add: pending_def)
    moreover have "i \<in> set (slots tw ! p)" "tkey (wheap tw ! i) = k" using inv(9) [OF tm] qp by auto
    ultimately show "(k, v) \<in> set tasks" using f(6) qp(2) by (force simp: p_def)
  qed
qed

text \<open>Where an entry is after a tick.\<close>

lemma onTick_members:
  assumes "wheel_inv tw" "onTick tw = (tasks, tw')" "q < numSlots tw"
  defines "p \<equiv> (tickedPos tw + 1) mod numSlots tw"
  shows "i \<in> set (slots tw' ! q) \<longleftrightarrow>
    (if q = p then i \<in> set (slots tw ! p) \<and> keeps (wheap tw ! i)
     else i \<in> set (slots tw ! q) \<or> i \<in> set (slots tw ! p) \<and> moves (wheap tw ! i)
            \<and> (p + tdiff (wheap tw ! i)) mod numSlots tw = q)"
  using onTick_facts(8,9) [OF assms(1,2), folded p_def] assms(3) by auto

lemma onTick_inv:
  assumes "wheel_inv tw" "onTick tw = (tasks, tw')"
  shows "wheel_inv tw'"
proof -
  note inv = wheel_invD [OF assms(1)]
  define p where "p = (tickedPos tw + 1) mod numSlots tw"
  note f = onTick_facts [OF assms, folded p_def] and mem = onTick_members [OF assms, folded p_def]
  have p: "p < numSlots tw" using inv(2) by (simp add: p_def)
  have apart: "i \<notin> set (slots tw ! q)" if "i \<in> set (slots tw ! p)" "q < numSlots tw" "q \<noteq> p" for i q
    using inv(7) [OF p that(2) that(1)] that(3) by blast
  have ids: "i < length (wheap tw)" if "q < numSlots tw" "i \<in> set (slots tw' ! q)" for q i
    using that mem [OF that(1)] inv(6) [OF that(1)] inv(6) [OF p] by (auto split: if_splits)
  have "slots_ok tw'" unfolding slots_ok_def f(2,5)
  proof (intro allI impI conjI ballI)
    fix q assume q: "q < numSlots tw"
    show "distinct (slots tw' ! q)"
    proof (cases "q = p")
      case True
      then show ?thesis using f(8) inv(5) [OF p] by simp
    next
      case False
      then show ?thesis using f(9) [OF q False] inv(5) [OF q] inv(5) [OF p] apart q by auto
    qed
    show "i < length (wheap tw)" if "i \<in> set (slots tw' ! q)" for i by (rule ids [OF q that])
  qed
  moreover have "slots_apart tw'" unfolding slots_apart_def f(2)
  proof (intro allI impI ballI)
    fix q r i assume a: "q < numSlots tw" "r < numSlots tw" "i \<in> set (slots tw' ! q)" "i \<in> set (slots tw' ! r)"
    show "q = r"
    proof (cases "i \<in> set (slots tw ! p)")
      case True
      have loc: "s = (if keeps (wheap tw ! i) then p else (p + tdiff (wheap tw ! i)) mod numSlots tw)"
        if "s < numSlots tw" "i \<in> set (slots tw' ! s)" for s
        using mem [OF that(1), of i] that(2) apart [OF True that(1)] entry_kinds(2) [of "wheap tw ! i"]
        by (cases "s = p") auto
      from loc [OF a(1,3)] loc [OF a(2,4)] show ?thesis by simp
    next
      case False
      then have "i \<in> set (slots tw ! s)" if "s < numSlots tw" "i \<in> set (slots tw' ! s)" for s
        using mem [OF that(1), of i] that(2) by (cases "s = p") auto
      from inv(7) [OF a(1,2) this [OF a(1,3)] this [OF a(2,4)]] show ?thesis .
    qed
  qed
  moreover have tb: "table_ok tw'" unfolding table_ok_def f(2)
  proof (intro allI impI)
    fix k r i assume tm': "timers tw' k = Some (r, i)"
    then obtain q j where tm: "timers tw k = Some (q, j)" using onTick_no_timer [OF assms] by (cases "timers tw k") auto
    note t = onTick_timer [OF assms tm, folded p_def]
    have qj: "q < numSlots tw" "j \<in> set (slots tw ! q)" "live tw j" "tkey (wheap tw ! j) = k" "j < length (wheap tw)"
      using inv(9) [OF tm] inv(6) by blast+
    have alive: "live tw' j" "tkey (wheap tw' ! j) = k" using qj f(7) [of j] by (auto simp: live_def)
    consider "q \<noteq> p" | "q = p" "keeps (wheap tw ! j)" | "q = p" "moves (wheap tw ! j)" | "q = p" "fires (wheap tw ! j)"
      using qj(3) entry_kinds(1) by (auto simp: live_def)
    then show "r < numSlots tw \<and> i \<in> set (slots tw' ! r) \<and> live tw' i \<and> tkey (wheap tw' ! i) = k"
    proof cases
      case 1
      then show ?thesis using t(1) [OF 1] tm' qj alive mem [OF qj(1), of j] by auto
    next
      case 2
      then show ?thesis using t(2) [OF 2] tm' qj alive mem [OF p, of j] p by auto
    next
      case 3
      then have "0 < tdiff (wheap tw ! j)" by (simp add: entry_defs)
      note g = dist_goal [OF p this inv(10) [OF qj(5)]]
      show ?thesis using 3 t(3) [OF 3] tm' qj alive mem [OF g(3), of j] g(2,3) by auto
    next
      case 4
      then show ?thesis using t(4) [OF 4] tm' by simp
    qed
  qed
  moreover have "live_listed tw'" unfolding live_listed_def f(2)
  proof (intro allI impI ballI)
    fix q i assume q: "q < numSlots tw" "i \<in> set (slots tw' ! q)" "live tw' i"
    let ?k = "tkey (wheap tw ! i)"
    have k: "tkey (wheap tw' ! i) = ?k" "live tw i" using q(3) f(7) [of i] by (auto simp: live_def split: if_splits)
    have "\<exists>r. timers tw ?k = Some (r, i) \<and> r < numSlots tw \<and> (r = q \<or> r = p)"
      using mem [OF q(1), of i] q(2) inv(8) [OF q(1), of i] inv(8) [OF p, of i] k(2) q(1) p by (auto split: if_splits)
    then obtain r where r: "timers tw ?k = Some (r, i)" "r < numSlots tw" "r = q \<or> r = p" by blast
    note t = onTick_timer [OF assms r(1), folded p_def]
    have ri: "i \<in> set (slots tw ! r)" using inv(9) [OF r(1)] by blast
    have "timers tw' ?k = Some (q, i)"
    proof (cases "r = p")
      case False
      then show ?thesis using t(1) [OF False] r(3) by simp
    next
      case True
      then have ip: "i \<in> set (slots tw ! p)" using ri by simp
      show ?thesis
      proof (cases "q = p")
        case qp: True
        then have "keeps (wheap tw ! i)" using mem [OF q(1), of i] q(2) by simp
        then show ?thesis using t(2) [OF True] qp by simp
      next
        case qp: False
        then have "moves (wheap tw ! i)" "(p + tdiff (wheap tw ! i)) mod numSlots tw = q"
          using mem [OF q(1), of i] q(2) apart [OF ip q(1)] by auto
        then show ?thesis using t(3) [OF True] by simp
      qed
    qed
    then show "timers tw' (tkey (wheap tw' ! i)) = Some (q, i)" using k by simp
  qed
  moreover have "diffs_ok tw'" unfolding diffs_ok_def f(2,5)
    using inv(2,10) f(7) by (auto simp: entry_tick_def)
  ultimately show ?thesis using f(1-4) inv(1,2) p by (simp add: wheel_inv_def)
qed

section \<open>Setting, moving and removing\<close>

text \<open>The three changes that the operations are made of, and what each does to the promises.\<close>

definition add_entry :: "('k, 'v) wheel \<Rightarrow> 'k \<Rightarrow> 'v \<Rightarrow> nat \<Rightarrow> nat \<Rightarrow> ('k, 'v) wheel" where
  "add_entry tw key value pos c =
     (let (i, tw) = new_entry tw \<lparr>tkey = key, tvalue = value, circle = c, tdiff = 0, removed = False\<rparr>
      in setTimerPosition (push_slot tw pos i) pos i)"

lemma add_entry_eq:
  "add_entry tw key value pos c = tw\<lparr>
     wheap := wheap tw @ [\<lparr>tkey = key, tvalue = value, circle = c, tdiff = 0, removed = False\<rparr>],
     slots := (slots tw)[pos := slots tw ! pos @ [length (wheap tw)]],
     timers := (timers tw)(key \<mapsto> (pos, length (wheap tw)))\<rparr>"
  by (simp add: add_entry_def wheel_ops)

lemma add_entry_ok:
  assumes "wheel_inv tw" "timers tw key = None" "pos < numSlots tw"
  shows "wheel_inv (add_entry tw key value pos c)"
    and "pending (add_entry tw key value pos c) = (pending tw)(key \<mapsto>
       (dist (numSlots tw) (tickedPos tw) pos + c * numSlots tw, value))"
proof -
  note inv = wheel_invD [OF assms(1)]
  let ?tw = "add_entry tw key value pos c" and ?n = "length (wheap tw)"
  have fresh: "?n \<notin> set (slots tw ! q)" if "q < numSlots tw" for q using inv(6) [OF that, of ?n] by blast
  have sl: "set (slots ?tw ! q) = set (slots tw ! q) \<union> (if q = pos then {?n} else {})" if "q < numSlots tw" for q
    using that inv(3) assms(3) by (auto simp: add_entry_eq nth_list_update)
  have old: "wheap ?tw ! i = wheap tw ! i" if "i < ?n" for i using that by (simp add: add_entry_eq nth_append)
  have new: "wheap ?tw ! ?n = \<lparr>tkey = key, tvalue = value, circle = c, tdiff = 0, removed = False\<rparr>"
    by (simp add: add_entry_eq)
  have ns: "numSlots ?tw = numSlots tw" "length (wheap ?tw) = Suc ?n" "tickedPos ?tw = tickedPos tw"
      "winterval ?tw = winterval tw" "length (slots ?tw) = length (slots tw)"
      "timers ?tw = (timers tw)(key \<mapsto> (pos, ?n))"
    by (simp_all add: add_entry_eq)
  have tm: "timers tw k = Some (q, i) \<Longrightarrow> k \<noteq> key \<and> i < ?n" for k q i
    using inv(9) [of k q i] inv(6) [of q i] assms(2) by auto
  have "slots_ok ?tw" unfolding slots_ok_def ns
  proof (intro allI impI conjI ballI)
    fix q assume q: "q < numSlots tw"
    show "distinct (slots ?tw ! q)" using inv(3) inv(5) [OF q] fresh [OF q] q assms(3) by (auto simp: add_entry_eq nth_list_update)
    show "i < Suc ?n" if "i \<in> set (slots ?tw ! q)" for i
      using that sl [OF q] inv(6) [OF q, of i] by (auto split: if_splits)
  qed
  moreover have "slots_apart ?tw" unfolding slots_apart_def ns
  proof (intro allI impI ballI)
    fix q r i assume a: "q < numSlots tw" "r < numSlots tw" "i \<in> set (slots ?tw ! q)" "i \<in> set (slots ?tw ! r)"
    then show "q = r" using sl [OF a(1)] sl [OF a(2)] fresh [OF a(1)] fresh [OF a(2)] inv(7) [OF a(1,2)]
      by (cases "i = ?n") (auto split: if_splits)
  qed
  moreover have "live_listed ?tw" unfolding live_listed_def ns(1)
  proof (intro allI impI ballI)
    fix q i assume a: "q < numSlots tw" "i \<in> set (slots ?tw ! q)" "live ?tw i"
    show "timers ?tw (tkey (wheap ?tw ! i)) = Some (q, i)"
    proof (cases "i = ?n")
      case True
      then show ?thesis using a sl [OF a(1)] fresh [OF a(1)] new ns(6) by (auto split: if_splits)
    next
      case False
      then have i: "i \<in> set (slots tw ! q)" using a sl [OF a(1)] by (auto split: if_splits)
      then have "i < ?n" using inv(6) [OF a(1)] by blast
      then have "timers tw (tkey (wheap tw ! i)) = Some (q, i)" using inv(8) [OF a(1) i] a(3) old by (simp add: live_def)
      then show ?thesis using tm old \<open>i < ?n\<close> ns(6) by auto
    qed
  qed
  moreover have "table_ok ?tw" unfolding table_ok_def ns(1)
  proof (intro allI impI)
    fix k q i assume a: "timers ?tw k = Some (q, i)"
    show "q < numSlots tw \<and> i \<in> set (slots ?tw ! q) \<and> live ?tw i \<and> tkey (wheap ?tw ! i) = k"
    proof (cases "k = key")
      case True
      then show ?thesis using a ns(6) assms(3) sl [OF assms(3)] new by (simp add: live_def)
    next
      case False
      then have t: "timers tw k = Some (q, i)" using a ns(6) by simp
      then show ?thesis using inv(9) [OF t] tm [OF t] old sl by (auto simp: live_def)
    qed
  qed
  moreover have "diffs_ok ?tw" unfolding diffs_ok_def ns
    using inv(2,10) old new by (auto simp: less_Suc_eq)
  ultimately show "wheel_inv ?tw" using inv(1-4) ns by (simp add: wheel_inv_def)
  show "pending ?tw = (pending tw)(key \<mapsto> (dist (numSlots tw) (tickedPos tw) pos + c * numSlots tw, value))"
  proof
    fix k show "pending ?tw k = ((pending tw)(key \<mapsto> (dist (numSlots tw) (tickedPos tw) pos + c * numSlots tw, value))) k"
      using new ns tm old by (cases "timers tw k") (auto simp: pending_def due_of_def)
  qed
qed

lemma upd_entry_ok:
  assumes "wheel_inv tw" "timers tw key = Some (tpos, i)"
    and "tkey (f (wheap tw ! i)) = key" "\<not> removed (f (wheap tw ! i))" "tdiff (f (wheap tw ! i)) < numSlots tw"
  shows "wheel_inv (upd_entry tw i f)"
    and "pending (upd_entry tw i f) = (pending tw)(key \<mapsto>
       (dist (numSlots tw) (tickedPos tw) tpos + circle (f (wheap tw ! i)) * numSlots tw + tdiff (f (wheap tw ! i)),
        tvalue (f (wheap tw ! i))))"
proof -
  note inv = wheel_invD [OF assms(1)]
  let ?tw = "upd_entry tw i f"
  have i: "i < length (wheap tw)" "live tw i" "tkey (wheap tw ! i) = key"
    using inv(9) [OF assms(2)] inv(6) by blast+
  have hp: "wheap ?tw ! j = (if j = i then f (wheap tw ! i) else wheap tw ! j)" for j
    using i(1) by (auto simp: upd_entry_def nth_list_update)
  have ns: "numSlots ?tw = numSlots tw" "length (wheap ?tw) = length (wheap tw)" "tickedPos ?tw = tickedPos tw"
      "winterval ?tw = winterval tw" "slots ?tw = slots tw" "timers ?tw = timers tw" by (simp_all add: upd_entry_def)
  have same: "live ?tw j = live tw j" "tkey (wheap ?tw ! j) = tkey (wheap tw ! j)" for j
    using hp i assms(3,4) by (auto simp: live_def)
  have "slots_ok ?tw" "slots_apart ?tw" "live_listed ?tw" "table_ok ?tw"
    using assms(1) by (simp_all add: wheel_inv_def slots_ok_def slots_apart_def live_listed_def table_ok_def ns same)
  moreover have "diffs_ok ?tw" using inv(10) assms(5) hp by (simp add: diffs_ok_def ns)
  ultimately show "wheel_inv ?tw" using inv(1-4) ns by (simp add: wheel_inv_def)
  have "j \<noteq> i" if "timers tw k = Some (q, j)" "k \<noteq> key" for k q j
    using inv(9) [OF that(1)] i(3) that(2) by blast
  then show "pending ?tw = (pending tw)(key \<mapsto>
       (dist (numSlots tw) (tickedPos tw) tpos + circle (f (wheap tw ! i)) * numSlots tw + tdiff (f (wheap tw ! i)),
        tvalue (f (wheap tw ! i))))"
    using hp ns assms(2) by (intro ext) (auto simp: pending_def due_of_def split: option.splits)
qed

lemma removeTask_ok:
  assumes "wheel_inv tw"
  shows "wheel_inv (removeTask tw key)" and "pending (removeTask tw key) = (pending tw)(key := None)"
proof -
  note inv = wheel_invD [OF assms]
  have "wheel_inv (removeTask tw key) \<and> pending (removeTask tw key) = (pending tw)(key := None)"
  proof (cases "timers tw key")
    case None
    then show ?thesis using assms by (auto simp: removeTask_def pending_def fun_eq_iff)
  next
    case (Some qi)
    obtain tpos i where qi: "qi = (tpos, i)" by (cases qi)
    let ?tw = "removeTask tw key"
    have i: "i < length (wheap tw)" "live tw i" "tkey (wheap tw ! i) = key"
      using inv(9) [of key tpos i] inv(6) [of tpos i] Some qi by auto
    have eq: "?tw = tw\<lparr>wheap := (wheap tw)[i := (wheap tw ! i)\<lparr>removed := True\<rparr>], timers := (timers tw)(key := None)\<rparr>"
      using Some qi by (simp add: removeTask_def upd_entry_def)
    have hp: "wheap ?tw ! j = (if j = i then (wheap tw ! i)\<lparr>removed := True\<rparr> else wheap tw ! j)" for j
      using i(1) by (auto simp: eq nth_list_update)
    have ns: "numSlots ?tw = numSlots tw" "length (wheap ?tw) = length (wheap tw)" "tickedPos ?tw = tickedPos tw"
        "winterval ?tw = winterval tw" "slots ?tw = slots tw" "timers ?tw = (timers tw)(key := None)"
      by (simp_all add: eq)
    have lv: "live ?tw j \<longleftrightarrow> live tw j \<and> j \<noteq> i" for j using hp by (auto simp: live_def)
    have ky: "tkey (wheap ?tw ! j) = tkey (wheap tw ! j)" for j using hp by simp
    have ne: "j \<noteq> i" if "timers tw k = Some (q, j)" "k \<noteq> key" for k q j
      using inv(9) [OF that(1)] i(3) that(2) by blast
    have "slots_ok ?tw" "slots_apart ?tw"
      using assms by (simp_all add: wheel_inv_def slots_ok_def slots_apart_def ns)
    moreover have "live_listed ?tw" unfolding live_listed_def ns(1,5,6) lv ky
    proof (intro allI impI ballI)
      fix q j assume a: "q < numSlots tw" "j \<in> set (slots tw ! q)" "live tw j \<and> j \<noteq> i"
      then have t: "timers tw (tkey (wheap tw ! j)) = Some (q, j)" using inv(8) by blast
      moreover have "tkey (wheap tw ! j) \<noteq> key" using t Some qi a(3) by auto
      ultimately show "((timers tw)(key := None)) (tkey (wheap tw ! j)) = Some (q, j)" by simp
    qed
    moreover have "table_ok ?tw" unfolding table_ok_def ns(1,5,6) lv ky
      using inv(9) ne by (auto split: if_splits)
    moreover have "diffs_ok ?tw" using inv(10) hp i(1) by (simp add: diffs_ok_def ns)
    moreover have "pending ?tw = (pending tw)(key := None)"
      using hp ns ne by (intro ext) (auto simp: pending_def due_of_def split: option.splits)
    ultimately show ?thesis using inv(1-4) ns by (simp add: wheel_inv_def)
  qed
  then show "wheel_inv (removeTask tw key)" "pending (removeTask tw key) = (pending tw)(key := None)" by simp_all
qed

text \<open>The number of ticks that a delay asks for.\<close>

definition steps_of :: "('k, 'v) wheel \<Rightarrow> duration \<Rightarrow> nat" where
  "steps_of tw delay = nat (max 1 (delay div winterval tw))"

lemma getPosition_steps:
  assumes "wheel_inv tw" "winterval tw \<le> delay"
  shows "getPositionAndCircle tw delay =
      ((tickedPos tw + steps_of tw delay) mod numSlots tw, (steps_of tw delay - 1) div numSlots tw)"
    and "1 \<le> steps_of tw delay"
proof -
  have iv: "0 < winterval tw" using assms(1) by (simp add: wheel_inv_def)
  then have "1 \<le> delay div winterval tw" using assms(2) by (simp add: int_le_div_iff)
  moreover have "delay sdiv winterval tw = delay div winterval tw" using iv assms(2) by simp
  ultimately show "getPositionAndCircle tw delay =
      ((tickedPos tw + steps_of tw delay) mod numSlots tw, (steps_of tw delay - 1) div numSlots tw)"
      "1 \<le> steps_of tw delay"
    by (simp_all add: getPositionAndCircle_def steps_of_def Let_def)
qed

text \<open>A position and a circle computed for \<open>s\<close> steps lie \<open>s\<close> ticks ahead.\<close>

lemma dist_steps:
  assumes "P < n" "1 \<le> s"
  shows "dist n P ((P + s) mod n) + (s - 1) div n * n = s"
proof -
  define r where "r = (s - 1) mod n"
  have r: "r < n" "s = (s - 1) div n * n + r + 1" using assms by (simp_all add: r_def)
  have "(P + s) mod n = (P + 1 + r) mod n"
    by (subst r(2)) (metis (no_types, lifting) add.assoc add.commute mod_mult_self1)
  also have "\<dots> = (if P + 1 + r < n then P + 1 + r else P + 1 + r - n)"
    using assms(1) r(1) by (simp add: mod_if)
  finally have "dist n P ((P + s) mod n) = r + 1" using assms(1) r(1) by (auto simp: dist_def)
  with r(2) show ?thesis by linarith
qed

text \<open>A timer set on a key that has none is promised to fire after \<open>delay / interval\<close> ticks, at least one.\<close>

lemma setTask_new:
  assumes "wheel_inv tw" "timers tw key = None" "0 < delay"
  shows "fst (setTask tw key value delay) = [] \<and> wheel_inv (snd (setTask tw key value delay))
    \<and> pending (snd (setTask tw key value delay)) = (pending tw)(key \<mapsto> (steps_of tw delay, value))"
proof -
  note inv = wheel_invD [OF assms(1)]
  let ?d = "if delay < winterval tw then winterval tw else delay"
  have s: "steps_of tw ?d = steps_of tw delay"
    using inv(1) assms(3) by (auto simp: steps_of_def div_pos_pos_trivial)
  note g = getPosition_steps [OF assms(1), of ?d]
  let ?pos = "(tickedPos tw + steps_of tw delay) mod numSlots tw" and ?c = "(steps_of tw delay - 1) div numSlots tw"
  have st: "setTask tw key value delay = ([], add_entry tw key value ?pos ?c)"
    using assms(2) g(1) s by (simp add: setTask_def add_entry_def Let_def case_prod_unfold)
  have pos: "?pos < numSlots tw" using inv(2) by simp
  have "dist (numSlots tw) (tickedPos tw) ?pos + ?c * numSlots tw = steps_of tw delay"
    using g(2) s by (intro dist_steps inv(4)) auto
  then show ?thesis using add_entry_ok [OF assms(1,2) pos, of "value" ?c] st by simp
qed

lemma onTick_spec:
  assumes "wheel_inv tw"
  shows "wheel_inv (snd (onTick tw))
    \<and> pending (snd (onTick tw)) k = (case pending tw k of None \<Rightarrow> None
        | Some (d, v) \<Rightarrow> if d = 1 then None else Some (d - 1, v))
    \<and> set (fst (onTick tw)) = {(k, v). pending tw k = Some (1, v)} \<and> distinct (map fst (fst (onTick tw)))"
proof -
  obtain tasks tw' where t: "onTick tw = (tasks, tw')" by (cases "onTick tw")
  note inv = wheel_invD [OF assms] and f = onTick_facts [OF assms t]
  let ?p = "(tickedPos tw + 1) mod numSlots tw"
  have p: "?p < numSlots tw" using inv(2) by simp
  have key: "timers tw (tkey (wheap tw ! i)) = Some (?p, i)"
    if "i \<in> set (filter (\<lambda>i. fires (wheap tw ! i)) (slots tw ! ?p))" for i
    using inv(8) [OF p, of i] that entry_kinds(5) by (auto simp: live_def)
  have "inj_on (\<lambda>i. tkey (wheap tw ! i)) (set (filter (\<lambda>i. fires (wheap tw ! i)) (slots tw ! ?p)))"
    using key by (intro inj_onI) (metis option.inject prod.inject)
  then have "distinct (map (\<lambda>i. tkey (wheap tw ! i)) (filter (\<lambda>i. fires (wheap tw ! i)) (slots tw ! ?p)))"
    using inv(5) [OF p] by (simp add: distinct_map)
  then have "distinct (map fst tasks)" using f(6) by (simp add: comp_def)
  moreover have "set tasks = {(k, v). pending tw k = Some (1, v)}"
    using onTick_pending(2) [OF assms t] by auto
  ultimately show ?thesis using onTick_inv [OF assms t] onTick_pending(1) [OF assms t] t by simp
qed

text \<open>\<open>n\<close> ticks in a row: the lists of executed tasks and the wheel.\<close>

fun ticks :: "('k, 'v) wheel \<Rightarrow> nat \<Rightarrow> ('k \<times> 'v) list list \<times> ('k, 'v) wheel" where
  "ticks tw 0 = ([], tw)"
| "ticks tw (Suc n) = (let (ts, tw) = onTick tw; (tss, tw) = ticks tw n in (ts # tss, tw))"

lemma ticks_pending:
  assumes "wheel_inv tw"
  shows "wheel_inv (snd (ticks tw n)) \<and> length (fst (ticks tw n)) = n
    \<and> pending (snd (ticks tw n)) k = (case pending tw k of None \<Rightarrow> None
        | Some (d, v) \<Rightarrow> if 1 \<le> d \<and> d \<le> n then None else Some (d - n, v))
    \<and> (\<forall>m < n. \<forall>v. (k, v) \<in> set (fst (ticks tw n) ! m) \<longleftrightarrow> pending tw k = Some (m + 1, v))"
  using assms
proof (induction n arbitrary: tw)
  case 0
  then show ?case by (auto split: option.splits)
next
  case (Suc n)
  obtain ts tw1 where t: "onTick tw = (ts, tw1)" by (cases "onTick tw")
  have sp: "wheel_inv tw1" "set ts = {(k, v). pending tw k = Some (1, v)}"
      "pending tw1 k = (case pending tw k of None \<Rightarrow> None | Some (d, v) \<Rightarrow> if d = 1 then None else Some (d - 1, v))"
    using onTick_spec [OF Suc.prems, of k] t by auto
  have pos: "1 \<le> d" if "pending tw k = Some (d, v)" for d v
    using that wheel_invD(9) [OF Suc.prems] dist_range [OF wheel_invD(4) [OF Suc.prems]]
    by (auto simp: pending_def due_of_def split: option.splits) (metis le_add1 order_trans Suc_leI add.assoc One_nat_def)
  note ih = Suc.IH [OF sp(1)]
  have tk: "ticks tw (Suc n) = (ts # fst (ticks tw1 n), snd (ticks tw1 n))" by (simp add: t case_prod_unfold Let_def)
  have "(\<forall>v. (k, v) \<in> set ((ts # fst (ticks tw1 n)) ! m) \<longleftrightarrow> pending tw k = Some (m + 1, v))" if "m < Suc n" for m
  proof (cases m)
    case 0
    then show ?thesis using sp(2) by auto
  next
    case (Suc j)
    then have "\<forall>v. (k, v) \<in> set (fst (ticks tw1 n) ! j) \<longleftrightarrow> pending tw1 k = Some (j + 1, v)" using ih that by auto
    then show ?thesis using Suc sp(3) by (auto split: option.splits if_splits)
  qed
  moreover have "pending (snd (ticks tw1 n)) k = (case pending tw k of None \<Rightarrow> None
        | Some (d, v) \<Rightarrow> if 1 \<le> d \<and> d \<le> Suc n then None else Some (d - Suc n, v))"
    using ih sp(3) pos by (auto split: option.splits if_splits)
  ultimately show ?case using ih unfolding tk by simp
qed

text \<open>
  C15. A timer fires on time and once: if a key without a timer is set with a positive delay and then left
  alone, the \<open>m\<close>-th of any number of following ticks executes the key exactly when \<open>m\<close> is
  \<open>max 1 (delay / interval)\<close>, and with the value set.
\<close>

theorem timer_fires_on_time:
  assumes "wheel_inv tw" "timers tw key = None" "0 < delay" "m < n"
  shows "(key, v) \<in> set (fst (ticks (snd (setTask tw key value delay)) n) ! m) \<longleftrightarrow>
           m + 1 = steps_of tw delay \<and> v = value"
proof -
  note st = setTask_new [OF assms(1-3), of "value"]
  have "wheel_inv (snd (setTask tw key value delay))" using st by simp
  from ticks_pending [OF this, of n key] assms(4) st show ?thesis by auto
qed

definition wheel10 :: "(string, nat) wheel" where
  "wheel10 = \<lparr>winterval = 1, slots = replicate 10 [], timers = Map.empty, tickedPos = 9, numSlots = 10,
     wheap = [], stopped = False\<rparr>"

lemma wheel10_inv: "wheel_inv wheel10"
  using wheel_inv_new [of 1 10 wheel10] by (simp add: NewTimingWheel_def wheel10_def)

theorem timer_fires_on_time_witness:
  "(''k'', 7) \<in> set (fst (ticks (snd (setTask wheel10 ''k'' 7 23)) 30) ! 22)"
proof -
  have n: "timers wheel10 ''k'' = None" by (simp add: wheel10_def)
  have "steps_of wheel10 23 = 23" by (simp add: steps_of_def wheel10_def)
  then show ?thesis using timer_fires_on_time [OF wheel10_inv n, of 23 22 30 7 7] by simp
qed

text \<open>
  C16. Ticks: exactly the timers promised for the next tick are executed, each with the value promised and
  each once; they are gone afterwards, every other timer is one tick nearer, and the wheel stays well formed.
\<close>

theorem onTick_refines:
  assumes "wheel_inv tw"
  shows "wheel_inv (snd (onTick tw))
    \<and> pending (snd (onTick tw)) k = (case pending tw k of None \<Rightarrow> None
        | Some (d, v) \<Rightarrow> if d = 1 then None else Some (d - 1, v))
    \<and> set (fst (onTick tw)) = {(k, v). pending tw k = Some (1, v)} \<and> distinct (map fst (fst (onTick tw)))"
  by (rule onTick_spec [OF assms])

theorem onTick_refines_witness:
  "set (fst (onTick (snd (setTask wheel10 ''k'' 7 1)))) = {(k, v). pending (snd (setTask wheel10 ''k'' 7 1)) k = Some (1, v)}"
proof -
  have n: "timers wheel10 ''k'' = None" by (simp add: wheel10_def)
  have "wheel_inv (snd (setTask wheel10 ''k'' 7 1))"
    using setTask_new [OF wheel10_inv n] by simp
  from onTick_refines [OF this] show ?thesis by blast
qed

text \<open>
  C17. Moving a timer to a delay of at least one interval. With \<open>s\<close> the ticks asked for, the timer then fires
  after \<open>s\<close> ticks, except in two cases in which the position of the wheel lies between the old slot and
  the new one: it fires a whole round late when the new slot is ahead of the wheel's position and the old
  one behind or at it, and a whole round early when the old slot is ahead, the new one is not, and the
  delay is longer than a round. Other timers are not affected.
\<close>

theorem moveTask_due:
  assumes "wheel_inv tw" "timers tw key = Some (tpos, i)" "winterval tw \<le> delay"
  defines "n \<equiv> numSlots tw" and "P \<equiv> tickedPos tw" and "s \<equiv> steps_of tw delay"
  defines "pos \<equiv> (P + s) mod n"
  shows "fst (moveTask tw key delay) = [] \<and> wheel_inv (snd (moveTask tw key delay))
    \<and> pending (snd (moveTask tw key delay)) = (pending tw)(key \<mapsto>
        (if tpos \<le> P \<and> P < pos then s + n
         else if pos \<le> P \<and> P < tpos \<and> n < s then s - n else s, tvalue (wheap tw ! i)))"
proof -
  note inv = wheel_invD [OF assms(1)]
  note g = getPosition_steps [OF assms(1,3), folded s_def]
  have i: "live tw i" "tkey (wheap tw ! i) = key" "tpos < n" "i < length (wheap tw)"
    using inv(9) [OF assms(2)] inv(6) by (auto simp: n_def)
  have P: "P < n" "0 < n" using inv(2,4) by (simp_all add: P_def n_def)
  have pos: "pos < n" using P by (simp add: pos_def)
  define c where "c = (s - 1) div n"
  have ds: "dist n P pos + c * n = s" unfolding pos_def c_def by (rule dist_steps [OF P(1) g(2)])
  have gp: "getPositionAndCircle tw delay = (pos, c)" using g(1) by (simp add: pos_def c_def P_def n_def)
  have c0: "0 < c \<longleftrightarrow> n < s"
  proof -
    have "n < s \<longleftrightarrow> n \<le> s - 1" using g(2) by linarith
    also have "\<dots> \<longleftrightarrow> 0 < c" using P(2) by (simp add: c_def div_greater_zero_iff)
    finally show ?thesis by simp
  qed
  have nd: "\<not> delay < winterval tw" using assms(3) by simp
  show ?thesis
  proof (cases "pos \<ge> tpos")
    case True
    let ?f = "\<lambda>e :: ('a, 'b) timingEntry. e\<lparr>circle := c, tdiff := pos - tpos\<rparr>"
    have mv: "moveTask tw key delay = ([], upd_entry tw i ?f)"
      using assms(2) nd gp True by (simp add: moveTask_def)
    note u = upd_entry_ok [OF assms(1,2), of ?f, folded n_def P_def]
    have "dist n P tpos + c * n + (pos - tpos) = (if tpos \<le> P \<and> P < pos then s + n
         else if pos \<le> P \<and> P < tpos \<and> n < s then s - n else s)"
      using ds True i(3) pos P by (auto simp: dist_def split: if_splits)
    then show ?thesis using u mv i pos by (simp add: live_def n_def)
  next
    case False
    show ?thesis
    proof (cases "0 < c")
      case c: True
      let ?f = "\<lambda>e :: ('a, 'b) timingEntry. e\<lparr>circle := c - 1, tdiff := n + pos - tpos\<rparr>"
      have mv: "moveTask tw key delay = ([], upd_entry tw i ?f)"
        using assms(2) nd gp False c by (simp add: moveTask_def n_def Let_def)
      note u = upd_entry_ok [OF assms(1,2), of ?f, folded n_def P_def]
      have "(c - 1) * n + n = c * n" using c by (cases c) simp_all
      then have "dist n P tpos + (c - 1) * n + (n + pos - tpos) = (if tpos \<le> P \<and> P < pos then s + n
         else if pos \<le> P \<and> P < tpos \<and> n < s then s - n else s)"
        using ds False i(3) pos P c c0 by (auto simp: dist_def split: if_splits)
      then show ?thesis using u mv i pos False by (simp add: live_def n_def)
    next
      case c: False
      have mv: "moveTask tw key delay = ([], add_entry (removeTask tw key) key (tvalue (wheap tw ! i)) pos 0)"
        using assms(2) nd gp False c i(4)
        by (simp add: moveTask_def removeTask_def add_entry_def wheel_ops nth_append)
      have ns: "numSlots (removeTask tw key) = n" "tickedPos (removeTask tw key) = P" "timers (removeTask tw key) key = None"
        using assms(2) by (simp_all add: removeTask_def upd_entry_def n_def P_def Let_def)
      have r: "wheel_inv (removeTask tw key)" "pending (removeTask tw key) = (pending tw)(key := None)"
        by (rule removeTask_ok [OF assms(1)])+
      note a = add_entry_ok [OF r(1) ns(3), of pos "tvalue (wheap tw ! i)" 0, unfolded ns]
      have "dist n P pos = (if tpos \<le> P \<and> P < pos then s + n
         else if pos \<le> P \<and> P < tpos \<and> n < s then s - n else s)"
        using ds False c c0 by auto
      then show ?thesis using a pos mv r(2) by simp
    qed
  qed
qed

text \<open>A wheel of ten slots at position 5 with a timer in slot \<open>p\<close>: due in 8 ticks in slot 3, in 3 ticks in slot 8.\<close>

definition wheel_at5 :: "nat \<Rightarrow> (string, nat) wheel" where
  "wheel_at5 p = \<lparr>winterval = 1, slots = (replicate 10 [])[p := [0]], timers = [''k'' \<mapsto> (p, 0)], tickedPos = 5,
     numSlots = 10, wheap = [\<lparr>tkey = ''k'', tvalue = 7, circle = 0, tdiff = 0, removed = False\<rparr>], stopped = False\<rparr>"

lemma wheel_at5_inv:
  assumes "p < 10"
  shows "wheel_inv (wheel_at5 p)"
proof -
  let ?e = "wheel10\<lparr>tickedPos := 5\<rparr>"
  have e: "wheel_inv ?e" "timers ?e ''k'' = None"
    by (simp_all add: wheel_inv_def wheel_parts wheel10_def)
  have "add_entry ?e ''k'' 7 p 0 = wheel_at5 p" using assms by (simp add: add_entry_eq wheel10_def wheel_at5_def)
  then show ?thesis using add_entry_ok(1) [OF e, of p 7 0] assms by (simp add: wheel10_def)
qed

theorem moveTask_due_witness:
  "pending (snd (moveTask (wheel_at5 3) ''k'' 3)) ''k'' = Some (13, 7)
   \<and> pending (snd (moveTask (wheel_at5 8) ''k'' 17)) ''k'' = Some (7, 7)"
proof -
  have t: "timers (wheel_at5 p) ''k'' = Some (p, 0)" for p by (simp add: wheel_at5_def)
  have d: "winterval (wheel_at5 p) \<le> 3" "winterval (wheel_at5 p) \<le> 17" for p by (simp_all add: wheel_at5_def)
  have "steps_of (wheel_at5 p) 3 = 3" "steps_of (wheel_at5 p) 17 = 17" for p by (simp_all add: steps_of_def wheel_at5_def)
  then show ?thesis
    using moveTask_due [OF wheel_at5_inv t d(1), of 3] moveTask_due [OF wheel_at5_inv t d(2), of 8]
    by (simp add: wheel_at5_def)
qed

text \<open>Moving to a delay below one interval executes the task and keeps its timer: it fires again later.\<close>

lemma moveTask_short_fires_twice:
  assumes "timers tw key = Some (tpos, i)" "delay < winterval tw"
  shows "moveTask tw key delay = ([(tkey (wheap tw ! i), tvalue (wheap tw ! i))], tw)"
  using assms by (simp add: moveTask_def)

text \<open>Draining hands out every pending task and leaves an empty wheel.\<close>

lemma drain_fold:
  assumes "\<And>k q i. m k = Some (q, i) \<Longrightarrow> i \<in> set ids \<and> h i = k"
  shows "foldl (\<lambda>m i. case m (h i) of Some (_, j) \<Rightarrow> if j = i then m(h i := None) else m | None \<Rightarrow> m) m ids = Map.empty"
  using assms
proof (induction ids arbitrary: m)
  case (Cons a ids)
  let ?m = "case m (h a) of Some (_, j) \<Rightarrow> if j = a then m(h a := None) else m | None \<Rightarrow> m"
  have "i \<in> set ids \<and> h i = k" if "?m k = Some (q, i)" for k q i
  proof -
    have mk: "m k = Some (q, i)" using that by (auto split: option.splits if_splits)
    then have i: "i \<in> set (a # ids)" "h i = k" using Cons.prems by blast+
    have "i \<noteq> a" using that mk i(2) by (auto split: option.splits if_splits)
    with i show ?thesis by simp
  qed
  from Cons.IH [OF this] show ?case by simp
next
  case Nil
  have "m k = None" for k using Nil by (cases "m k") auto
  then show ?case by (simp add: fun_eq_iff)
qed

lemma drainAll_spec:
  assumes "wheel_inv tw"
  shows "set (fst (drainAll tw)) = {(k, v). \<exists>d. pending tw k = Some (d, v)}
    \<and> pending (snd (drainAll tw)) = Map.empty \<and> concat (slots (snd (drainAll tw))) = []"
proof -
  note inv = wheel_invD [OF assms]
  have mem: "i \<in> set (concat (slots tw)) \<longleftrightarrow> (\<exists>q < numSlots tw. i \<in> set (slots tw ! q))" for i
  proof -
    have "i \<in> set (concat (slots tw)) \<longleftrightarrow> (\<exists>x \<in> set (slots tw). i \<in> set x)" by auto
    also have "\<dots> \<longleftrightarrow> (\<exists>q < length (slots tw). i \<in> set (slots tw ! q))" by (metis in_set_conv_nth)
    finally show ?thesis by (simp add: inv(3))
  qed
  have out: "(k, v) \<in> set (fst (drainAll tw)) \<longleftrightarrow> (\<exists>d. pending tw k = Some (d, v))" for k v
  proof
    assume "(k, v) \<in> set (fst (drainAll tw))"
    then obtain i where i: "i \<in> set (concat (slots tw))" "live tw i" "tkey (wheap tw ! i) = k" "tvalue (wheap tw ! i) = v"
      by (auto simp: drainAll_def live_def Let_def)
    then obtain q where "q < numSlots tw" "i \<in> set (slots tw ! q)" using mem by blast
    then have "timers tw k = Some (q, i)" using inv(8) i by blast
    then show "\<exists>d. pending tw k = Some (d, v)" using i(4) by (simp add: pending_def)
  next
    assume "\<exists>d. pending tw k = Some (d, v)"
    then obtain q i where t: "timers tw k = Some (q, i)" "tvalue (wheap tw ! i) = v"
      by (auto simp: pending_def split: option.splits)
    then have "i \<in> set (concat (slots tw))" "live tw i" "tkey (wheap tw ! i) = k" using inv(9) [OF t(1)] mem by blast+
    then show "(k, v) \<in> set (fst (drainAll tw))" using t(2) by (force simp: drainAll_def live_def Let_def)
  qed
  have "timers (snd (drainAll tw)) = Map.empty"
  proof -
    have "i \<in> set (concat (slots tw)) \<and> tkey (wheap tw ! i) = k" if "timers tw k = Some (q, i)" for k q i
      using inv(9) [OF that] mem by blast
    from drain_fold [of "timers tw" "concat (slots tw)" "\<lambda>i. tkey (wheap tw ! i)", OF this] show ?thesis
      by (simp add: drainAll_def Let_def)
  qed
  then have "pending (snd (drainAll tw)) = Map.empty" by (simp add: pending_def fun_eq_iff)
  moreover have "concat (slots (snd (drainAll tw))) = []" by (simp add: drainAll_def Let_def)
  moreover have "set (fst (drainAll tw)) = {(k, v). \<exists>d. pending tw k = Some (d, v)}"
    using out by (auto simp del: split_paired_Ex)
  ultimately show ?thesis by blast
qed

end
