(* ===== verification/Cache.thy ===== *)
theory Cache
  imports TimingWheel
begin

text \<open>
  \<open>pkg/core/collection/cache.go\<close> with the jitter of \<open>pkg/core/mathx\<close>. The cache owns a timing wheel and
  talks to it through unbuffered channels that only the wheel's goroutine receives from; the wheel calls
  the cache back from that same goroutine when a timer fires (\<open>safeGo\<close> calls its argument, it does not
  start a goroutine). The state therefore records whether the wheel's goroutine is inside a callback;
  a channel operation that can never proceed is the value \<open>None\<close>.
\<close>

section \<open>Jitter\<close>

definition NewUnstable :: "float64 \<Rightarrow> float64" where
  "NewUnstable deviation =
     (let deviation = (if deviation < 0 then 0 else deviation) in if deviation > 1 then 1 else deviation)"

text \<open>\<open>u\<close> is the random number in the unit interval.\<close>

definition AroundDuration :: "float64 \<Rightarrow> float64 \<Rightarrow> duration \<Rightarrow> duration" where
  "AroundDuration deviation u base = float_to_int ((1 + deviation - 2 * deviation * u) * of_int base)"

lemma AroundDuration_bounds:
  assumes "0 \<le> u" "u \<le> 1" "0 \<le> base" "0 \<le> d" "d \<le> 1"
  shows "of_int (AroundDuration d u base) \<le> (1 + d) * of_int base"
    "(1 - d) * of_int base - 1 < of_int (AroundDuration d u base)"
proof -
  let ?x = "(1 + d - 2 * d * u) * of_int base :: rat"
  have "d * u \<le> d * 1" using assms by (intro mult_left_mono)
  moreover have "0 \<le> d * u" using assms by simp
  ultimately have "d * u \<le> d" "0 \<le> d * u" by simp_all
  then have f: "1 - d \<le> 1 + d - 2 * d * u" "1 + d - 2 * d * u \<le> 1 + d" by auto
  have up: "?x \<le> (1 + d) * of_int base" and lo: "(1 - d) * of_int base \<le> ?x"
    using f assms(3) by (auto intro: mult_right_mono)
  have "0 \<le> (1 - d) * (of_int base :: rat)" using assms by simp
  then have "0 \<le> ?x" using lo by linarith
  then have "of_int (AroundDuration d u base) \<le> ?x" "?x < of_int (AroundDuration d u base) + 1"
    using floor_correct [of ?x] by (simp_all add: AroundDuration_def float_to_int_def)
  then show "of_int (AroundDuration d u base) \<le> (1 + d) * of_int base"
    "(1 - d) * of_int base - 1 < of_int (AroundDuration d u base)" using up lo by linarith+
qed

section \<open>The key LRU\<close>

text \<open>The list \<open>evicts\<close>, front first; the map \<open>elements\<close> holds exactly its members.\<close>

record keyLru =
  llimit :: nat
  evicts :: "string list"

text \<open>\<open>add\<close> and \<open>remove\<close> return the key for which \<open>onEvict\<close> is called.\<close>

definition lru_add :: "keyLru \<Rightarrow> string \<Rightarrow> string option \<times> keyLru" where
  "lru_add l key =
     (if key \<in> set (evicts l) then (None, l\<lparr>evicts := key # removeAll key (evicts l)\<rparr>)
      else let l = l\<lparr>evicts := key # evicts l\<rparr>
           in if length (evicts l) > llimit l
              then (Some (last (evicts l)), l\<lparr>evicts := butlast (evicts l)\<rparr>) else (None, l))"

definition lru_remove :: "keyLru \<Rightarrow> string \<Rightarrow> string option \<times> keyLru" where
  "lru_remove l key =
     (if key \<in> set (evicts l) then (Some key, l\<lparr>evicts := removeAll key (evicts l)\<rparr>) else (None, l))"

section \<open>The cache\<close>

definition cache_slots :: int where "cache_slots = 300"
definition expiryDeviation :: float64 where "expiryDeviation = 5 / 100"

record 'v cache =
  cdata :: "string \<rightharpoonup> 'v"
  cexpire :: duration
  cwheel :: "(string, 'v) wheel"
  clru :: "keyLru option"
  cbusy :: bool
  clocked :: bool
  cqueue :: "string list"

text \<open>
  \<open>cbusy\<close>: the wheel's goroutine waits inside an expiry callback, with the expired keys \<open>cqueue\<close> still to
  handle; \<open>clocked\<close>: the cache's mutex is held by a goroutine that waits for the wheel. An operation either
  returns (\<open>Done\<close>) or waits, in the state it has reached (\<open>Stuck\<close>), until the cache is closed.
\<close>

datatype ('a, 'c) outcome = Done 'a 'c | Stuck 'c

fun left_in :: "('a, 'c) outcome \<Rightarrow> 'c" where
  "left_in (Done _ c) = c"
| "left_in (Stuck c) = c"

definition NewCache :: "duration \<Rightarrow> int option \<Rightarrow> err + 'v cache" where
  "NewCache expire limit =
     (case NewTimingWheel Second cache_slots of
        Inl e \<Rightarrow> Inl e
      | Inr tw \<Rightarrow> Inr \<lparr>cdata = Map.empty, cexpire = expire, cwheel = tw,
          clru = (case limit of None \<Rightarrow> None | Some n \<Rightarrow> if n > 0 then Some \<lparr>llimit = nat n, evicts = []\<rparr> else None),
          cbusy = False, clocked = False, cqueue = []\<rparr>)"

text \<open>\<open>RemoveTimer\<close> from the cache: refused by a stopped wheel, waiting while its goroutine is in a callback.\<close>

definition cache_RemoveTimer :: "bool \<Rightarrow> 'v cache \<Rightarrow> string \<Rightarrow> (unit, 'v cache) outcome" where
  "cache_RemoveTimer inside c key =
     (if stopped (cwheel c) then Done () c
      else if inside \<or> cbusy c then Stuck c
      else Done () (c\<lparr>cwheel := snd (RemoveTimer (cwheel c) (Some key))\<rparr>))"

text \<open>\<open>onEvict\<close> runs with the mutex held. The flag says whether the caller is the wheel's goroutine.\<close>

definition onEvict :: "bool \<Rightarrow> 'v cache \<Rightarrow> string \<Rightarrow> (unit, 'v cache) outcome" where
  "onEvict inside c key =
     (case cache_RemoveTimer inside (c\<lparr>cdata := (cdata c)(key := None)\<rparr>) key of
        Done _ c \<Rightarrow> Done () c
      | Stuck c \<Rightarrow> Stuck (c\<lparr>clocked := True\<rparr>))"

definition lru_step :: "bool \<Rightarrow> 'v cache \<Rightarrow> (keyLru \<Rightarrow> string option \<times> keyLru) \<Rightarrow> (unit, 'v cache) outcome" where
  "lru_step inside c f =
     (case clru c of
        None \<Rightarrow> Done () c
      | Some l \<Rightarrow> (case f l of
                     (None, l) \<Rightarrow> Done () (c\<lparr>clru := Some l\<rparr>)
                   | (Some k, l) \<Rightarrow> onEvict inside (c\<lparr>clru := Some l\<rparr>) k))"

definition Del :: "bool \<Rightarrow> 'v cache \<Rightarrow> string \<Rightarrow> (unit, 'v cache) outcome" where
  "Del inside c key =
     (if clocked c then Stuck c
      else case lru_step inside (c\<lparr>cdata := (cdata c)(key := None)\<rparr>) (\<lambda>l. lru_remove l key) of
             Stuck c \<Rightarrow> Stuck c
           | Done _ c \<Rightarrow> cache_RemoveTimer inside c key)"

text \<open>The wheel's goroutine handing over expired keys.\<close>

fun run_expired :: "'v cache \<Rightarrow> string list \<Rightarrow> 'v cache" where
  "run_expired c [] = c\<lparr>cbusy := False, cqueue := []\<rparr>"
| "run_expired c (key # ks) =
     (case Del True c key of Done _ c \<Rightarrow> run_expired c ks | Stuck c \<Rightarrow> c\<lparr>cbusy := True, cqueue := ks\<rparr>)"

text \<open>A tick of the cache's wheel. It stays possible after \<open>Stop\<close>, so that a run of the model allows more than the code.\<close>

definition cache_tick :: "'v cache \<Rightarrow> 'v cache" where
  "cache_tick c =
     (if cbusy c then c
      else let (tasks, tw) = onTick (cwheel c) in run_expired (c\<lparr>cwheel := tw\<rparr>) (map fst tasks))"

definition doGet :: "'v cache \<Rightarrow> string \<Rightarrow> ('v option, 'v cache) outcome" where
  "doGet c key =
     (if clocked c then Stuck c
      else case cdata c key of
             None \<Rightarrow> Done None c
           | Some v \<Rightarrow> (case lru_step False c (\<lambda>l. lru_add l key) of Stuck c \<Rightarrow> Stuck c | Done _ c \<Rightarrow> Done (Some v) c))"

text \<open>
  The timer calls of \<open>SetWithExpire\<close>; the delay is checked before anything is sent. A \<open>MoveTimer\<close> by less
  than one interval makes the wheel's goroutine run the expiry callback after it has received the request.
\<close>

definition cache_SetTimer :: "'v cache \<Rightarrow> string \<Rightarrow> 'v \<Rightarrow> duration \<Rightarrow> (unit, 'v cache) outcome" where
  "cache_SetTimer c key v delay =
     (if delay \<le> 0 \<or> stopped (cwheel c) then Done () c
      else if cbusy c then Stuck c
      else Done () (let (e, tasks, tw) = SetTimer (cwheel c) (Some key) v delay
                    in run_expired (c\<lparr>cwheel := tw\<rparr>) (map fst tasks)))"

definition cache_MoveTimer :: "'v cache \<Rightarrow> string \<Rightarrow> duration \<Rightarrow> (unit, 'v cache) outcome" where
  "cache_MoveTimer c key delay =
     (if delay \<le> 0 \<or> stopped (cwheel c) then Done () c
      else if cbusy c then Stuck c
      else Done () (let (e, tasks, tw) = MoveTimer (cwheel c) (Some key) delay
                    in run_expired (c\<lparr>cwheel := tw\<rparr>) (map fst tasks)))"

definition SetWithExpire :: "'v cache \<Rightarrow> string \<Rightarrow> 'v \<Rightarrow> duration \<Rightarrow> float64 \<Rightarrow> (unit, 'v cache) outcome" where
  "SetWithExpire c key v expire u =
     (if clocked c then Stuck c
      else case lru_step False (c\<lparr>cdata := (cdata c)(key \<mapsto> v)\<rparr>) (\<lambda>l. lru_add l key) of
             Stuck c' \<Rightarrow> Stuck c'
           | Done _ c' \<Rightarrow>
               (let expiry = AroundDuration (NewUnstable expiryDeviation) u expire
                in if cdata c key \<noteq> None then cache_MoveTimer c' key expiry else cache_SetTimer c' key v expiry))"

definition cache_Set :: "'v cache \<Rightarrow> string \<Rightarrow> 'v \<Rightarrow> float64 \<Rightarrow> (unit, 'v cache) outcome" where
  "cache_Set c key v u = SetWithExpire c key v (cexpire c) u"

text \<open>\<open>Take\<close> by the caller that leads the single flight: lookup, double check, fetch.\<close>

definition Take :: "'v cache \<Rightarrow> string \<Rightarrow> err + 'v \<Rightarrow> float64 \<Rightarrow> (err + 'v, 'v cache) outcome" where
  "Take c key fetched u =
     (case doGet c key of
        Stuck c \<Rightarrow> Stuck c
      | Done (Some v) c \<Rightarrow> Done (Inr v) c
      | Done None c \<Rightarrow>
          (case doGet c key of
             Stuck c \<Rightarrow> Stuck c
           | Done (Some v) c \<Rightarrow> Done (Inr v) c
           | Done None c \<Rightarrow>
               (case fetched of
                  Inl e \<Rightarrow> Done (Inl e) c
                | Inr v \<Rightarrow> (case cache_Set c key v u of Stuck c \<Rightarrow> Stuck c | Done _ c \<Rightarrow> Done (Inr v) c))))"

text \<open>Closing stops the wheel; a callback that waited for it continues, and the mutex is released.\<close>

definition cache_Close :: "'v cache \<Rightarrow> 'v cache" where
  "cache_Close c =
     run_expired (c\<lparr>cwheel := Stop (cwheel c), clocked := False, cqueue := []\<rparr>) (cqueue c)"

text \<open>Any sequence of operations and ticks.\<close>

datatype 'v cache_op =
  OpGet string | OpSet string 'v duration float64 | OpDel string | OpTake string "err + 'v" float64 | OpTick | OpClose

fun cache_step :: "'v cache \<Rightarrow> 'v cache_op \<Rightarrow> 'v cache" where
  "cache_step c (OpGet k) = left_in (doGet c k)"
| "cache_step c (OpSet k v e u) = left_in (SetWithExpire c k v e u)"
| "cache_step c (OpDel k) = left_in (Del False c k)"
| "cache_step c (OpTake k r u) = left_in (Take c k r u)"
| "cache_step c OpTick = cache_tick c"
| "cache_step c OpClose = cache_Close c"

definition cache_run :: "'v cache \<Rightarrow> 'v cache_op list \<Rightarrow> 'v cache" where
  "cache_run = foldl cache_step"

section \<open>Eviction\<close>

definition lru_inv :: "keyLru \<Rightarrow> bool" where
  "lru_inv l \<longleftrightarrow> distinct (evicts l) \<and> 0 < llimit l \<and> length (evicts l) \<le> llimit l"

lemma lru_add_present:
  assumes "lru_inv l" "key \<in> set (evicts l)"
  shows "lru_add l key = (None, l\<lparr>evicts := key # removeAll key (evicts l)\<rparr>)"
    "lru_inv (l\<lparr>evicts := key # removeAll key (evicts l)\<rparr>)"
proof -
  have "length (removeAll key (evicts l)) < length (evicts l)"
    using assms(2) by (rule length_removeAll_less)
  then show "lru_inv (l\<lparr>evicts := key # removeAll key (evicts l)\<rparr>)"
    using assms by (auto simp: lru_inv_def distinct_removeAll)
qed (use assms in \<open>simp add: lru_add_def\<close>)

lemma lru_add_within:
  assumes "lru_inv l" "key \<notin> set (evicts l)" "length (evicts l) < llimit l"
  shows "lru_add l key = (None, l\<lparr>evicts := key # evicts l\<rparr>)" "lru_inv (l\<lparr>evicts := key # evicts l\<rparr>)"
  using assms by (auto simp: lru_add_def lru_inv_def Let_def)

lemma lru_add_full:
  assumes "lru_inv l" "key \<notin> set (evicts l)" "\<not> length (evicts l) < llimit l"
  shows "evicts l \<noteq> []" "lru_add l key = (Some (last (evicts l)), l\<lparr>evicts := key # butlast (evicts l)\<rparr>)"
    "lru_inv (l\<lparr>evicts := key # butlast (evicts l)\<rparr>)"
    "set (butlast (evicts l)) = set (evicts l) - {last (evicts l)}"
proof -
  show ne: "evicts l \<noteq> []" using assms by (auto simp: lru_inv_def)
  then obtain xs x where e: "evicts l = xs @ [x]" by (cases "evicts l" rule: rev_cases) auto
  show "lru_add l key = (Some (last (evicts l)), l\<lparr>evicts := key # butlast (evicts l)\<rparr>)"
    using assms ne by (simp add: lru_add_def Let_def)
  show "lru_inv (l\<lparr>evicts := key # butlast (evicts l)\<rparr>)"
    using assms by (auto simp: lru_inv_def e)
  show "set (butlast (evicts l)) = set (evicts l) - {last (evicts l)}"
    using assms(1) by (auto simp: lru_inv_def e)
qed

lemma lru_remove_inv:
  assumes "lru_inv l"
  shows "lru_inv (snd (lru_remove l key))" "set (evicts (snd (lru_remove l key))) = set (evicts l) - {key}"
    "fst (lru_remove l key) = None \<or> fst (lru_remove l key) = Some key"
  using assms
  by (auto simp: lru_remove_def lru_inv_def distinct_removeAll intro: order_trans [OF length_removeAll_less_eq])

text \<open>Without a limit there is nothing to keep; with one, the keys of the data are the keys of the list.\<close>

definition cache_inv :: "nat option \<Rightarrow> 'v cache \<Rightarrow> bool" where
  "cache_inv n c \<longleftrightarrow>
     (case clru c of None \<Rightarrow> n = None
      | Some l \<Rightarrow> n = Some (llimit l) \<and> lru_inv l \<and> dom (cdata c) = set (evicts l))"

lemma cache_RemoveTimer_frame [simp]:
  "cdata (left_in (cache_RemoveTimer i c k)) = cdata c" "clru (left_in (cache_RemoveTimer i c k)) = clru c"
  by (simp_all add: cache_RemoveTimer_def)

lemma onEvict_frame [simp]:
  "cdata (left_in (onEvict i c k)) = (cdata c)(k := None)" "clru (left_in (onEvict i c k)) = clru c"
  by (simp_all add: onEvict_def cache_RemoveTimer_def)

lemma cache_inv_cong:
  "cdata c' = cdata c \<Longrightarrow> clru c' = clru c \<Longrightarrow> cache_inv n c' = cache_inv n c"
  by (simp add: cache_inv_def split: option.split)

lemma cache_inv_upd [simp]:
  "cache_inv n (c\<lparr>cwheel := w\<rparr>) = cache_inv n c" "cache_inv n (c\<lparr>cbusy := b\<rparr>) = cache_inv n c"
  "cache_inv n (c\<lparr>clocked := b\<rparr>) = cache_inv n c" "cache_inv n (c\<lparr>cqueue := ks\<rparr>) = cache_inv n c"
  by (rule cache_inv_cong; simp)+

text \<open>Using a key: whatever happens to the timers, the key stays, and the oldest other key makes room.\<close>

lemma lru_step_add:
  assumes "case clru c of None \<Rightarrow> n = None
    | Some l \<Rightarrow> n = Some (llimit l) \<and> lru_inv l \<and> dom (cdata c) = insert key (set (evicts l))"
  shows "cache_inv n (left_in (lru_step i c (\<lambda>l. lru_add l key)))
    \<and> cdata (left_in (lru_step i c (\<lambda>l. lru_add l key))) key = cdata c key"
proof (cases "clru c")
  case None
  then show ?thesis using assms by (simp add: lru_step_def cache_inv_def)
next
  case (Some l)
  note l = assms [unfolded Some option.case]
  consider "key \<in> set (evicts l)" | "key \<notin> set (evicts l)" "length (evicts l) < llimit l"
    | "key \<notin> set (evicts l)" "\<not> length (evicts l) < llimit l" by blast
  then show ?thesis
  proof cases
    case 1
    with l lru_add_present [of l key] show ?thesis
      by (auto simp: lru_step_def Some cache_inv_def)
  next
    case 2
    with l lru_add_within [of l key] show ?thesis
      by (auto simp: lru_step_def Some cache_inv_def)
  next
    case 3
    note f = lru_add_full [OF _ 3]
    have "last (evicts l) \<noteq> key" using f(1) l 3(1) by (metis last_in_set)
    moreover have "dom ((cdata c)(last (evicts l) := None)) = insert key (set (butlast (evicts l)))"
      using l f(4) \<open>last (evicts l) \<noteq> key\<close> by auto
    ultimately show ?thesis using l f(2,3) by (simp add: lru_step_def Some cache_inv_def)
  qed
qed

lemma lru_step_remove:
  assumes "cache_inv n c"
  shows "cache_inv n (left_in (lru_step i (c\<lparr>cdata := (cdata c)(key := None)\<rparr>) (\<lambda>l. lru_remove l key)))"
    (is "cache_inv n (left_in ?o)")
proof (cases "clru c")
  case None
  then show ?thesis using assms by (simp add: lru_step_def cache_inv_def)
next
  case (Some l)
  obtain ev l' where r: "lru_remove l key = (ev, l')" by fastforce
  have l: "lru_inv l" "dom (cdata c) = set (evicts l)" "n = Some (llimit l)"
    using assms by (simp_all add: cache_inv_def Some)
  have "llimit l' = llimit l" using r by (auto simp: lru_remove_def split: if_splits)
  with lru_remove_inv [OF l(1), of key] l show ?thesis
    by (cases ev) (auto simp: lru_step_def Some r cache_inv_def)
qed

lemma Del_inv:
  assumes "cache_inv n c"
  shows "cache_inv n (left_in (Del i c key))"
proof (cases "lru_step i (c\<lparr>cdata := (cdata c)(key := None)\<rparr>) (\<lambda>l. lru_remove l key)")
  case (Done u c')
  then have "cache_inv n c'" using lru_step_remove [OF assms, of i key] by simp
  then have "cache_inv n (left_in (cache_RemoveTimer i c' key))"
    using cache_inv_cong [of "left_in (cache_RemoveTimer i c' key)" c' n] by simp
  then show ?thesis using assms Done by (simp add: Del_def)
next
  case (Stuck c')
  then show ?thesis using assms lru_step_remove [OF assms, of i key] by (simp add: Del_def)
qed

lemma run_expired_inv: "cache_inv n c \<Longrightarrow> cache_inv n (run_expired c ks)"
proof (induction ks arbitrary: c)
  case (Cons k ks)
  show ?case using Del_inv [OF Cons.prems, of True k]
    by (cases "Del True c k") (simp_all add: Cons.IH)
qed simp

lemma cache_tick_inv: "cache_inv n c \<Longrightarrow> cache_inv n (cache_tick c)"
  by (simp add: cache_tick_def split_beta run_expired_inv)

lemma timer_inv:
  "cache_inv n c \<Longrightarrow> cache_inv n (left_in (cache_SetTimer c k v d))"
  "cache_inv n c \<Longrightarrow> cache_inv n (left_in (cache_MoveTimer c k d))"
  by (simp_all add: cache_SetTimer_def cache_MoveTimer_def split_beta run_expired_inv)

lemma doGet_inv:
  assumes "cache_inv n c"
  shows "cache_inv n (left_in (doGet c key))"
proof (cases "cdata c key")
  case (Some v)
  then have "insert key (dom (cdata c)) = dom (cdata c)" by auto
  then have "cache_inv n (left_in (lru_step False c (\<lambda>l. lru_add l key)))"
    using assms by (intro lru_step_add [THEN conjunct1]) (auto simp: cache_inv_def split: option.splits)
  then show ?thesis using assms Some by (auto simp: doGet_def split: outcome.split)
qed (use assms in \<open>simp add: doGet_def\<close>)

lemma SetWithExpire_inv:
  assumes "cache_inv n c"
  shows "cache_inv n (left_in (SetWithExpire c key v e u))"
proof -
  let ?o = "lru_step False (c\<lparr>cdata := (cdata c)(key \<mapsto> v)\<rparr>) (\<lambda>l. lru_add l key)"
  have "cache_inv n (left_in ?o)"
    using assms by (intro lru_step_add [THEN conjunct1]) (auto simp: cache_inv_def split: option.splits)
  then show ?thesis using assms
    by (cases ?o) (simp_all add: SetWithExpire_def timer_inv Let_def)
qed

lemma Take_inv:
  assumes "cache_inv n c"
  shows "cache_inv n (left_in (Take c key r u))"
proof -
  have st: "cache_inv n (left_in (case cache_Set c0 key v u of Stuck c \<Rightarrow> Stuck c | Done _ c \<Rightarrow> Done w c))"
    if "cache_inv n c0" for c0 v and w :: "err + 'a"
    using SetWithExpire_inv [OF that, of key v "cexpire c0" u]
    by (cases "cache_Set c0 key v u") (simp_all add: cache_Set_def)
  show ?thesis
  proof (cases "doGet c key")
    case (Done w c1)
    then have c1: "cache_inv n c1" using doGet_inv [OF assms, of key] by simp
    have "cache_inv n (left_in (doGet c1 key))" using c1 by (rule doGet_inv)
    with c1 Done st show ?thesis
      by (cases w; cases "doGet c1 key") (auto simp: Take_def split: option.split sum.split)
  next
    case (Stuck c1)
    then show ?thesis using doGet_inv [OF assms, of key] by (simp add: Take_def)
  qed
qed

lemma cache_step_inv: "cache_inv n c \<Longrightarrow> cache_inv n (cache_step c oper)"
proof (cases oper)
  case OpClose
  assume "cache_inv n c"
  then have "cache_inv n (c\<lparr>cwheel := Stop (cwheel c), clocked := False, cqueue := []\<rparr>)" by simp
  then show ?thesis using OpClose by (simp add: cache_Close_def run_expired_inv)
qed (simp_all add: doGet_inv SetWithExpire_inv Del_inv Take_inv cache_tick_inv)

lemma cache_run_inv: "cache_inv n c \<Longrightarrow> cache_inv n (cache_run c ops)"
  by (induction ops arbitrary: c) (simp_all add: cache_run_def cache_step_inv)

lemma cache_inv_new:
  assumes "NewCache e limit = Inr c"
  shows "cache_inv (case limit of None \<Rightarrow> None | Some n \<Rightarrow> if n > 0 then Some (nat n) else None) c"
  using assms by (auto simp: NewCache_def cache_inv_def lru_inv_def split: sum.splits option.splits if_splits)

text \<open>
  C18. A cache made with a positive limit never holds more entries than the limit, after any sequence of
  reads, writes, deletions, read-through calls, ticks and a close, also when some of them wait for ever.
\<close>

theorem cache_run_bounded:
  assumes "NewCache e (Some n) = Inr c" "0 < n"
  shows "finite (dom (cdata (cache_run c ops))) \<and> int (card (dom (cdata (cache_run c ops)))) \<le> n"
proof -
  have "cache_inv (Some (nat n)) (cache_run c ops)"
    using cache_run_inv [OF cache_inv_new [OF assms(1)], of ops] assms(2) by simp
  then obtain l where l: "lru_inv l" "llimit l = nat n" "dom (cdata (cache_run c ops)) = set (evicts l)"
    by (auto simp: cache_inv_def split: option.splits)
  then have "card (set (evicts l)) \<le> nat n" using card_length [of "evicts l"] by (auto simp: lru_inv_def)
  with l assms(2) show ?thesis by auto
qed

definition sample_cache :: "int \<Rightarrow> nat cache" where
  "sample_cache n = (case NewCache Second (Some n) of Inr c \<Rightarrow> c | Inl e \<Rightarrow> undefined)"

lemma sample_cache: "NewCache Second (Some n) = Inr (sample_cache n)"
  by (simp add: sample_cache_def NewCache_def NewTimingWheel_def cache_slots_def duration_units)

theorem cache_run_bounded_witness:
  "int (card (dom (cdata (cache_run (sample_cache 1) [OpSet ''a'' 1 Second 0, OpSet ''b'' 2 Second 0])))) \<le> 1"
  using cache_run_bounded [OF sample_cache, of 1 "[OpSet ''a'' 1 Second 0, OpSet ''b'' 2 Second 0]"] by simp

section \<open>Expiry\<close>

lemma onTick_stopped: "stopped (snd (onTick tw)) = stopped tw"
  by (simp add: onTick_def scanAndRunTasks_def Let_def split_beta scan_frame)

text \<open>The wheel's goroutine waits for itself.\<close>

definition waits_for_itself :: "'v cache \<Rightarrow> bool" where
  "waits_for_itself c \<longleftrightarrow> cbusy c \<and> \<not> stopped (cwheel c)"

lemma RemoveTimer_waits: "waits_for_itself c \<Longrightarrow> cache_RemoveTimer i c k = Stuck c"
  by (simp add: waits_for_itself_def cache_RemoveTimer_def)

lemma waits_upd [simp]:
  "waits_for_itself (c\<lparr>cdata := d\<rparr>) = waits_for_itself c" "waits_for_itself (c\<lparr>clru := l\<rparr>) = waits_for_itself c"
  "waits_for_itself (c\<lparr>clocked := b\<rparr>) = waits_for_itself c"
  by (simp_all add: waits_for_itself_def)

lemma lru_step_waits: "waits_for_itself c \<Longrightarrow> waits_for_itself (left_in (lru_step i c f))"
  by (auto simp: lru_step_def onEvict_def RemoveTimer_waits split: option.split prod.split)

lemma Del_waits:
  assumes "waits_for_itself c"
  shows "\<exists>c'. Del i c k = Stuck c' \<and> waits_for_itself c'"
  using assms lru_step_waits [of "c\<lparr>cdata := (cdata c)(k := None)\<rparr>" i "\<lambda>l. lru_remove l k"]
  by (auto simp: Del_def RemoveTimer_waits split: outcome.split)

lemma timer_waits:
  assumes "waits_for_itself c"
  shows "cache_SetTimer c k v d = (if d \<le> 0 then Done () c else Stuck c)"
    "cache_MoveTimer c k d = (if d \<le> 0 then Done () c else Stuck c)"
  using assms by (simp_all add: cache_SetTimer_def cache_MoveTimer_def waits_for_itself_def)

lemma Set_waits:
  assumes "waits_for_itself c"
  shows "waits_for_itself (left_in (SetWithExpire c k v e u))"
    "0 < AroundDuration (NewUnstable expiryDeviation) u e \<Longrightarrow> \<exists>c'. SetWithExpire c k v e u = Stuck c'"
  using assms lru_step_waits [of "c\<lparr>cdata := (cdata c)(k \<mapsto> v)\<rparr>" False "\<lambda>l. lru_add l k"]
  by (auto simp: SetWithExpire_def timer_waits Let_def split: outcome.split)

lemma doGet_waits: "waits_for_itself c \<Longrightarrow> waits_for_itself (left_in (doGet c k))"
  using lru_step_waits [of c False "\<lambda>l. lru_add l k"]
  by (auto simp: doGet_def split: outcome.split option.split)

lemma Take_waits:
  assumes "waits_for_itself c"
  shows "waits_for_itself (left_in (Take c k r u))"
proof (cases "doGet c k")
  case (Done w c1)
  then have c1: "waits_for_itself c1" using doGet_waits [OF assms, of k] by simp
  have "waits_for_itself (left_in (doGet c1 k))" using c1 by (rule doGet_waits)
  moreover have "waits_for_itself (left_in (case cache_Set c0 k v u of Stuck c \<Rightarrow> Stuck c | Done _ c \<Rightarrow> Done z c))"
    if "waits_for_itself c0" for c0 v and z :: "err + 'a"
    using Set_waits(1) [OF that, of k v "cexpire c0" u] by (cases "cache_Set c0 k v u") (simp_all add: cache_Set_def)
  ultimately show ?thesis using Done c1
    by (cases w; cases "doGet c1 k") (auto simp: Take_def split: option.split sum.split)
next
  case (Stuck c1)
  then show ?thesis using doGet_waits [OF assms, of k] by (simp add: Take_def)
qed

lemma cache_step_waits:
  assumes "waits_for_itself c" "oper \<noteq> OpClose"
  shows "waits_for_itself (cache_step c oper)"
proof (cases oper)
  case (OpDel k)
  then show ?thesis using Del_waits [OF assms(1), of False k] by auto
next
  case OpTick
  then show ?thesis using assms(1) by (simp add: cache_tick_def waits_for_itself_def)
qed (use assms in \<open>simp_all add: Set_waits doGet_waits Take_waits\<close>)

lemma cache_run_waits:
  "waits_for_itself c \<Longrightarrow> OpClose \<notin> set ops \<Longrightarrow> waits_for_itself (cache_run c ops)"
  by (induction ops arbitrary: c) (auto simp: cache_run_def cache_step_waits)

lemma run_expired_waits:
  assumes "ks \<noteq> []" "\<not> stopped (cwheel c)" "\<not> clocked c"
  shows "waits_for_itself (run_expired c ks)"
proof -
  obtain k ks' where ks: "ks = k # ks'" using assms(1) by (cases ks) auto
  have r: "cache_RemoveTimer True c0 k0 = Stuck c0" if "\<not> stopped (cwheel c0)" for c0 :: "'a cache" and k0
    using that by (simp add: cache_RemoveTimer_def)
  have "\<exists>c'. Del True c k = Stuck c' \<and> \<not> stopped (cwheel c')"
    using assms by (auto simp: Del_def lru_step_def onEvict_def r split: option.split prod.split)
  then show ?thesis by (auto simp: ks waits_for_itself_def)
qed

text \<open>
  C19. The first expiry blocks the cache. When a tick of a running wheel fires a key, the callback deletes
  it from the wheel's own goroutine and then waits for that goroutine to receive the removal of the
  timer. From then on, whatever operations follow short of closing the cache, every deletion and every
  write with a positive expiry waits for ever, and no further key expires.
\<close>

theorem cache_expiry_deadlock:
  assumes "\<not> stopped (cwheel c)" "\<not> cbusy c" "\<not> clocked c" "wheel_inv (cwheel c)"
    "pending (cwheel c) k = Some (1, v)" "OpClose \<notin> set ops"
  shows "(\<forall>key. \<exists>c'. Del False (cache_run (cache_tick c) ops) key = Stuck c')
    \<and> (\<forall>key w e u. 0 < AroundDuration (NewUnstable expiryDeviation) u e \<longrightarrow>
          (\<exists>c'. SetWithExpire (cache_run (cache_tick c) ops) key w e u = Stuck c'))
    \<and> cache_tick (cache_run (cache_tick c) ops) = cache_run (cache_tick c) ops"
proof -
  obtain tasks tw where t: "onTick (cwheel c) = (tasks, tw)" by fastforce
  have "(k, v) \<in> set tasks" using onTick_spec [OF assms(4)] assms(5) t by auto
  moreover have "\<not> stopped tw" using onTick_stopped [of "cwheel c"] assms(1) t by simp
  ultimately have "waits_for_itself (cache_tick c)"
    using assms(2,3) t by (auto simp: cache_tick_def intro!: run_expired_waits)
  then have "waits_for_itself (cache_run (cache_tick c) ops)" using assms(6) by (rule cache_run_waits)
  then show ?thesis using Del_waits Set_waits(2) by (fastforce simp: cache_tick_def waits_for_itself_def)
qed

definition filled_cache :: "nat cache" where
  "filled_cache = cache_step (sample_cache 0) (OpSet ''a'' 7 Second 0)"

lemma filled_cache_facts:
  "\<not> stopped (cwheel filled_cache)" "\<not> cbusy filled_cache" "\<not> clocked filled_cache"
  "wheel_inv (cwheel filled_cache)" "pending (cwheel filled_cache) ''a'' = Some (1, 7)"
proof -
  let ?d = "1050000000"
  obtain w :: "(string, nat) wheel" where w: "NewTimingWheel Second cache_slots = Inr w"
    by (simp add: NewTimingWheel_def cache_slots_def duration_units)
  then have new: "sample_cache 0 = \<lparr>cdata = Map.empty, cexpire = Second, cwheel = w, clru = None,
      cbusy = False, clocked = False, cqueue = []\<rparr>"
    by (simp add: sample_cache_def NewCache_def)
  have wf: "wheel_inv w" "pending w = Map.empty" using wheel_inv_new [OF w] by simp_all
  have t: "timers w = Map.empty" "\<not> stopped w" "winterval w = Second"
    using w by (auto simp: NewTimingWheel_def split: if_splits)
  have d: "AroundDuration (NewUnstable expiryDeviation) 0 Second = ?d"
    by (simp add: AroundDuration_def NewUnstable_def expiryDeviation_def duration_units float_to_int_def)
  have n: "timers w ''a'' = None" by (simp add: t)
  have st: "fst (setTask w ''a'' 7 ?d) = [] \<and> wheel_inv (snd (setTask w ''a'' 7 ?d))
      \<and> pending (snd (setTask w ''a'' 7 ?d)) = (pending w)(''a'' \<mapsto> (steps_of w ?d, 7))"
    by (rule setTask_new [OF wf(1) n]) simp
  have "\<not> stopped (snd (setTask w ''a'' 7 ?d))"
    using t by (simp add: setTask_def wheel_ops split_beta)
  moreover have c: "cwheel filled_cache = snd (setTask w ''a'' 7 ?d)" "\<not> cbusy filled_cache" "\<not> clocked filled_cache"
    unfolding filled_cache_def cache_step.simps
    by (simp_all add: new SetWithExpire_def lru_step_def cache_SetTimer_def SetTimer_def t d st split_beta)
  moreover have "steps_of w ?d = 1" by (simp add: steps_of_def t duration_units)
  ultimately show "\<not> stopped (cwheel filled_cache)" "\<not> cbusy filled_cache" "\<not> clocked filled_cache"
    "wheel_inv (cwheel filled_cache)" "pending (cwheel filled_cache) ''a'' = Some (1, 7)"
    using st by simp_all
qed

theorem cache_expiry_deadlock_witness:
  "\<exists>c'. Del False (cache_run (cache_tick filled_cache) [OpGet ''a'']) ''b'' = Stuck c'"
  using cache_expiry_deadlock [OF filled_cache_facts, of "[OpGet ''a'']"] by simp

end
