(* ===== verification/RegistryCache.thy ===== *)
theory RegistryCache
  imports Errno
begin

text \<open>
  \<open>pkg/registry/registry.go\<close> (the instance type) and \<open>pkg/registry/cache/cache.go\<close>: a read-through cache
  in front of a discovery. One call is one flight of \<open>singleflight\<close>, so calls for a name do not overlap.
  The wrapped discovery is outside: its answer is an argument. So are the readings of the clock, in the
  order in which a call can make them.
\<close>

section \<open>Model\<close>

text \<open>A nil slice or map is \<open>None\<close>.\<close>

record serviceInstance =
  ID :: string
  Name :: string
  Version :: string
  Metadata :: "(string \<rightharpoonup> string) option"
  Endpoints :: "string list option"

definition defaultTTL :: duration where "defaultTTL = Minute"
definition defaultNodeTTL :: duration where "defaultNodeTTL = 30 * Second"
definition defaultMinRetryInterval :: duration where "defaultMinRetryInterval = 5 * Second"

record cacheOptions =
  TTL :: duration
  NodeTTL :: duration
  MinRetryInterval :: duration

datatype cacheOption = WithTTL duration | WithNodeTTL duration | WithMinRetryInterval duration

fun apply_cacheOption :: "cacheOptions \<Rightarrow> cacheOption \<Rightarrow> cacheOptions" where
  "apply_cacheOption p (WithTTL d) = p\<lparr>TTL := d\<rparr>"
| "apply_cacheOption p (WithNodeTTL d) = p\<lparr>NodeTTL := d\<rparr>"
| "apply_cacheOption p (WithMinRetryInterval d) = p\<lparr>MinRetryInterval := d\<rparr>"

record registryCache =
  ropts :: cacheOptions
  status :: "string \<rightharpoonup> err"
  snapshots :: "string \<rightharpoonup> serviceInstance list"
  ttls :: "string \<rightharpoonup> time"
  nttls :: "string \<rightharpoonup> (string \<rightharpoonup> time)"
  lastRefresh :: "string \<rightharpoonup> time"

definition New_cache :: "cacheOption list \<Rightarrow> registryCache" where
  "New_cache opts =
     \<lparr>ropts = foldl apply_cacheOption
        \<lparr>TTL = defaultTTL, NodeTTL = defaultNodeTTL, MinRetryInterval = defaultMinRetryInterval\<rparr> opts,
      status = Map.empty, snapshots = Map.empty, ttls = Map.empty, nttls = Map.empty, lastRefresh = Map.empty\<rparr>"

text \<open>Copying an empty, non-nil endpoint slice with \<open>append\<close> gives a nil slice.\<close>

definition clone_instance :: "serviceInstance \<Rightarrow> serviceInstance" where
  "clone_instance inst =
     inst\<lparr>Endpoints := (case Endpoints inst of None \<Rightarrow> None | Some [] \<Rightarrow> None | Some (e # es) \<Rightarrow> Some (e # es))\<rparr>"

definition cloneInstances :: "serviceInstance list \<Rightarrow> serviceInstance list" where
  "cloneInstances insts = map clone_instance insts"

text \<open>Reading a missing key of a map of slices gives the nil slice.\<close>

definition snapshot :: "registryCache \<Rightarrow> string \<Rightarrow> serviceInstance list" where
  "snapshot c name = (case snapshots c name of None \<Rightarrow> [] | Some insts \<Rightarrow> insts)"

definition isValidLocked :: "registryCache \<Rightarrow> time \<Rightarrow> string \<Rightarrow> bool" where
  "isValidLocked c now name =
     (case snapshots c name of
        None \<Rightarrow> False
      | Some _ \<Rightarrow> (case ttls c name of None \<Rightarrow> False | Some expiry \<Rightarrow> \<not> now > expiry))"

definition isThrottledLocked :: "registryCache \<Rightarrow> time \<Rightarrow> string \<Rightarrow> bool" where
  "isThrottledLocked c now name =
     (if snapshot c name = [] then False
      else case lastRefresh c name of None \<Rightarrow> False | Some refreshed \<Rightarrow> now - refreshed < MinRetryInterval (ropts c))"

text \<open>
  The loop over the instances: the ones kept and the node table without the expired ones. It also covers the
  early return for an empty table, which drops nothing.
\<close>

fun prune_loop :: "time \<Rightarrow> (string \<rightharpoonup> time) \<Rightarrow> serviceInstance list \<Rightarrow> serviceInstance list \<times> (string \<rightharpoonup> time)" where
  "prune_loop now nt [] = ([], nt)"
| "prune_loop now nt (inst # insts) =
     (case nt (ID inst) of
        Some expiry \<Rightarrow>
          if now > expiry then prune_loop now (nt(ID inst := None)) insts
          else let (kept, nt) = prune_loop now nt insts in (inst # kept, nt)
      | None \<Rightarrow> let (kept, nt) = prune_loop now nt insts in (inst # kept, nt))"

definition pruneExpiredNodesLocked :: "registryCache \<Rightarrow> time \<Rightarrow> string \<Rightarrow> serviceInstance list \<times> registryCache" where
  "pruneExpiredNodesLocked c now name =
     (case nttls c name of
        None \<Rightarrow> (cloneInstances (snapshot c name), c)
      | Some nt \<Rightarrow>
          let (kept, nt') = prune_loop now nt (snapshot c name)
          in (cloneInstances kept, c\<lparr>nttls := (nttls c)(name \<mapsto> nt')\<rparr>))"

text \<open>The table of node lifetimes, one reading of the clock per instance.\<close>

fun node_ttls :: "duration \<Rightarrow> (nat \<Rightarrow> time) \<Rightarrow> serviceInstance list \<Rightarrow> (string \<rightharpoonup> time) \<Rightarrow> (string \<rightharpoonup> time)" where
  "node_ttls d clk [] m = m"
| "node_ttls d clk (inst # insts) m = node_ttls d (\<lambda>i. clk (Suc i)) insts (m(ID inst \<mapsto> clk 0 + d))"

text \<open>
  A call of \<open>fetch\<close>: its result, whether the discovery was asked, and the new state. The readings of the
  clock are 0 for freshness, 1 for the throttle, 2 for pruning, 3 for the refresh time, 4 for the lifetime
  of the snapshot and the following ones for its nodes.
\<close>

definition fetch ::
  "registryCache \<Rightarrow> (nat \<Rightarrow> time) \<Rightarrow> string \<Rightarrow> err + serviceInstance list \<Rightarrow>
   (err + serviceInstance list) \<times> bool \<times> registryCache" where
  "fetch c clk name reply =
     (if isValidLocked c (clk 0) name \<or> isThrottledLocked c (clk 1) name then
        (let (insts, c) = pruneExpiredNodesLocked c (clk 2) name in (Inr insts, False, c))
      else
        (let c = c\<lparr>lastRefresh := (lastRefresh c)(name \<mapsto> clk 3)\<rparr>
         in case reply of
              Inl e \<Rightarrow>
                (let c = c\<lparr>status := (status c)(name \<mapsto> e)\<rparr>
                 in if snapshot c name \<noteq> [] then (Inr (cloneInstances (snapshot c name)), True, c)
                    else (Inl e, True, c))
            | Inr insts \<Rightarrow>
                (Inr (cloneInstances insts), True,
                 c\<lparr>status := (status c)(name := None), snapshots := (snapshots c)(name \<mapsto> insts),
                   ttls := (ttls c)(name \<mapsto> clk 4 + TTL (ropts c)),
                   nttls := (nttls c)(name \<mapsto> node_ttls (NodeTTL (ropts c)) (\<lambda>i. clk (5 + i)) insts Map.empty)\<rparr>)))"

definition GetService ::
  "registryCache \<Rightarrow> (nat \<Rightarrow> time) \<Rightarrow> string \<Rightarrow> err + serviceInstance list \<Rightarrow>
   (err + serviceInstance list) \<times> bool \<times> registryCache" where
  "GetService c clk name reply =
     (case fetch c clk name reply of
        (Inl e, called, c) \<Rightarrow> (Inl e, called, c)
      | (Inr v, called, c) \<Rightarrow> (Inr v, called, c))"

section \<open>One call\<close>

lemma GetService_fetch: "GetService = fetch"
  by (intro ext) (simp add: GetService_def split: prod.split sum.split)

lemma snapshot_upd [simp]:
  "snapshot (c\<lparr>lastRefresh := x\<rparr>) name = snapshot c name" "snapshot (c\<lparr>status := y\<rparr>) name = snapshot c name"
  "snapshot (c\<lparr>nttls := z\<rparr>) name = snapshot c name"
  by (simp_all add: snapshot_def)

text \<open>Which instances a pruning drops, when the identifiers are distinct.\<close>

definition expired_in :: "(string \<rightharpoonup> time) \<Rightarrow> time \<Rightarrow> serviceInstance \<Rightarrow> bool" where
  "expired_in nt now inst \<longleftrightarrow> (case nt (ID inst) of None \<Rightarrow> False | Some expiry \<Rightarrow> now > expiry)"

lemma prune_loop_spec:
  "distinct (map ID insts) \<Longrightarrow>
   prune_loop now nt insts =
     (filter (\<lambda>i. \<not> expired_in nt now i) insts, nt |` (- ID ` {i \<in> set insts. expired_in nt now i}))"
proof (induction insts arbitrary: nt)
  case (Cons inst insts)
  have same: "expired_in (nt(ID inst := None)) now i = expired_in nt now i" if "i \<in> set insts" for i
  proof -
    have "ID i \<in> ID ` set insts" using that by simp
    then have "ID i \<noteq> ID inst" using Cons.prems by auto
    then show ?thesis by (simp add: expired_in_def)
  qed
  show ?case
  proof (cases "expired_in nt now inst")
    case True
    define nt' where "nt' = nt(ID inst := None)"
    have "prune_loop now nt (inst # insts) = prune_loop now nt' insts"
      using True by (auto simp: expired_in_def nt'_def split: option.splits)
    also have "\<dots> = (filter (\<lambda>i. \<not> expired_in nt' now i) insts, nt' |` (- ID ` {i \<in> set insts. expired_in nt' now i}))"
      using Cons.prems by (intro Cons.IH) simp
    also have "filter (\<lambda>i. \<not> expired_in nt' now i) insts = filter (\<lambda>i. \<not> expired_in nt now i) (inst # insts)"
      using True same by (auto simp: nt'_def intro!: filter_cong)
    also have "{i \<in> set insts. expired_in nt' now i} = {i \<in> set insts. expired_in nt now i}"
      using same by (auto simp: nt'_def)
    also have "nt' |` (- ID ` {i \<in> set insts. expired_in nt now i})
        = nt |` (- ID ` {i \<in> set (inst # insts). expired_in nt now i})"
      using True by (auto simp: nt'_def restrict_map_def fun_eq_iff)
    finally show ?thesis .
  next
    case False
    then have "{i \<in> set (inst # insts). expired_in nt now i} = {i \<in> set insts. expired_in nt now i}" by auto
    moreover have "prune_loop now nt (inst # insts) = (let (kept, nt) = prune_loop now nt insts in (inst # kept, nt))"
      using False by (auto simp: expired_in_def split: option.splits)
    ultimately show ?thesis using Cons False by simp
  qed
qed (simp add: restrict_map_def)

lemma prune_loop_subset: "set (fst (prune_loop now nt insts)) \<subseteq> set insts"
  by (induction insts arbitrary: nt) (auto simp: split_beta Let_def split: option.split)

text \<open>The abstract view: the last good reply of the discovery for every name.\<close>

lemma fetch_snapshot:
  "snapshot (snd (snd (fetch c clk name reply))) n =
     (if n = name \<and> fst (snd (fetch c clk name reply)) \<and> \<not> isl reply then projr reply else snapshot c n)"
  by (cases reply)
    (auto simp: fetch_def pruneExpiredNodesLocked_def snapshot_def Let_def split_beta split: option.split)

lemma fetch_result:
  "case fst (fetch c clk name reply) of
     Inl e \<Rightarrow> reply = Inl e \<and> snapshot c name = [] \<and> fst (snd (fetch c clk name reply))
   | Inr v \<Rightarrow>
       if fst (snd (fetch c clk name reply)) then
         (case reply of Inr insts \<Rightarrow> v = cloneInstances insts
          | Inl e \<Rightarrow> snapshot c name \<noteq> [] \<and> v = cloneInstances (snapshot c name))
       else set v \<subseteq> set (cloneInstances (snapshot c name))"
proof (cases "isValidLocked c (clk 0) name \<or> isThrottledLocked c (clk 1) name")
  case True
  then show ?thesis
    by (auto simp: fetch_def pruneExpiredNodesLocked_def cloneInstances_def split_beta Let_def
        split: option.split dest: subsetD [OF prune_loop_subset])
next
  case False
  then show ?thesis by (cases reply) (auto simp: fetch_def Let_def)
qed

section \<open>Histories\<close>

text \<open>A history of calls: what was asked with which clock, what the discovery replied if it was asked, the answer.\<close>

record rcall =
  rname :: string
  rclock :: "nat \<Rightarrow> time"
  rreply :: "err + serviceInstance list"
  ranswer :: "err + serviceInstance list"
  rasked :: bool

fun cache_history :: "registryCache \<Rightarrow> (string \<times> (nat \<Rightarrow> time) \<times> (err + serviceInstance list)) list \<Rightarrow> rcall list" where
  "cache_history c [] = []"
| "cache_history c ((name, clk, reply) # calls) =
     (let (answer, asked, c) = GetService c clk name reply
      in \<lparr>rname = name, rclock = clk, rreply = reply, ranswer = answer, rasked = asked\<rparr> # cache_history c calls)"

text \<open>What a caller can rely on, from the history alone: the last good reply for a name and the last time it was asked for.\<close>

definition good_step :: "string \<Rightarrow> serviceInstance list \<Rightarrow> rcall \<Rightarrow> serviceInstance list" where
  "good_step n g r = (if rname r = n \<and> rasked r \<and> \<not> isl (rreply r) then projr (rreply r) else g)"

definition asked_step :: "string \<Rightarrow> time option \<Rightarrow> rcall \<Rightarrow> time option" where
  "asked_step n t r = (if rname r = n \<and> rasked r then Some (rclock r 3) else t)"

definition last_good :: "rcall list \<Rightarrow> string \<Rightarrow> serviceInstance list" where
  "last_good h n = foldl (good_step n) [] h"

definition last_asked :: "rcall list \<Rightarrow> string \<Rightarrow> time option" where
  "last_asked h n = foldl (asked_step n) None h"

definition answer_ok :: "duration \<Rightarrow> serviceInstance list \<Rightarrow> time option \<Rightarrow> rcall \<Rightarrow> bool" where
  "answer_ok retry good asked r =
     ((case ranswer r of
         Inl e \<Rightarrow> rreply r = Inl e \<and> good = [] \<and> rasked r
       | Inr v \<Rightarrow>
           if rasked r then
             (case rreply r of Inr insts \<Rightarrow> v = cloneInstances insts | Inl e \<Rightarrow> good \<noteq> [] \<and> v = cloneInstances good)
           else list_all (\<lambda>i. i \<in> set (cloneInstances good)) v)
      \<and> (case asked of None \<Rightarrow> True | Some t \<Rightarrow> rasked r \<and> good \<noteq> [] \<longrightarrow> rclock r 1 - t \<ge> retry))"

lemma fetch_asked:
  "fst (snd (fetch c clk name reply)) \<Longrightarrow> snapshot c name \<noteq> [] \<Longrightarrow> lastRefresh c name = Some t \<Longrightarrow>
   clk 1 - t \<ge> MinRetryInterval (ropts c)"
  by (auto simp: fetch_def isThrottledLocked_def split_beta Let_def split: if_splits)

lemma fetch_lastRefresh:
  "lastRefresh (snd (snd (fetch c clk name reply))) n =
     (if n = name \<and> fst (snd (fetch c clk name reply)) then Some (clk 3) else lastRefresh c n)"
  by (cases reply) (auto simp: fetch_def pruneExpiredNodesLocked_def Let_def split_beta split: option.split)

lemma fetch_ropts [simp]: "ropts (snd (snd (fetch c clk name reply))) = ropts c"
  by (cases reply) (auto simp: fetch_def pruneExpiredNodesLocked_def Let_def split_beta split: option.split)

lemma cache_history_answers:
  assumes "i < length (cache_history c calls)"
  shows "answer_ok (MinRetryInterval (ropts c))
    (foldl (good_step (rname (cache_history c calls ! i))) (snapshot c (rname (cache_history c calls ! i)))
       (take i (cache_history c calls)))
    (foldl (asked_step (rname (cache_history c calls ! i))) (lastRefresh c (rname (cache_history c calls ! i)))
       (take i (cache_history c calls)))
    (cache_history c calls ! i)"
  using assms
proof (induction calls arbitrary: c i)
  case (Cons call calls)
  obtain name clk reply where call: "call = (name, clk, reply)" by (cases call)
  obtain answer asked c' where f: "fetch c clk name reply = (answer, asked, c')" by (cases "fetch c clk name reply")
  let ?r = "\<lparr>rname = name, rclock = clk, rreply = reply, ranswer = answer, rasked = asked\<rparr>"
  have h: "cache_history c (call # calls) = ?r # cache_history c' calls"
    by (simp add: call GetService_fetch f)
  have step: "snapshot c' n = good_step n (snapshot c n) ?r" "lastRefresh c' n = asked_step n (lastRefresh c n) ?r" for n
    using fetch_snapshot [of c clk name reply n] fetch_lastRefresh [of c clk name reply n] f
    by (auto simp: good_step_def asked_step_def)
  show ?case
  proof (cases i)
    case 0
    have "answer_ok (MinRetryInterval (ropts c)) (snapshot c name) (lastRefresh c name) ?r"
      using fetch_result [where c = c and clk = clk and name = name and reply = reply]
        fetch_asked [where c = c and clk = clk and name = name and reply = reply] f
      by (auto simp: answer_ok_def list_all_iff split: sum.splits option.splits)
    then show ?thesis by (simp add: h 0)
  next
    case (Suc j)
    have "j < length (cache_history c' calls)" using Cons.prems by (simp add: h Suc)
    from Cons.IH [OF this] show ?thesis
      using fetch_ropts [of c clk name reply] f by (simp add: h Suc step)
  qed
qed simp

text \<open>
  C20. Every answer of a fresh cache, in any history of calls for any services, is what the replies of the
  discovery so far allow: a call that asked the discovery and got a reply answers with that reply; when
  the discovery failed, the last good reply is served, and an error is returned only if there is none or
  it was empty; a call that did not ask serves instances of the last good reply. And a service that has
  known instances is not asked for again within the minimum retry interval.
\<close>

theorem registry_cache_answers:
  assumes "i < length (cache_history (New_cache opts) calls)"
  shows "answer_ok (MinRetryInterval (ropts (New_cache opts)))
    (last_good (take i (cache_history (New_cache opts) calls)) (rname (cache_history (New_cache opts) calls ! i)))
    (last_asked (take i (cache_history (New_cache opts) calls)) (rname (cache_history (New_cache opts) calls ! i)))
    (cache_history (New_cache opts) calls ! i)"
proof -
  have "snapshot (New_cache opts) n = []" "lastRefresh (New_cache opts) n = None" for n
    by (simp_all add: New_cache_def snapshot_def)
  with cache_history_answers [OF assms] show ?thesis by (simp add: last_good_def last_asked_def New_cache_def)
qed

definition inst_a :: serviceInstance where
  "inst_a = \<lparr>ID = ''a'', Name = ''svc'', Version = ''v1'', Metadata = None, Endpoints = Some [''grpc://h:1'']\<rparr>"

definition two_calls :: "(string \<times> (nat \<Rightarrow> time) \<times> (err + serviceInstance list)) list" where
  "two_calls = [(''svc'', \<lambda>_. 0, Inr [inst_a]), (''svc'', \<lambda>_. 2 * Minute, Inl ContextCanceled)]"

theorem registry_cache_answers_witness:
  "ranswer (cache_history (New_cache []) two_calls ! 1) = Inr (cloneInstances [inst_a])"
proof -
  have l: "1 < length (cache_history (New_cache []) two_calls)"
    by (simp add: two_calls_def split_beta)
  have "rasked (cache_history (New_cache []) two_calls ! 1)" "rreply (cache_history (New_cache []) two_calls ! 1) = Inl ContextCanceled"
    "last_good (take 1 (cache_history (New_cache []) two_calls)) (rname (cache_history (New_cache []) two_calls ! 1)) = [inst_a]"
    by (simp_all add: two_calls_def GetService_fetch fetch_def New_cache_def isValidLocked_def isThrottledLocked_def
        snapshot_def last_good_def good_step_def defaultTTL_def defaultMinRetryInterval_def duration_units)
  then show ?thesis
    using registry_cache_answers [OF l] by (auto simp: answer_ok_def split: sum.splits)
qed

section \<open>Expired nodes\<close>

lemma clone_ID [simp]: "ID (clone_instance i) = ID i"
  by (simp add: clone_instance_def)

text \<open>
  C21. The lifetime of a node holds for one call only: within the lifetime of the snapshot, the first call
  after a node has expired leaves the node out, but it also forgets the node's lifetime and keeps the
  node in the snapshot, so that the next call within the lifetime of the snapshot returns it again.
\<close>

theorem expired_node_returns:
  assumes "distinct (map ID insts)" "snapshots c name = Some insts" "nttls c name = Some nt"
    "ttls c name = Some t" "clk 0 \<le> t" "clk' 0 \<le> t"
    "inst \<in> set insts" "nt (ID inst) = Some e" "e < clk 2"
  shows "(\<exists>v. fst (GetService c clk name r) = Inr v \<and> ID inst \<notin> ID ` set v)
    \<and> (\<exists>v. fst (GetService (snd (snd (GetService c clk name r))) clk' name r') = Inr v \<and> clone_instance inst \<in> set v)"
proof -
  define gone where "gone = ID ` {i \<in> set insts. expired_in nt (clk 2) i}"
  let ?kept = "filter (\<lambda>i. \<not> expired_in nt (clk 2) i) insts"
  let ?c' = "c\<lparr>nttls := (nttls c)(name \<mapsto> nt |` (- gone))\<rparr>"
  note ps = prune_loop_spec [OF assms(1)]
  have f1: "fetch c clk name r = (Inr (cloneInstances ?kept), False, ?c')"
    using assms(2-5) by (simp add: fetch_def isValidLocked_def pruneExpiredNodesLocked_def snapshot_def ps gone_def)
  let ?kept' = "filter (\<lambda>i. \<not> expired_in (nt |` (- gone)) (clk' 2) i) insts"
  have f2: "fst (fetch ?c' clk' name r') = Inr (cloneInstances ?kept')"
    using assms(2-6) by (simp add: fetch_def isValidLocked_def pruneExpiredNodesLocked_def snapshot_def ps split_beta Let_def)
  have ex: "expired_in nt (clk 2) inst" using assms(8,9) by (simp add: expired_in_def)
  have "ID inst \<notin> ID ` set (cloneInstances ?kept)"
  proof
    assume "ID inst \<in> ID ` set (cloneInstances ?kept)"
    then obtain i where i: "i \<in> set insts" "\<not> expired_in nt (clk 2) i" "ID i = ID inst"
      by (auto simp: cloneInstances_def)
    then show False using ex by (simp add: expired_in_def)
  qed
  moreover have "ID inst \<in> gone" using ex assms(7) by (auto simp: gone_def)
  then have "inst \<in> set ?kept'" using assms(7) by (simp add: expired_in_def)
  then have "clone_instance inst \<in> set (cloneInstances ?kept')" by (auto simp: cloneInstances_def)
  ultimately show ?thesis using f1 f2 by (auto simp: GetService_fetch)
qed

definition cached_a :: registryCache where
  "cached_a = snd (snd (GetService (New_cache []) (\<lambda>_. 0) ''svc'' (Inr [inst_a])))"

lemma cached_a_eq:
  "snapshots cached_a ''svc'' = Some [inst_a]" "nttls cached_a ''svc'' = Some [''a'' \<mapsto> 30000000000]"
  "ttls cached_a ''svc'' = Some 60000000000"
  by (simp_all add: cached_a_def GetService_fetch fetch_def New_cache_def isValidLocked_def isThrottledLocked_def
      snapshot_def defaultTTL_def defaultNodeTTL_def duration_units inst_a_def)

theorem expired_node_returns_witness:
  "(\<exists>v. fst (GetService cached_a (\<lambda>_. 40 * Second) ''svc'' (Inl ContextCanceled)) = Inr v \<and> ''a'' \<notin> ID ` set v)
   \<and> (\<exists>v. fst (GetService (snd (snd (GetService cached_a (\<lambda>_. 40 * Second) ''svc'' (Inl ContextCanceled))))
          (\<lambda>_. 41 * Second) ''svc'' (Inl ContextCanceled)) = Inr v \<and> clone_instance inst_a \<in> set v)"
proof -
  have "ID inst_a = ''a''" by (simp add: inst_a_def)
  then show ?thesis
    using expired_node_returns [of "[inst_a]" cached_a "''svc''" "[''a'' \<mapsto> 30000000000]" 60000000000
      "\<lambda>_. 40 * Second" "\<lambda>_. 41 * Second" inst_a 30000000000 "Inl ContextCanceled" "Inl ContextCanceled"]
    by (simp add: cached_a_eq duration_units)
qed

end
