(* ===== verification/RegistryStatic.thy ===== *)
theory RegistryStatic
  imports RegistryCache GoStrings "HOL-Library.List_Lexorder" "HOL-Library.Char_ord" "HOL-Library.Multiset"
begin

text \<open>
  \<open>pkg/registry/static\<close> and the factory tables of \<open>pkg/registry\<close>. A Go map is a list of pairs with distinct
  keys in the order in which a loop over it happens to visit it. Strings are ordered byte by byte.
\<close>

section \<open>Bindings\<close>

type_synonym endpoints = "(string \<times> string list) list"

definition bindingSeparator :: char where "bindingSeparator = CHR ''=''"

fun ParseBindings_loop :: "string list \<Rightarrow> endpoints \<Rightarrow> err + endpoints" where
  "ParseBindings_loop [] out = Inr out"
| "ParseBindings_loop (b # bs) out =
     (let (service, addr, ok) = Cut b bindingSeparator
      in if \<not> ok then Inl (ErrString (''static: endpoint '' @ b @ '' is not in service=address form''))
         else let service = TrimSpace service; addr = TrimSpace addr
              in if service = [] then Inl (ErrString (''static: endpoint '' @ b @ '' names no service''))
                 else if addr = [] then Inl (ErrString (''static: service '' @ service @ '' is bound to no address''))
                 else ParseBindings_loop bs (append_at service [addr] out))"

definition ParseBindings :: "string list \<Rightarrow> err + endpoints" where
  "ParseBindings bindings = ParseBindings_loop bindings []"

definition formatBindings :: "endpoints \<Rightarrow> string list" where
  "formatBindings es = sort (concat (map (\<lambda>(service, addrs). map (\<lambda>addr. service @ bindingSeparator # addr) addrs) es))"

section \<open>Discovery\<close>

fun NewDiscovery_loop :: "endpoints \<Rightarrow> endpoints \<Rightarrow> err + endpoints" where
  "NewDiscovery_loop [] copied = Inr copied"
| "NewDiscovery_loop ((service, addrs) # es) copied =
     (if service = [] then Inl (ErrString ''static: an endpoint is bound to no service name'')
      else if addrs = [] then Inl (ErrString (''static: service '' @ service @ '' is bound to no address''))
      else NewDiscovery_loop es (copied @ [(service, addrs)]))"

definition NewDiscovery_static :: "endpoints \<Rightarrow> err + endpoints" where
  "NewDiscovery_static es =
     (if es = [] then Inl (ErrString ''static: no endpoints configured'') else NewDiscovery_loop es [])"

definition discovery_names :: "endpoints \<Rightarrow> string list" where
  "discovery_names d = (let names = sort (map fst d) in if names = [] then [''(none)''] else names)"

definition not_configured :: "endpoints \<Rightarrow> string \<Rightarrow> err" where
  "not_configured d serviceName =
     ErrString (''static: service '' @ serviceName @ '' is not configured; known services: '' @ Join (discovery_names d) '', '')"

definition GetService_static :: "endpoints \<Rightarrow> string \<Rightarrow> err + serviceInstance list" where
  "GetService_static d serviceName =
     (case map_of d serviceName of
        None \<Rightarrow> Inl (not_configured d serviceName)
      | Some addrs \<Rightarrow>
          Inr (map (\<lambda>addr. \<lparr>ID = serviceName @ ''/'' @ addr, Name = serviceName, Version = [], Metadata = None,
                            Endpoints = Some [addr]\<rparr>) addrs))"

text \<open>\<open>Watch\<close> gives a watcher or fails; the watcher's \<open>Next\<close> returns only when its context is done, with its error.\<close>

definition Watch_static :: "endpoints \<Rightarrow> string \<Rightarrow> err option" where
  "Watch_static d serviceName = (case map_of d serviceName of None \<Rightarrow> Some (not_configured d serviceName) | Some _ \<Rightarrow> None)"

definition watcher_Next :: "err option \<Rightarrow> (err + serviceInstance list) option" where
  "watcher_Next ctx_err = (case ctx_err of None \<Rightarrow> None | Some e \<Rightarrow> Some (Inl e))"

section \<open>Backend\<close>

fun appendUnique_loop :: "string list \<Rightarrow> string set \<Rightarrow> string list \<Rightarrow> string list" where
  "appendUnique_loop dst seen [] = dst"
| "appendUnique_loop dst seen (a # as) =
     (if a \<in> seen then appendUnique_loop dst seen as else appendUnique_loop (dst @ [a]) (insert a seen) as)"

definition appendUnique :: "string list \<Rightarrow> string list \<Rightarrow> string list" where
  "appendUnique dst addrs = appendUnique_loop dst (set dst) addrs"

fun put_at :: "string \<Rightarrow> string list \<Rightarrow> endpoints \<Rightarrow> endpoints" where
  "put_at k v [] = [(k, v)]"
| "put_at k v ((k', v') # m) = (if k' = k then (k, v) # m else (k', v') # put_at k v m)"

definition merge_bindings :: "endpoints \<Rightarrow> endpoints \<Rightarrow> endpoints" where
  "merge_bindings es parsed =
     foldl (\<lambda>merged (service, addrs). put_at service (appendUnique (slice_of (map_of merged service)) addrs) merged)
       (foldl (\<lambda>merged (service, addrs). append_at service addrs merged) [] es) parsed"

definition backend_NewDiscovery :: "endpoints \<Rightarrow> string list \<Rightarrow> err + endpoints" where
  "backend_NewDiscovery es bindings =
     (if bindings = [] then NewDiscovery_static es
      else case ParseBindings bindings of
             Inl e \<Rightarrow> Inl e
           | Inr parsed \<Rightarrow> NewDiscovery_static (merge_bindings es parsed))"

section \<open>Factory tables\<close>

definition register_factory :: "(string \<rightharpoonup> 'f) \<Rightarrow> string \<Rightarrow> 'f \<Rightarrow> (string \<rightharpoonup> 'f)" where
  "register_factory tab name f = tab(name \<mapsto> f)"

definition Registered_backend :: "(string \<rightharpoonup> 'b) \<Rightarrow> (string \<rightharpoonup> 'r) \<Rightarrow> (string \<rightharpoonup> 'd) \<Rightarrow> string \<Rightarrow> bool" where
  "Registered_backend backends registrars discoveries name \<longleftrightarrow>
     backends name \<noteq> None \<or> registrars name \<noteq> None \<or> discoveries name \<noteq> None"

definition CreateRegistrar :: "(string \<rightharpoonup> ('o \<Rightarrow> err + 'r)) \<Rightarrow> string \<Rightarrow> 'o \<Rightarrow> err + 'r" where
  "CreateRegistrar tab name opts =
     (case tab name of None \<Rightarrow> Inl (ErrString (''registry registrar '' @ name @ '' not registered'')) | Some f \<Rightarrow> f opts)"

definition CreateDiscovery :: "(string \<rightharpoonup> ('o \<Rightarrow> err + 'd)) \<Rightarrow> string \<Rightarrow> 'o \<Rightarrow> err + 'd" where
  "CreateDiscovery tab name opts =
     (case tab name of None \<Rightarrow> Inl (ErrString (''registry discovery '' @ name @ '' not registered'')) | Some f \<Rightarrow> f opts)"

definition NewBackend :: "(string \<rightharpoonup> (unit \<Rightarrow> 'b)) \<Rightarrow> string \<Rightarrow> err + 'b" where
  "NewBackend tab name =
     (case tab name of None \<Rightarrow> Inl (ErrString (''registry backend '' @ name @ '' not registered'')) | Some f \<Rightarrow> Inr (f ()))"

text \<open>The comparison of configuration keys: hyphens and case do not matter.\<close>

definition normalizeKey :: "string \<Rightarrow> string" where
  "normalizeKey s = ToLower (filter (\<lambda>c. c \<noteq> CHR ''-'') s)"

lemma normalizeKey_hyphen: "normalizeKey (a @ CHR ''-'' # b) = normalizeKey (a @ b)"
  by (simp add: normalizeKey_def)

section \<open>Round trip of bindings\<close>

text \<open>Services and addresses that the flag form can express.\<close>

definition clean :: "string \<Rightarrow> bool" where
  "clean s \<longleftrightarrow> s \<noteq> [] \<and> TrimSpace s = s"

definition endpoints_ok :: "endpoints \<Rightarrow> bool" where
  "endpoints_ok es \<longleftrightarrow> distinct (map fst es)
     \<and> (\<forall>(s, as) \<in> set es. clean s \<and> bindingSeparator \<notin> set s \<and> as \<noteq> [] \<and> (\<forall>a \<in> set as. clean a))"

text \<open>Parsing bindings that are the printed form of pairs collects the addresses of each service in order.\<close>

definition binding :: "string \<times> string \<Rightarrow> string" where
  "binding p = fst p @ bindingSeparator # snd p"

definition addrs_of :: "(string \<times> string) list \<Rightarrow> string \<Rightarrow> string list" where
  "addrs_of ps s = map snd (filter (\<lambda>p. fst p = s) ps)"

lemma addrs_of_simps [simp]:
  "addrs_of [] s = []" "addrs_of ((s', a) # ps) s = (if s' = s then a # addrs_of ps s else addrs_of ps s)"
  by (simp_all add: addrs_of_def)

lemma parse_bindings_loop:
  assumes "\<forall>(s, a) \<in> set ps. clean s \<and> bindingSeparator \<notin> set s \<and> clean a"
  shows "\<exists>out'. ParseBindings_loop (map binding ps) out = Inr out'
    \<and> (\<forall>s. slice_of (map_of out' s) = slice_of (map_of out s) @ addrs_of ps s)
    \<and> (\<forall>s. map_of out' s \<noteq> None \<longleftrightarrow> map_of out s \<noteq> None \<or> addrs_of ps s \<noteq> [])"
  using assms
proof (induction ps arbitrary: out)
  case (Cons p ps)
  obtain s a where p: "p = (s, a)" by (cases p)
  have c: "Cut (binding p) bindingSeparator = (s, a, True)"
    using Cons.prems by (simp add: p binding_def Cut_append)
  obtain out' where o: "ParseBindings_loop (map binding ps) (append_at s [a] out) = Inr out'"
    "\<forall>t. slice_of (map_of out' t) = slice_of (map_of (append_at s [a] out) t) @ addrs_of ps t"
    "\<forall>t. map_of out' t \<noteq> None \<longleftrightarrow> map_of (append_at s [a] out) t \<noteq> None \<or> addrs_of ps t \<noteq> []"
    using Cons.IH [of "append_at s [a] out"] Cons.prems by auto
  have "ParseBindings_loop (map binding (p # ps)) out = Inr out'"
    using c o(1) Cons.prems by (simp add: p clean_def)
  then show ?case using o(2,3) by (auto simp: p map_of_append_at)
qed simp

lemma addrs_of_mset: "mset ps = mset qs \<Longrightarrow> mset (addrs_of ps s) = mset (addrs_of qs s)"
  by (simp add: addrs_of_def mset_map mset_filter)

text \<open>Sorted bindings have the addresses of each service sorted.\<close>

lemma binding_le: "binding (s, a) \<le> binding (s, b) \<longleftrightarrow> a \<le> b"
proof -
  have "s @ x \<le> s @ y \<longleftrightarrow> x \<le> y" for x y :: string by (induction s) auto
  then show ?thesis by (simp add: binding_def)
qed

lemma sorted_addrs_of: "sorted (map binding ps) \<Longrightarrow> sorted (addrs_of ps s)"
proof (induction ps)
  case (Cons p ps)
  obtain t a where p: "p = (t, a)" by (cases p)
  have "a \<le> b" if "t = s" "b \<in> set (addrs_of ps s)" for b
  proof -
    have "(s, b) \<in> set ps" using that(2) by (auto simp: addrs_of_def)
    then have "binding (t, a) \<le> binding (s, b)" using Cons.prems by (auto simp: p)
    then show ?thesis using binding_le that(1) by simp
  qed
  then show ?case using Cons by (auto simp: p)
qed simp

definition pairs_of :: "endpoints \<Rightarrow> (string \<times> string) list" where
  "pairs_of es = concat (map (\<lambda>(s, as). map (Pair s) as) es)"

lemma formatBindings_pairs: "formatBindings es = sort (map binding (pairs_of es))"
  by (simp add: formatBindings_def pairs_of_def map_concat binding_def o_def case_prod_unfold)

lemma addrs_of_pairs: "distinct (map fst es) \<Longrightarrow> addrs_of (pairs_of es) s = slice_of (map_of es s)"
proof (induction es)
  case (Cons e es)
  obtain t as where e: "e = (t, as)" by (cases e)
  have app: "addrs_of (xs @ ys) s = addrs_of xs s @ addrs_of ys s" for xs ys by (simp add: addrs_of_def)
  have one: "addrs_of (map (Pair t) as) s = (if t = s then as else [])"
    by (simp add: addrs_of_def filter_map o_def)
  have "addrs_of (pairs_of es) t = []" if "t = s"
  proof -
    have "map_of es t = None" using Cons.prems e by (simp add: map_of_eq_None_iff)
    then show ?thesis using Cons that by simp
  qed
  then show ?case using Cons by (auto simp: pairs_of_def e app one)
qed (simp add: pairs_of_def)

text \<open>
  C30. Parsing what \<open>formatBindings\<close> prints gives back every service with exactly its addresses, but sorted:
  the flag form keeps the services and the addresses, and loses the order of the addresses.
\<close>

theorem ParseBindings_formatBindings:
  assumes "endpoints_ok es"
  shows "\<exists>out. ParseBindings (formatBindings es) = Inr out \<and> (\<forall>s. map_of out s = map_option sort (map_of es s))"
proof -
  let ?ps = "sort_key binding (pairs_of es)"
  have f: "formatBindings es = map binding ?ps"
    unfolding formatBindings_pairs by (rule properties_for_sort) simp_all
  have ok: "\<forall>(s, a) \<in> set ?ps. clean s \<and> bindingSeparator \<notin> set s \<and> clean a"
    using assms by (auto simp: endpoints_ok_def pairs_of_def split_beta)
  obtain out where out: "ParseBindings (formatBindings es) = Inr out"
    "\<forall>s. slice_of (map_of out s) = addrs_of ?ps s" "\<forall>s. map_of out s \<noteq> None \<longleftrightarrow> addrs_of ?ps s \<noteq> []"
    using parse_bindings_loop [OF ok, of "[]"] unfolding f ParseBindings_def by auto
  have a: "addrs_of ?ps s = sort (slice_of (map_of es s))" for s
  proof -
    have "mset (addrs_of ?ps s) = mset (slice_of (map_of es s))"
      using addrs_of_mset [of ?ps "pairs_of es" s] addrs_of_pairs [of es s] assms by (simp add: endpoints_ok_def)
    moreover have "sorted (addrs_of ?ps s)" by (rule sorted_addrs_of) simp
    ultimately show ?thesis by (metis properties_for_sort)
  qed
  have "map_of out s = map_option sort (map_of es s)" for s
  proof (cases "map_of es s")
    case None
    then have "map_of out s = None" using out(3) a [of s] by (metis list.size(3) length_sort slice_of_simps(1) length_0_conv)
    then show ?thesis using None by simp
  next
    case (Some as)
    then have "as \<noteq> []" using assms map_of_SomeD [OF Some] by (auto simp: endpoints_ok_def)
    then have "addrs_of ?ps s \<noteq> []" unfolding a using Some by (metis length_0_conv length_sort slice_of_simps(2))
    then have "map_of out s \<noteq> None" using out(3) by blast
    then obtain bs where "map_of out s = Some bs" by auto
    then show ?thesis using out(2) a [of s] Some by (metis option.simps(9) slice_of_simps(2))
  qed
  then show ?thesis using out(1) by blast
qed

theorem ParseBindings_formatBindings_witness:
  "\<exists>out. ParseBindings (formatBindings [(''b'', [''y'', ''x'']), (''a'', [''z''])]) = Inr out \<and> map_of out ''b'' = Some [''x'', ''y'']"
proof -
  have "endpoints_ok [(''b'', [''y'', ''x'']), (''a'', [''z''])]" by code_simp
  from ParseBindings_formatBindings [OF this] obtain out where
    o: "ParseBindings (formatBindings [(''b'', [''y'', ''x'']), (''a'', [''z''])]) = Inr out"
       "map_of out ''b'' = Some (sort [''y'', ''x''])" by auto
  moreover have "sort [''y'', ''x''] = [''x'', ''y'']" by code_simp
  ultimately show ?thesis by auto
qed

section \<open>What discovery answers\<close>

lemma NewDiscovery_loop_ok:
  "NewDiscovery_loop es copied = Inr d \<longleftrightarrow> d = copied @ es \<and> (\<forall>(s, as) \<in> set es. s \<noteq> [] \<and> as \<noteq> [])"
proof (induction es arbitrary: copied)
  case (Cons e es)
  obtain s as where "e = (s, as)" by (cases e)
  then show ?case using Cons by auto
qed auto

lemma appendUnique_spec:
  "set (appendUnique dst addrs) = set dst \<union> set addrs"
  "distinct dst \<Longrightarrow> distinct (appendUnique dst addrs)"
proof -
  have "set (appendUnique_loop dst (set dst) addrs) = set dst \<union> set addrs \<and>
      (distinct dst \<longrightarrow> distinct (appendUnique_loop dst (set dst) addrs))"
  proof (induction addrs arbitrary: dst)
    case (Cons a addrs)
    have "insert a (set dst) = set (dst @ [a])" by simp
    then show ?case using Cons [of dst] Cons [of "dst @ [a]"] by auto
  qed simp
  then show "set (appendUnique dst addrs) = set dst \<union> set addrs"
    "distinct dst \<Longrightarrow> distinct (appendUnique dst addrs)"
    by (simp_all add: appendUnique_def)
qed

text \<open>
  A discovery that could be built answers every configured service with one instance per address, never
  with an empty list, and an unconfigured service with an error; a watch succeeds for the same services.
  It cannot be built without endpoints, with an unnamed service or with a service without addresses.
\<close>

theorem static_discovery_answers:
  assumes "NewDiscovery_static es = Inr d"
  shows "es \<noteq> [] \<and> (\<forall>(s, as) \<in> set es. s \<noteq> [] \<and> as \<noteq> [])
    \<and> (\<forall>s. case map_of es s of
          None \<Rightarrow> isl (GetService_static d s) \<and> Watch_static d s \<noteq> None
        | Some as \<Rightarrow> (\<exists>insts. GetService_static d s = Inr insts \<and> insts \<noteq> []
              \<and> map (\<lambda>i. (Name i, Endpoints i)) insts = map (\<lambda>a. (s, Some [a])) as) \<and> Watch_static d s = None)"
proof -
  have d: "d = es" "es \<noteq> []" and ok: "\<forall>(s, as) \<in> set es. s \<noteq> [] \<and> as \<noteq> []"
    using assms by (auto simp: NewDiscovery_static_def NewDiscovery_loop_ok split: if_splits)
  have "as \<noteq> []" if "map_of es s = Some as" for s as using ok map_of_SomeD [OF that] by auto
  then show ?thesis using d ok
    by (auto simp: GetService_static_def Watch_static_def split: option.split)
qed

theorem static_discovery_answers_witness:
  "\<exists>insts. GetService_static [(''svc'', [''h:1'', ''h:2''])] ''svc'' = Inr insts \<and> insts \<noteq> []
     \<and> map (\<lambda>i. (Name i, Endpoints i)) insts = [(''svc'', Some [''h:1'']), (''svc'', Some [''h:2''])]"
proof -
  have "NewDiscovery_static [(''svc'', [''h:1'', ''h:2''])] = Inr [(''svc'', [''h:1'', ''h:2''])]"
    by (simp add: NewDiscovery_static_def)
  from static_discovery_answers [OF this] show ?thesis by (auto dest!: spec [of _ "''svc''"])
qed

end
