(* ===== verification/SingleFlight.thy ===== *)
theory SingleFlight
  imports Errno
begin

text \<open>
  \<open>pkg/core/syncx/singleflight.go\<close> and \<open>pkg/core/syncx/lockedcalls.go\<close>. Both keep a table from keys to calls
  in flight, guarded by a mutex, and a wait group per call. Goroutines are numbered; a step is one critical
  section or one wait of one goroutine, so that every interleaving is a sequence of steps. What the called
  function does is the label of its step.
\<close>

section \<open>Exclusive calls per key\<close>

text \<open>
  The contract the two groups share: a table of keys, each owned by the goroutine that entered it, under
  an identifier that is never used again. A step leaves it alone, enters a free key or gives up an own key.
\<close>

locale exclusive_calls =
  fixes step :: "'s \<Rightarrow> 's \<Rightarrow> bool" and init :: "'s \<Rightarrow> bool"
    and tab :: "'s \<Rightarrow> 'k \<Rightarrow> nat option" and own :: "'s \<Rightarrow> nat \<Rightarrow> ('k \<times> nat) option" and fresh :: "'s \<Rightarrow> nat"
  assumes init_tab: "init s \<Longrightarrow> tab s k = None" and init_own: "init s \<Longrightarrow> own s t = None"
    and step_kinds: "step s s' \<Longrightarrow>
      (tab s' = tab s \<and> own s' = own s \<and> fresh s' = fresh s)
      \<or> (\<exists>t k. tab s k = None \<and> own s t = None \<and> fresh s' = Suc (fresh s)
            \<and> tab s' = (tab s)(k \<mapsto> fresh s) \<and> own s' = (own s)(t \<mapsto> (k, fresh s)))
      \<or> (\<exists>t k c. own s t = Some (k, c) \<and> fresh s' = fresh s
            \<and> tab s' = (tab s)(k := None) \<and> own s' = (own s)(t := None))"
begin

definition owners_ok :: "'s \<Rightarrow> bool" where
  "owners_ok s \<longleftrightarrow>
     (\<forall>t k c. own s t = Some (k, c) \<longrightarrow> tab s k = Some c)
     \<and> (\<forall>t t' k k' c c'. own s t = Some (k, c) \<longrightarrow> own s t' = Some (k', c') \<longrightarrow> k = k' \<or> c = c' \<longrightarrow> t = t')
     \<and> (\<forall>k c. tab s k = Some c \<longrightarrow> c < fresh s \<and> (\<exists>t. own s t = Some (k, c)))"

lemma owners_ok_step:
  assumes "owners_ok s" "step s s'"
  shows "owners_ok s'"
  using step_kinds [OF assms(2)]
proof (elim disjE exE conjE)
  assume "tab s' = tab s" "own s' = own s" "fresh s' = fresh s"
  then show ?thesis using assms(1) by (simp add: owners_ok_def)
next
  fix t k assume a: "tab s k = None" "own s t = None" "fresh s' = Suc (fresh s)"
    "tab s' = (tab s)(k \<mapsto> fresh s)" "own s' = (own s)(t \<mapsto> (k, fresh s))"
  have free: "own s t' \<noteq> Some (k, c)" "own s t' \<noteq> Some (k', fresh s)" for t' c k'
    using assms(1) a(1) unfolding owners_ok_def by (metis option.distinct(1), metis less_irrefl)
  have "\<exists>t'. own s' t' = Some (k', c)" "c < fresh s'" if "tab s' k' = Some c" for k' c
    using assms(1) that a by (auto simp: owners_ok_def split: if_splits) (metis option.distinct(1), meson less_SucI)
  moreover have "tab s' k' = Some c" if "own s' t' = Some (k', c)" for t' k' c
    using assms(1) that a free by (auto simp: owners_ok_def split: if_splits)
  moreover have "t1 = t2" if "own s' t1 = Some (k1, c)" "own s' t2 = Some (k2, c')" "k1 = k2 \<or> c = c'" for t1 t2 k1 k2 c c'
  proof (cases "t1 = t \<or> t2 = t")
    case True
    then show ?thesis using that a(5) free by (auto split: if_splits)
  next
    case False
    then have "own s t1 = Some (k1, c)" "own s t2 = Some (k2, c')" using that a(5) by simp_all
    then show ?thesis using assms(1) that(3) unfolding owners_ok_def by blast
  qed
  ultimately show ?thesis unfolding owners_ok_def by blast
next
  fix t k c assume a: "own s t = Some (k, c)" "fresh s' = fresh s" "tab s' = (tab s)(k := None)" "own s' = (own s)(t := None)"
  have only: "t' = t" if "own s t' = Some (k, c')" for t' c' using assms(1) a(1) that unfolding owners_ok_def by blast
  have "\<exists>t'. own s' t' = Some (k', c')" "c' < fresh s'" if "tab s' k' = Some c'" for k' c'
  proof -
    have "k' \<noteq> k" "tab s k' = Some c'" using that a(3) by (auto split: if_splits)
    then obtain t' where "own s t' = Some (k', c')" "c' < fresh s" using assms(1) unfolding owners_ok_def by blast
    moreover have "t' \<noteq> t" using \<open>k' \<noteq> k\<close> a(1) calculation(1) by auto
    ultimately show "\<exists>t'. own s' t' = Some (k', c')" "c' < fresh s'" using a by (auto intro!: exI [of _ t'])
  qed
  moreover have "tab s' k' = Some c'" if "own s' t' = Some (k', c')" for t' k' c'
  proof -
    have "t' \<noteq> t" "own s t' = Some (k', c')" using that a(4) by (auto split: if_splits)
    then have "k' \<noteq> k" "tab s k' = Some c'" using only assms(1) unfolding owners_ok_def by blast+
    then show ?thesis using a(3) by simp
  qed
  moreover have "t1 = t2" if "own s' t1 = Some (k1, c1)" "own s' t2 = Some (k2, c2)" "k1 = k2 \<or> c1 = c2" for t1 t2 k1 k2 c1 c2
  proof -
    have "own s t1 = Some (k1, c1)" "own s t2 = Some (k2, c2)" using that a(4) by (auto split: if_splits)
    then show ?thesis using assms(1) that(3) unfolding owners_ok_def by blast
  qed
  ultimately show ?thesis unfolding owners_ok_def by blast
qed

lemma owners_ok_reach:
  assumes "step\<^sup>*\<^sup>* s0 s" "init s0"
  shows "owners_ok s"
  using assms
proof (induction rule: rtranclp_induct)
  case base
  then show ?case by (simp add: owners_ok_def init_tab init_own)
qed (blast intro: owners_ok_step)

lemma exclusive:
  assumes "step\<^sup>*\<^sup>* s0 s" "init s0" "own s t = Some (k, c)" "own s t' = Some (k, c')"
  shows "t = t'"
  using owners_ok_reach [OF assms(1,2)] assms(3,4) unfolding owners_ok_def by blast

end

section \<open>Single flight\<close>

text \<open>A call's result: a value and an error, nil being \<open>None\<close>; both are nil until the function has returned.\<close>

type_synonym 'v result = "'v option \<times> err option"

record 'v flight =
  cval :: "'v result"
  cdone :: bool

text \<open>
  Where a goroutine stands in \<open>Do\<close>: before it, waiting for another's call, running the function, in the
  deferred part before and after the deletion of the key (the flag says whether it panics), returned or
  panicked. The result comes with the call it was read from and whether the goroutine ran it itself (\<open>fresh\<close>).
\<close>

datatype 'v place =
  Outside | Waits string nat | Runs string nat | Deletes string nat bool | Signals string nat bool
  | Returned nat bool "'v result" | Panicked

record 'v flightGroup =
  calls :: "string \<rightharpoonup> nat"
  fheap :: "'v flight list"
  place_of :: "nat \<Rightarrow> 'v place"
  flog :: "(nat \<times> nat \<times> 'v result go) list"

definition NewSingleFlight :: "'v flightGroup" where
  "NewSingleFlight = \<lparr>calls = Map.empty, fheap = [], place_of = (\<lambda>_. Outside), flog = []\<rparr>"

definition goto :: "'v flightGroup \<Rightarrow> nat \<Rightarrow> 'v place \<Rightarrow> 'v flightGroup" where
  "goto g t p = g\<lparr>place_of := (place_of g)(t := p)\<rparr>"

text \<open>\<open>createCall\<close>: join the call in flight, or enter a new one.\<close>

definition createCall :: "'v flightGroup \<Rightarrow> nat \<Rightarrow> string \<Rightarrow> 'v flightGroup" where
  "createCall g t key =
     (case calls g key of
        Some c \<Rightarrow> goto g t (Waits key c)
      | None \<Rightarrow>
          (let c = length (fheap g);
               g = g\<lparr>fheap := fheap g @ [\<lparr>cval = (None, None), cdone = False\<rparr>], calls := (calls g)(key \<mapsto> c)\<rparr>
           in goto g t (Runs key c)))"

text \<open>The function returns or panics; the log remembers which goroutine ran which call and how it ended.\<close>

definition call_fn :: "'v flightGroup \<Rightarrow> nat \<Rightarrow> string \<Rightarrow> nat \<Rightarrow> 'v result go \<Rightarrow> 'v flightGroup" where
  "call_fn g t key c r =
     (let g = g\<lparr>flog := flog g @ [(t, c, r)]\<rparr>
      in case r of
           Inr v \<Rightarrow> goto (g\<lparr>fheap := (fheap g)[c := (fheap g ! c)\<lparr>cval := v\<rparr>]\<rparr>) t (Deletes key c False)
         | Inl p \<Rightarrow> goto g t (Deletes key c True))"

definition delete_call :: "'v flightGroup \<Rightarrow> nat \<Rightarrow> string \<Rightarrow> nat \<Rightarrow> bool \<Rightarrow> 'v flightGroup" where
  "delete_call g t key c panics = goto (g\<lparr>calls := (calls g)(key := None)\<rparr>) t (Signals key c panics)"

definition wg_Done :: "'v flightGroup \<Rightarrow> nat \<Rightarrow> nat \<Rightarrow> bool \<Rightarrow> 'v flightGroup" where
  "wg_Done g t c panics =
     (let g = g\<lparr>fheap := (fheap g)[c := (fheap g ! c)\<lparr>cdone := True\<rparr>]\<rparr>
      in goto g t (if panics then Panicked else Returned c True (cval (fheap g ! c))))"

definition wg_Wait :: "'v flightGroup \<Rightarrow> nat \<Rightarrow> nat \<Rightarrow> 'v flightGroup" where
  "wg_Wait g t c = goto g t (Returned c False (cval (fheap g ! c)))"

inductive flight_step :: "'v flightGroup \<Rightarrow> 'v flightGroup \<Rightarrow> bool" where
  create: "place_of g t = Outside \<Longrightarrow> flight_step g (createCall g t key)"
| run: "place_of g t = Runs key c \<Longrightarrow> flight_step g (call_fn g t key c r)"
| del: "place_of g t = Deletes key c panics \<Longrightarrow> flight_step g (delete_call g t key c panics)"
| signal: "place_of g t = Signals key c panics \<Longrightarrow> flight_step g (wg_Done g t c panics)"
| wake: "place_of g t = Waits key c \<Longrightarrow> cdone (fheap g ! c) \<Longrightarrow> flight_step g (wg_Wait g t c)"
| leave: "place_of g t = Returned c fr r \<Longrightarrow> flight_step g (goto g t Outside)"

lemmas flight_ops = createCall_def call_fn_def delete_call_def wg_Done_def wg_Wait_def goto_def Let_def

text \<open>The key a goroutine has entered.\<close>

fun entered :: "'v place \<Rightarrow> (string \<times> nat) option" where
  "entered (Runs k c) = Some (k, c)"
| "entered (Deletes k c _) = Some (k, c)"
| "entered _ = None"

interpretation sf: exclusive_calls flight_step "\<lambda>g. g = NewSingleFlight" calls "\<lambda>g t. entered (place_of g t)" "\<lambda>g. length (fheap g)"
proof
  fix g g' :: "'v flightGroup"
  assume "flight_step g g'"
  then show "calls g' = calls g \<and> (\<lambda>t. entered (place_of g' t)) = (\<lambda>t. entered (place_of g t)) \<and> length (fheap g') = length (fheap g)
      \<or> (\<exists>t k. calls g k = None \<and> entered (place_of g t) = None \<and> length (fheap g') = Suc (length (fheap g))
            \<and> calls g' = (calls g)(k \<mapsto> length (fheap g)) \<and> (\<lambda>t. entered (place_of g' t)) = (\<lambda>t. entered (place_of g t))(t \<mapsto> (k, length (fheap g))))
      \<or> (\<exists>t k c. entered (place_of g t) = Some (k, c) \<and> length (fheap g') = length (fheap g)
            \<and> calls g' = (calls g)(k := None) \<and> (\<lambda>t. entered (place_of g' t)) = (\<lambda>t. entered (place_of g t))(t := None))"
  proof cases
    case (create t key)
    then show ?thesis
      by (cases "calls g key") (auto simp: flight_ops fun_eq_iff intro!: exI [of _ t] exI [of _ key])
  next
    case (run t key c r)
    then show ?thesis by (cases r) (auto simp: flight_ops fun_eq_iff)
  next
    case (del t key c panics)
    then have "entered (place_of g t) = Some (key, c) \<and> length (fheap g') = length (fheap g)
        \<and> calls g' = (calls g)(key := None) \<and> (\<lambda>t. entered (place_of g' t)) = (\<lambda>t. entered (place_of g t))(t := None)"
      by (auto simp: flight_ops fun_eq_iff)
    then show ?thesis by blast
  qed (auto simp: flight_ops fun_eq_iff)
qed (simp_all add: NewSingleFlight_def)

text \<open>
  Results. Every call entered is logged at most once; a call that still runs has neither result nor log
  entry, and a call whose function has ended holds the logged result, which is nil for a panic.
\<close>

fun outcome_value :: "'v result go \<Rightarrow> 'v result" where
  "outcome_value (Inr v) = v"
| "outcome_value (Inl p) = (None, None)"

fun call_at :: "'v place \<Rightarrow> nat option" where
  "call_at (Waits k c) = Some c"
| "call_at (Runs k c) = Some c"
| "call_at (Deletes k c _) = Some c"
| "call_at (Signals k c _) = Some c"
| "call_at (Returned c _ _) = Some c"
| "call_at _ = None"

definition logged_of :: "'v flightGroup \<Rightarrow> nat \<Rightarrow> 'v result go list" where
  "logged_of g c = map (\<lambda>(t, c, r). r) (filter (\<lambda>(t, c', r). c' = c) (flog g))"

text \<open>What holds of the call \<open>c\<close>: it is still running, or its function has ended once.\<close>

definition settled :: "'v flightGroup \<Rightarrow> nat \<Rightarrow> bool" where
  "settled g c \<longleftrightarrow> (\<exists>r. logged_of g c = [r] \<and> cval (fheap g ! c) = outcome_value r)"

definition open_call :: "'v flightGroup \<Rightarrow> nat \<Rightarrow> bool" where
  "open_call g c \<longleftrightarrow> logged_of g c = [] \<and> cval (fheap g ! c) = (None, None) \<and> \<not> cdone (fheap g ! c)"

fun place_ok :: "'v flightGroup \<Rightarrow> 'v place \<Rightarrow> bool" where
  "place_ok g Outside = True"
| "place_ok g Panicked = True"
| "place_ok g (Waits k c) = (c < length (fheap g))"
| "place_ok g (Runs k c) = (c < length (fheap g) \<and> open_call g c)"
| "place_ok g (Deletes k c p) = (c < length (fheap g) \<and> settled g c)"
| "place_ok g (Signals k c p) = (c < length (fheap g) \<and> settled g c)"
| "place_ok g (Returned c f r) = (c < length (fheap g) \<and> settled g c \<and> r = cval (fheap g ! c))"

definition results_ok :: "'v flightGroup \<Rightarrow> bool" where
  "results_ok g \<longleftrightarrow>
     (\<forall>c. length (fheap g) \<le> c \<longrightarrow> logged_of g c = [])
     \<and> (\<forall>c < length (fheap g). settled g c \<or> open_call g c)
     \<and> (\<forall>t. place_ok g (place_of g t))"

text \<open>A step that changes neither the calls nor the log.\<close>

lemma results_ok_place:
  assumes "results_ok g" "fheap g' = fheap g" "flog g' = flog g" "place_of g' = (place_of g)(t := p)" "place_ok g p"
  shows "results_ok g'"
proof -
  have same: "settled g' c = settled g c" "open_call g' c = open_call g c" "logged_of g' c = logged_of g c" for c
    using assms(2,3) by (simp_all add: settled_def open_call_def logged_of_def)
  have "place_ok g' q = place_ok g q" for q using assms(2) same by (cases q) simp_all
  then show ?thesis using assms by (simp add: results_ok_def same)
qed

lemma results_ok_step:
  assumes "results_ok g" "sf.owners_ok g" "flight_step g g'"
  shows "results_ok g'"
  using assms(3)
proof cases
  case (create t key)
  show ?thesis
  proof (cases "calls g key")
    case None
    let ?n = "length (fheap g)"
    have g': "fheap g' = fheap g @ [\<lparr>cval = (None, None), cdone = False\<rparr>]" "flog g' = flog g"
      "place_of g' = (place_of g)(t := Runs key ?n)"
      using create None by (simp_all add: flight_ops)
    have same: "settled g' c = settled g c" "open_call g' c = open_call g c" "logged_of g' c = logged_of g c" if "c < ?n" for c
      using g' that by (simp_all add: settled_def open_call_def logged_of_def nth_append)
    have new: "open_call g' ?n" using g' assms(1) by (simp add: open_call_def results_ok_def logged_of_def)
    have pl: "place_ok g' q" if "place_ok g q" for q
      using that same g'(1) by (cases q) (auto simp: nth_append less_Suc_eq)
    have "place_ok g' (place_of g' u)" for u
      using assms(1) pl [of "place_of g u"] new g' by (cases "u = t") (simp_all add: results_ok_def)
    moreover have "settled g' c \<or> open_call g' c" if "c < length (fheap g')" for c
      using that g'(1) new same [of c] assms(1) by (cases "c = ?n") (auto simp: results_ok_def)
    moreover have "logged_of g' c = []" if "length (fheap g') \<le> c" for c
      using that g'(1,2) assms(1) by (auto simp: results_ok_def logged_of_def)
    ultimately show ?thesis unfolding results_ok_def by blast
  next
    case (Some c)
    then have "c < length (fheap g)" using assms(2) unfolding sf.owners_ok_def by blast
    then show ?thesis using create Some
      by (intro results_ok_place [OF assms(1), of _ t "Waits key c"]) (simp_all add: flight_ops)
  qed
next
  case (run t key c r)
  have c: "c < length (fheap g)" "open_call g c" using assms(1) run(2) by (metis place_ok.simps(4) results_ok_def)+
  have g': "length (fheap g') = length (fheap g)" "\<And>d. d \<noteq> c \<Longrightarrow> fheap g' ! d = fheap g ! d"
    "cval (fheap g' ! c) = outcome_value r" "flog g' = flog g @ [(t, c, r)]"
    "place_of g' = (place_of g)(t := Deletes key c (isl r))"
    using run(1) c by (cases r; auto simp: flight_ops open_call_def)+
  have lg: "logged_of g' d = (if d = c then [r] else logged_of g d)" for d
    using g'(4) c(2) by (auto simp: logged_of_def open_call_def)
  have set_c: "settled g' c" using g'(3) lg by (simp add: settled_def)
  have same: "settled g' d = settled g d" "open_call g' d = open_call g d" if "d \<noteq> c" for d
    using that g'(2) lg by (simp_all add: settled_def open_call_def)
  have un: "\<not> settled g c" using c(2) by (simp add: open_call_def settled_def)
  have "place_ok g' (place_of g' u)" for u
  proof (cases "u = t")
    case True
    then show ?thesis using g' c set_c by simp
  next
    case False
    have "place_of g u \<noteq> Runs k c" for k
      using assms(2) run(2) False unfolding sf.owners_ok_def by (metis entered.simps(1))
    moreover have "place_ok g (place_of g u)" using assms(1) by (simp add: results_ok_def)
    moreover have "settled g' d \<and> fheap g' ! d = fheap g ! d" if "settled g d" for d
      using that un same(1) [of d] g'(2) [of d] by auto
    ultimately have "place_ok g' (place_of g u)"
      using g'(1) same(2) by (cases "place_of g u") auto
    then show ?thesis using False g'(5) by simp
  qed
  moreover have "settled g' d \<or> open_call g' d" if "d < length (fheap g')" for d
    using that g'(1) same set_c assms(1) unfolding results_ok_def by metis
  moreover have "logged_of g' d = []" if "length (fheap g') \<le> d" for d
    using that g'(1) lg c(1) assms(1) by (auto simp: results_ok_def)
  ultimately show ?thesis unfolding results_ok_def by blast
next
  case (del t key c panics)
  have "place_ok g (Deletes key c panics)" using assms(1) del(2) by (metis results_ok_def)
  then show ?thesis using del by (intro results_ok_place [OF assms(1), of _ t "Signals key c panics"]) (simp_all add: flight_ops)
next
  case (wake t key c)
  have c: "place_ok g (Waits key c)" using assms(1) wake(2) by (metis results_ok_def)
  then have "settled g c" using assms(1) wake(3) by (auto simp: results_ok_def open_call_def)
  then show ?thesis using wake c
    by (intro results_ok_place [OF assms(1), of _ t "Returned c False (cval (fheap g ! c))"]) (simp_all add: flight_ops)
next
  case (leave t c fr r)
  then show ?thesis by (intro results_ok_place [OF assms(1), of _ t Outside]) (simp_all add: flight_ops)
next
  case (signal t key c panics)
  have c: "c < length (fheap g)" "settled g c" using assms(1) signal(2) by (metis place_ok.simps(6) results_ok_def)+
  have g': "length (fheap g') = length (fheap g)" "\<And>d. d \<noteq> c \<Longrightarrow> fheap g' ! d = fheap g ! d"
    "\<And>d. cval (fheap g' ! d) = cval (fheap g ! d)" "flog g' = flog g"
    "place_of g' = (place_of g)(t := (if panics then Panicked else Returned c True (cval (fheap g ! c))))"
    using signal(1) c by (auto simp: flight_ops nth_list_update)
  have lg: "logged_of g' d = logged_of g d" for d by (simp add: logged_of_def g')
  have st: "settled g' d = settled g d" for d by (simp add: settled_def lg g')
  have op: "open_call g' d = open_call g d" if "d \<noteq> c" for d using that by (simp add: open_call_def lg g')
  have un: "\<not> open_call g c" using c(2) by (auto simp: open_call_def settled_def)
  have op': "open_call g' d" if "open_call g d" for d using that op un by (cases "d = c") auto
  have "place_ok g' q" if "place_ok g q" for q
    using that g'(1,3) st op' by (cases q) auto
  then have "place_ok g' (place_of g' u)" for u
    using assms(1) g' c st by (cases "u = t") (simp_all add: results_ok_def)
  moreover have "settled g' d \<or> open_call g' d" if "d < length (fheap g')" for d
    using that g'(1) st op c(2) assms(1) unfolding results_ok_def by metis
  ultimately show ?thesis using assms(1) lg g'(1) unfolding results_ok_def by simp
qed

lemma results_ok_reach:
  assumes "flight_step\<^sup>*\<^sup>* NewSingleFlight g"
  shows "results_ok g"
  using assms
proof (induction rule: rtranclp_induct)
  case base
  show ?case by (simp add: results_ok_def NewSingleFlight_def logged_of_def)
next
  case (step g g')
  have "sf.owners_ok g" using step(1) by (rule sf.owners_ok_reach) simp
  then show ?case using step by (blast intro: results_ok_step)
qed

text \<open>
  C22. Single flight, in every interleaving of any number of goroutines: no two of them run the function of
  the same key at the same time, and every result that \<open>Do\<close> or \<open>DoEx\<close> returns, to the goroutine that ran
  the function and to those that waited, is the outcome of the one execution of the call it joined; an
  execution that panicked gives its waiters the nil result without an error.
\<close>

theorem singleflight_shares_one_run:
  assumes "flight_step\<^sup>*\<^sup>* NewSingleFlight g"
  shows "(\<forall>t t' k c c'. place_of g t = Runs k c \<and> place_of g t' = Runs k c' \<longrightarrow> t = t')
    \<and> (\<forall>t c fr r. place_of g t = Returned c fr r \<longrightarrow> (\<exists>u. logged_of g c = [u] \<and> r = outcome_value u))"
proof -
  have "t = t'" if "place_of g t = Runs k c" "place_of g t' = Runs k c'" for t t' k c c'
    using sf.exclusive [OF assms, of t k c t' c'] that by simp
  moreover have "\<exists>u. logged_of g c = [u] \<and> r = outcome_value u" if "place_of g t = Returned c fr r" for t c fr r
    using results_ok_reach [OF assms] that unfolding results_ok_def by (metis place_ok.simps(7) settled_def)
  ultimately show ?thesis by blast
qed

text \<open>A panic: the second goroutine joins the call of the first, whose function panics, and gets nil and no error.\<close>

definition panic_run :: "nat flightGroup list" where
  "panic_run =
     (let g1 = createCall NewSingleFlight 0 ''k''; g2 = createCall g1 1 ''k'';
          g3 = call_fn g2 0 ''k'' 0 (Inl (Panic ''boom'')); g4 = delete_call g3 0 ''k'' 0 True;
          g5 = wg_Done g4 0 0 True; g6 = wg_Wait g5 1 0
      in [g1, g2, g3, g4, g5, g6])"

lemma panic_run_steps: "flight_step\<^sup>*\<^sup>* NewSingleFlight (panic_run ! 5)"
proof -
  let ?g1 = "createCall NewSingleFlight 0 ''k'' :: nat flightGroup"
  let ?g2 = "createCall ?g1 1 ''k''"
  let ?g3 = "call_fn ?g2 0 ''k'' 0 (Inl (Panic ''boom''))"
  let ?g4 = "delete_call ?g3 0 ''k'' 0 True"
  let ?g5 = "wg_Done ?g4 0 0 True"
  have "flight_step NewSingleFlight ?g1" by (rule flight_step.create) (simp add: NewSingleFlight_def)
  moreover have "flight_step ?g1 ?g2" by (rule flight_step.create) (simp add: NewSingleFlight_def flight_ops)
  moreover have "flight_step ?g2 ?g3" by (rule flight_step.run) (simp add: NewSingleFlight_def flight_ops)
  moreover have "flight_step ?g3 ?g4" by (rule flight_step.del) (simp add: NewSingleFlight_def flight_ops)
  moreover have "flight_step ?g4 ?g5" by (rule flight_step.signal) (simp add: NewSingleFlight_def flight_ops)
  moreover have "flight_step ?g5 (wg_Wait ?g5 1 0)"
    by (rule flight_step.wake [of _ _ "''k''"]) (simp_all add: NewSingleFlight_def flight_ops)
  ultimately show ?thesis unfolding panic_run_def Let_def
    by (simp add: numeral_eq_Suc)
qed

theorem singleflight_shares_one_run_witness:
  "place_of (panic_run ! 5) 1 = Returned 0 False (None, None)
   \<and> (\<exists>u. logged_of (panic_run ! 5) 0 = [u] \<and> (None, None) = outcome_value u)"
proof -
  have "place_of (panic_run ! 5) 1 = Returned 0 False (None, None)"
    by (simp add: panic_run_def NewSingleFlight_def flight_ops)
  then show ?thesis using singleflight_shares_one_run [OF panic_run_steps] by blast
qed

section \<open>Locked calls\<close>

text \<open>\<open>LockedCalls\<close>: the same table, but a goroutine that finds its key taken waits and then starts again.\<close>

datatype lplace = LOutside | LBegin string | LWaits string nat | LRuns string nat | LSignals string nat | LReturned

record lockedGroup =
  lm :: "string \<rightharpoonup> nat"
  lwaits :: "bool list"
  lplace_of :: "nat \<Rightarrow> lplace"

definition NewLockedCalls :: lockedGroup where
  "NewLockedCalls = \<lparr>lm = Map.empty, lwaits = [], lplace_of = (\<lambda>_. LOutside)\<rparr>"

definition lgoto :: "lockedGroup \<Rightarrow> nat \<Rightarrow> lplace \<Rightarrow> lockedGroup" where
  "lgoto g t p = g\<lparr>lplace_of := (lplace_of g)(t := p)\<rparr>"

text \<open>The critical section of \<open>Do\<close>, up to the end of the one in \<open>makeCall\<close>, which releases the mutex.\<close>

definition locked_begin :: "lockedGroup \<Rightarrow> nat \<Rightarrow> string \<Rightarrow> lockedGroup" where
  "locked_begin g t key =
     (case lm g key of
        Some w \<Rightarrow> lgoto g t (LWaits key w)
      | None \<Rightarrow>
          (let w = length (lwaits g); g = g\<lparr>lwaits := lwaits g @ [False], lm := (lm g)(key \<mapsto> w)\<rparr>
           in lgoto g t (LRuns key w)))"

definition locked_delete :: "lockedGroup \<Rightarrow> nat \<Rightarrow> string \<Rightarrow> nat \<Rightarrow> lockedGroup" where
  "locked_delete g t key w = lgoto (g\<lparr>lm := (lm g)(key := None)\<rparr>) t (LSignals key w)"

definition locked_signal :: "lockedGroup \<Rightarrow> nat \<Rightarrow> nat \<Rightarrow> lockedGroup" where
  "locked_signal g t w = lgoto (g\<lparr>lwaits := (lwaits g)[w := True]\<rparr>) t LReturned"

inductive locked_step :: "lockedGroup \<Rightarrow> lockedGroup \<Rightarrow> bool" where
  lenter: "lplace_of g t = LOutside \<Longrightarrow> locked_step g (lgoto g t (LBegin key))"
| lbegin: "lplace_of g t = LBegin key \<Longrightarrow> locked_step g (locked_begin g t key)"
| lwake: "lplace_of g t = LWaits key w \<Longrightarrow> lwaits g ! w \<Longrightarrow> locked_step g (lgoto g t (LBegin key))"
| ldelete: "lplace_of g t = LRuns key w \<Longrightarrow> locked_step g (locked_delete g t key w)"
| lsignal: "lplace_of g t = LSignals key w \<Longrightarrow> locked_step g (locked_signal g t w)"
| lleave: "lplace_of g t = LReturned \<Longrightarrow> locked_step g (lgoto g t LOutside)"

lemmas locked_ops = locked_begin_def locked_delete_def locked_signal_def lgoto_def Let_def

fun lentered :: "lplace \<Rightarrow> (string \<times> nat) option" where
  "lentered (LRuns k w) = Some (k, w)"
| "lentered _ = None"

interpretation lc: exclusive_calls locked_step "\<lambda>g. g = NewLockedCalls" lm "\<lambda>g t. lentered (lplace_of g t)" "\<lambda>g. length (lwaits g)"
proof
  fix g g' :: lockedGroup
  assume "locked_step g g'"
  then show "lm g' = lm g \<and> (\<lambda>t. lentered (lplace_of g' t)) = (\<lambda>t. lentered (lplace_of g t)) \<and> length (lwaits g') = length (lwaits g)
      \<or> (\<exists>t k. lm g k = None \<and> lentered (lplace_of g t) = None \<and> length (lwaits g') = Suc (length (lwaits g))
            \<and> lm g' = (lm g)(k \<mapsto> length (lwaits g)) \<and> (\<lambda>t. lentered (lplace_of g' t)) = (\<lambda>t. lentered (lplace_of g t))(t \<mapsto> (k, length (lwaits g))))
      \<or> (\<exists>t k c. lentered (lplace_of g t) = Some (k, c) \<and> length (lwaits g') = length (lwaits g)
            \<and> lm g' = (lm g)(k := None) \<and> (\<lambda>t. lentered (lplace_of g' t)) = (\<lambda>t. lentered (lplace_of g t))(t := None))"
  proof cases
    case (lbegin t key)
    then show ?thesis
      by (cases "lm g key") (auto simp: locked_ops fun_eq_iff intro!: exI [of _ t] exI [of _ key])
  next
    case (ldelete t key c)
    then have "lentered (lplace_of g t) = Some (key, c) \<and> length (lwaits g') = length (lwaits g)
        \<and> lm g' = (lm g)(key := None) \<and> (\<lambda>t. lentered (lplace_of g' t)) = (\<lambda>t. lentered (lplace_of g t))(t := None)"
      by (auto simp: locked_ops fun_eq_iff)
    then show ?thesis by blast
  qed (auto simp: locked_ops fun_eq_iff)
qed (simp_all add: NewLockedCalls_def)

text \<open>Every wait group that is not done is in the hands of a goroutine that will signal it.\<close>

fun lholds :: "lplace \<Rightarrow> nat option" where
  "lholds (LRuns k w) = Some w"
| "lholds (LSignals k w) = Some w"
| "lholds _ = None"

definition waits_ok :: "lockedGroup \<Rightarrow> bool" where
  "waits_ok g \<longleftrightarrow>
     (\<forall>w < length (lwaits g). \<not> lwaits g ! w \<longrightarrow> (\<exists>t. lholds (lplace_of g t) = Some w))
     \<and> (\<forall>t k w. lplace_of g t = LWaits k w \<longrightarrow> w < length (lwaits g))"

lemma lholds_other:
  "\<exists>t. lholds (lplace_of g t) = Some w \<Longrightarrow> lholds (lplace_of g u) \<noteq> Some w \<Longrightarrow>
   \<exists>t. lholds (((lplace_of g)(u := p)) t) = Some w"
  by (metis fun_upd_other)

lemma waits_ok_keep:
  assumes "waits_ok g" "lwaits g' = lwaits g" "lplace_of g' = (lplace_of g)(u := p)"
    "lholds p = lholds (lplace_of g u)" "\<And>k w. p = LWaits k w \<Longrightarrow> w < length (lwaits g)"
  shows "waits_ok g'"
  using assms(1,5) unfolding waits_ok_def assms(2,3) by (metis assms(4) fun_upd_apply)

lemma waits_ok_step:
  assumes "waits_ok g" "lc.owners_ok g" "locked_step g g'"
  shows "waits_ok g'"
  using assms(3)
proof cases
  case (lbegin t key)
  show ?thesis
  proof (cases "lm g key")
    case None
    then have g': "lwaits g' = lwaits g @ [False]" "lplace_of g' = (lplace_of g)(t := LRuns key (length (lwaits g)))"
      using lbegin by (simp_all add: locked_ops)
    have "\<exists>u. lholds (lplace_of g' u) = Some w" if "w < length (lwaits g')" "\<not> lwaits g' ! w" for w
    proof (cases "w = length (lwaits g)")
      case True
      then show ?thesis using g'(2) by (intro exI [of _ t]) simp
    next
      case False
      then have "\<exists>u. lholds (lplace_of g u) = Some w"
        using that g'(1) assms(1) by (simp add: waits_ok_def nth_append)
      then show ?thesis unfolding g'(2) by (rule lholds_other) (simp add: lbegin(2))
    qed
    moreover have "w < length (lwaits g')" if "lplace_of g' u = LWaits k w" for u k w
      using that g' assms(1) by (auto simp: waits_ok_def less_Suc_eq split: if_splits)
    ultimately show ?thesis unfolding waits_ok_def by blast
  next
    case (Some w)
    then have "w < length (lwaits g)" using assms(2) unfolding lc.owners_ok_def by blast
    then show ?thesis using lbegin Some
      by (intro waits_ok_keep [OF assms(1), of _ t "LWaits key w"]) (auto simp: locked_ops)
  qed
next
  case (ldelete t key w)
  then show ?thesis by (intro waits_ok_keep [OF assms(1), of _ t "LSignals key w"]) (auto simp: locked_ops)
next
  case (lsignal t key w)
  then have g': "lwaits g' = (lwaits g)[w := True]" "lplace_of g' = (lplace_of g)(t := LReturned)"
    by (simp_all add: locked_ops)
  have "\<exists>u. lholds (lplace_of g' u) = Some v" if "v < length (lwaits g')" "\<not> lwaits g' ! v" for v
  proof -
    have "v \<noteq> w" using that g'(1) by auto
    then have "\<exists>u. lholds (lplace_of g u) = Some v" using that g'(1) assms(1) by (simp add: waits_ok_def)
    then show ?thesis unfolding g'(2) by (rule lholds_other) (use lsignal(2) \<open>v \<noteq> w\<close> in simp)
  qed
  moreover have "v < length (lwaits g')" if "lplace_of g' u = LWaits k v" for u k v
    using that g' assms(1) by (auto simp: waits_ok_def split: if_splits)
  ultimately show ?thesis unfolding waits_ok_def by blast
next
  case (lenter t key)
  then show ?thesis by (intro waits_ok_keep [OF assms(1), of _ t "LBegin key"]) (auto simp: locked_ops)
next
  case (lwake t key w)
  then show ?thesis by (intro waits_ok_keep [OF assms(1), of _ t "LBegin key"]) (auto simp: locked_ops)
next
  case (lleave t)
  then show ?thesis by (intro waits_ok_keep [OF assms(1), of _ t LOutside]) (auto simp: locked_ops)
qed

lemma waits_ok_reach:
  assumes "locked_step\<^sup>*\<^sup>* NewLockedCalls g"
  shows "waits_ok g"
  using assms
proof (induction rule: rtranclp_induct)
  case base
  show ?case by (simp add: waits_ok_def NewLockedCalls_def)
next
  case (step g g')
  have "lc.owners_ok g" using step(1) by (rule lc.owners_ok_reach) simp
  then show ?case using step by (blast intro: waits_ok_step)
qed

text \<open>
  C23. Locked calls, in every interleaving: two goroutines never run functions of the same key at the same
  time, and nobody waits in vain: the wait group a goroutine waits for is signalled already, or some
  goroutine is running or about to signal it.
\<close>

theorem lockedcalls_exclusive_live:
  assumes "locked_step\<^sup>*\<^sup>* NewLockedCalls g"
  shows "(\<forall>t t' k w w'. lplace_of g t = LRuns k w \<and> lplace_of g t' = LRuns k w' \<longrightarrow> t = t')
    \<and> (\<forall>t k w. lplace_of g t = LWaits k w \<longrightarrow>
         lwaits g ! w \<or> (\<exists>u k'. lplace_of g u = LRuns k' w \<or> lplace_of g u = LSignals k' w))"
proof -
  have "t = t'" if "lplace_of g t = LRuns k w" "lplace_of g t' = LRuns k w'" for t t' k w w'
    using lc.exclusive [OF assms, of t k w t' w'] that by simp
  moreover have "lwaits g ! w \<or> (\<exists>u k'. lplace_of g u = LRuns k' w \<or> lplace_of g u = LSignals k' w)"
    if waiting: "lplace_of g t = LWaits k w" for t k w
  proof (cases "lwaits g ! w")
    case False
    then obtain u where "lholds (lplace_of g u) = Some w"
      using waits_ok_reach [OF assms] waiting unfolding waits_ok_def by blast
    then show ?thesis by (cases "lplace_of g u") auto
  qed simp
  ultimately show ?thesis by blast
qed

definition two_callers :: lockedGroup where
  "two_callers =
     \<lparr>lm = [''k'' \<mapsto> 0], lwaits = [False], lplace_of = (\<lambda>_. LOutside)(0 := LRuns ''k'' 0, 1 := LWaits ''k'' 0)\<rparr>"

lemma two_callers_reach: "locked_step\<^sup>*\<^sup>* NewLockedCalls two_callers"
proof -
  let ?g1 = "lgoto NewLockedCalls 0 (LBegin ''k'')" let ?g2 = "locked_begin ?g1 0 ''k''"
  let ?g3 = "lgoto ?g2 1 (LBegin ''k'')"
  have "locked_step NewLockedCalls ?g1" by (rule locked_step.lenter) (simp add: NewLockedCalls_def)
  moreover have "locked_step ?g1 ?g2" by (rule locked_step.lbegin) (simp add: NewLockedCalls_def locked_ops)
  moreover have "locked_step ?g2 ?g3" by (rule locked_step.lenter) (simp add: NewLockedCalls_def locked_ops)
  moreover have "locked_step ?g3 (locked_begin ?g3 1 ''k'')"
    by (rule locked_step.lbegin) (simp add: NewLockedCalls_def locked_ops)
  moreover have "locked_begin ?g3 1 ''k'' = two_callers"
    by (simp add: two_callers_def NewLockedCalls_def locked_ops fun_eq_iff)
  ultimately show ?thesis by (metis rtranclp.simps)
qed

theorem lockedcalls_exclusive_live_witness:
  "lwaits two_callers ! 0 \<or> (\<exists>u k'. lplace_of two_callers u = LRuns k' 0 \<or> lplace_of two_callers u = LSignals k' 0)"
proof -
  have "lplace_of two_callers 1 = LWaits ''k'' 0" by (simp add: two_callers_def)
  then show ?thesis using lockedcalls_exclusive_live [OF two_callers_reach] by blast
qed

end
