(* ===== verification/Syncx.thy ===== *)
theory Syncx
  imports Limit
begin

text \<open>
  The rest of \<open>pkg/core/syncx\<close>: the resource pool (\<open>pool.go\<close>), the limit with a timeout (\<open>timeoutlimit.go\<close>)
  on its condition (\<open>cond.go\<close>), the spin lock (\<open>spinlock.go\<close>) and the atomic values (\<open>atomic.go\<close>).
  Operations under a mutex and atomic instructions are single steps; goroutines are numbered.
\<close>

section \<open>Pool\<close>

text \<open>The free list holds the items, latest first, with the time they were put back.\<close>

record 'a pool =
  plimit :: int
  created :: int
  maxAge :: duration
  phead :: "('a \<times> time) list"

datatype poolOption = WithMaxAge duration

fun apply_poolOption :: "'a pool \<Rightarrow> poolOption \<Rightarrow> 'a pool" where
  "apply_poolOption p (WithMaxAge d) = p\<lparr>maxAge := d\<rparr>"

definition NewPool :: "int \<Rightarrow> poolOption list \<Rightarrow> 'a pool go" where
  "NewPool n opts =
     (if n \<le> 0 then Inl (Panic ''syncx: pool size must be positive'')
      else Inr (foldl apply_poolOption \<lparr>plimit = n, created = 0, maxAge = 0, phead = []\<rparr> opts))"

text \<open>
  One pass of \<open>Get\<close> up to its return or its wait: what it returns (\<open>None\<close> when it has to wait), the items
  destroyed on the way, and the pool. Every item on the list is looked at with its own clock reading;
  \<open>fresh\<close> is what \<open>create\<close> returns.
\<close>

datatype 'a got = Reused 'a | Fresh 'a | Blocks

fun get_loop :: "'a pool \<Rightarrow> (nat \<Rightarrow> time) \<Rightarrow> 'a \<Rightarrow> ('a \<times> time) list \<Rightarrow> 'a list \<Rightarrow> 'a got \<times> 'a list \<times> 'a pool" where
  "get_loop p clk fresh [] gone =
     (let p = p\<lparr>phead := []\<rparr>
      in if created p < plimit p then (Fresh fresh, gone, p\<lparr>created := created p + 1\<rparr>) else (Blocks, gone, p))"
| "get_loop p clk fresh ((item, lastUsed) # rest) gone =
     (if maxAge p > 0 \<and> clk 0 - lastUsed > maxAge p
      then get_loop (p\<lparr>created := created p - 1\<rparr>) (\<lambda>i. clk (Suc i)) fresh rest (gone @ [item])
      else (Reused item, gone, p\<lparr>phead := rest\<rparr>))"

definition Pool_Get :: "'a pool \<Rightarrow> (nat \<Rightarrow> time) \<Rightarrow> 'a \<Rightarrow> 'a got \<times> 'a list \<times> 'a pool" where
  "Pool_Get p clk fresh = get_loop p clk fresh (phead p) []"

text \<open>A nil item is ignored.\<close>

definition Pool_Put :: "'a pool \<Rightarrow> 'a option \<Rightarrow> time \<Rightarrow> 'a pool" where
  "Pool_Put p x now = (case x of None \<Rightarrow> p | Some item \<Rightarrow> p\<lparr>phead := (item, now) # phead p\<rparr>)"

text \<open>Clients that put back only what they have got: the number of items they hold.\<close>

datatype 'a pool_op = GetOp "nat \<Rightarrow> time" 'a | PutOp 'a time

fun pool_step :: "nat \<times> 'a pool \<Rightarrow> 'a pool_op \<Rightarrow> nat \<times> 'a pool" where
  "pool_step (held, p) (GetOp clk fresh) =
     (case Pool_Get p clk fresh of (Blocks, _, p) \<Rightarrow> (held, p) | (_, _, p) \<Rightarrow> (held + 1, p))"
| "pool_step (held, p) (PutOp x now) =
     (case held of 0 \<Rightarrow> (0, p) | Suc n \<Rightarrow> (n, Pool_Put p (Some x) now))"

definition pool_inv :: "nat \<Rightarrow> 'a pool \<Rightarrow> bool" where
  "pool_inv held p \<longleftrightarrow> created p = int held + int (length (phead p)) \<and> created p \<le> plimit p \<and> 0 < plimit p"

lemma get_loop_spec:
  assumes "created p = int held + int (length items)" "created p \<le> plimit p" "0 < plimit p"
  shows "case get_loop p clk fresh items gone of
      (Blocks, d, p') \<Rightarrow> pool_inv held p' \<and> phead p' = [] \<and> int held = plimit p'
    | (r, d, p') \<Rightarrow> pool_inv (held + 1) p'"
    "plimit (snd (snd (get_loop p clk fresh items gone))) = plimit p"
    "maxAge (snd (snd (get_loop p clk fresh items gone))) = maxAge p"
  using assms
proof (induction items arbitrary: p clk gone)
  case (Cons it items)
  obtain item lastUsed where it: "it = (item, lastUsed)" by (cases it)
  { case 1
    then show ?case using Cons.IH(1) [of "p\<lparr>created := created p - 1\<rparr>" "\<lambda>i. clk (Suc i)" "gone @ [item]"]
      by (auto simp: it pool_inv_def)
  next
    case 2
    then show ?case using Cons.IH(2) [of "p\<lparr>created := created p - 1\<rparr>" "\<lambda>i. clk (Suc i)" "gone @ [item]"]
      by (auto simp: it)
  next
    case 3
    then show ?case using Cons.IH(3) [of "p\<lparr>created := created p - 1\<rparr>" "\<lambda>i. clk (Suc i)" "gone @ [item]"]
      by (auto simp: it) }
qed (auto simp: pool_inv_def Let_def)

lemma pool_step_inv:
  assumes "pool_inv held p" "pool_step (held, p) oper = (held', p')"
  shows "pool_inv held' p' \<and> plimit p' = plimit p"
proof (cases oper)
  case (GetOp clk fresh)
  have "created p = int held + int (length (phead p))" "created p \<le> plimit p" "0 < plimit p"
    using assms(1) by (simp_all add: pool_inv_def)
  note g = get_loop_spec [OF this, of clk fresh "[]", folded Pool_Get_def]
  obtain r d q where q: "Pool_Get p clk fresh = (r, d, q)" by (cases "Pool_Get p clk fresh")
  show ?thesis using g(1,2) assms(2) unfolding GetOp by (cases r) (auto simp: q)
next
  case (PutOp x now)
  then show ?thesis using assms by (auto simp: pool_inv_def Pool_Put_def split: nat.splits)
qed

lemma pool_steps_inv:
  "pool_inv held p \<Longrightarrow>
   (case foldl pool_step (held, p) ops of (held', p') \<Rightarrow> pool_inv held' p' \<and> plimit p' = plimit p)"
proof (induction ops arbitrary: held p)
  case (Cons oper ops)
  obtain h q where s: "pool_step (held, p) oper = (h, q)" by fastforce
  show ?case using Cons.IH [of h q] pool_step_inv [OF Cons.prems s] by (auto simp: s split: prod.splits)
qed simp

lemma NewPool_inv: "NewPool n opts = Inr p \<Longrightarrow> pool_inv 0 p \<and> plimit p = n"
proof -
  have "created (foldl apply_poolOption p opts) = created p \<and> phead (foldl apply_poolOption p opts) = phead p
      \<and> plimit (foldl apply_poolOption p opts) = plimit p" for p :: "'a pool"
  proof (induction opts arbitrary: p)
    case (Cons oper opts)
    then show ?case by (cases oper) simp
  qed simp
  then show "NewPool n opts = Inr p \<Longrightarrow> pool_inv 0 p \<and> plimit p = n"
    by (auto simp: NewPool_def pool_inv_def split: if_splits)
qed

text \<open>
  C24. A pool never has more resources alive than its limit: whatever sequence of \<open>Get\<close> and \<open>Put\<close> its
  clients make, putting back only what they hold, the items held and the idle items together are exactly
  the items counted as created, and at most \<open>n\<close>. And a \<open>Get\<close> that has to wait finds the clients holding
  all \<open>n\<close> of them.
\<close>

theorem pool_bounded:
  assumes "NewPool n opts = Inr p0" "foldl pool_step (0, p0) ops = (held, p)"
  shows "int held + int (length (phead p)) = created p \<and> created p \<le> n
    \<and> (\<forall>clk fresh. fst (Pool_Get p clk fresh) = Blocks \<longrightarrow> int held = n)"
proof -
  have inv: "pool_inv held p" "plimit p = n"
    using pool_steps_inv [of 0 p0 ops] NewPool_inv [OF assms(1)] assms(2) by simp_all
  then have c: "created p = int held + int (length (phead p))" "created p \<le> plimit p" "0 < plimit p"
    by (simp_all add: pool_inv_def)
  have "int held = n" if "fst (Pool_Get p clk fresh) = Blocks" for clk fresh
    using get_loop_spec [OF c, of clk fresh "[]", folded Pool_Get_def] that inv(2)
    by (cases "Pool_Get p clk fresh") auto
  then show ?thesis using c inv(2) by simp
qed

definition pool2 :: "nat pool" where
  "pool2 = \<lparr>plimit = 2, created = 0, maxAge = 10, phead = []\<rparr>"

theorem pool_bounded_witness:
  "int (fst (foldl pool_step (0, pool2) [GetOp (\<lambda>_. 0) 1, GetOp (\<lambda>_. 0) 2, PutOp 1 5, GetOp (\<lambda>_. 99) 3])) +
   int (length (phead (snd (foldl pool_step (0, pool2) [GetOp (\<lambda>_. 0) 1, GetOp (\<lambda>_. 0) 2, PutOp 1 5, GetOp (\<lambda>_. 99) 3]))))
     \<le> 2"
proof -
  let ?ops = "[GetOp (\<lambda>_. 0) 1, GetOp (\<lambda>_. 0) 2, PutOp 1 5, GetOp (\<lambda>_. 99) 3] :: nat pool_op list"
  have n: "NewPool 2 [WithMaxAge 10] = Inr pool2" by (simp add: NewPool_def pool2_def)
  obtain h p where r: "foldl pool_step (0, pool2) ?ops = (h, p)" by fastforce
  from pool_bounded [OF n r] show ?thesis using r by simp
qed

lemma Pool_Get_reused:
  assumes "fst (Pool_Get p clk fresh) = Reused item"
  shows "\<exists>i t. i < length (phead p) \<and> phead p ! i = (item, t) \<and> (0 < maxAge p \<longrightarrow> clk i - t \<le> maxAge p)"
proof -
  have "\<exists>i t. i < length items \<and> items ! i = (item, t) \<and> (0 < maxAge p \<longrightarrow> clk i - t \<le> maxAge p)"
    if "fst (get_loop p clk fresh items gone) = Reused item" for items gone p clk
    using that
  proof (induction items arbitrary: p clk gone)
    case (Cons it items)
    obtain x t where it: "it = (x, t)" by (cases it)
    show ?case
    proof (cases "maxAge p > 0 \<and> clk 0 - t > maxAge p")
      case True
      with Cons.prems Cons.IH [of "p\<lparr>created := created p - 1\<rparr>" "\<lambda>i. clk (Suc i)" "gone @ [x]"]
      show ?thesis by (auto simp: it)
    next
      case False
      then show ?thesis using Cons.prems by (intro exI [of _ "0::nat"]) (auto simp: it)
    qed
  qed (simp add: Let_def split: if_splits)
  then show ?thesis using assms by (simp add: Pool_Get_def)
qed

section \<open>Limit with a timeout\<close>

definition ErrTimeout_syncx :: err where "ErrTimeout_syncx = ErrString ''syncx: borrow timeout''"

text \<open>
  A goroutine in \<open>TimeoutLimit\<close>: outside; about to call \<open>WaitWithTimeout\<close>; waiting at the condition's unbuffered
  channel; woken up with the remaining time; holding a slot; having returned its slot, before the signal;
  returned with a timeout.
\<close>

datatype tplace = TOutside | TEnter duration | TWait duration | TWoken duration | THolds | TSignals | TTimedOut

record timeoutLimit =
  tlimit :: limit
  tplace_of :: "nat \<Rightarrow> tplace"

definition NewTimeoutLimit :: "int \<Rightarrow> timeoutLimit go" where
  "NewTimeoutLimit n =
     (case NewLimit n of Inl e \<Rightarrow> Inl e | Inr l \<Rightarrow> Inr \<lparr>tlimit = l, tplace_of = (\<lambda>_. TOutside)\<rparr>)"

definition tgoto :: "timeoutLimit \<Rightarrow> nat \<Rightarrow> tplace \<Rightarrow> timeoutLimit" where
  "tgoto s t p = s\<lparr>tplace_of := (tplace_of s)(t := p)\<rparr>"

text \<open>A successful \<open>TryBorrow\<close> ends \<open>Borrow\<close>; otherwise it goes on at \<open>otherwise\<close>.\<close>

definition try_or :: "timeoutLimit \<Rightarrow> nat \<Rightarrow> tplace \<Rightarrow> timeoutLimit" where
  "try_or s t otherwise =
     (let (ok, l) = Limit_TryBorrow (tlimit s) in tgoto (s\<lparr>tlimit := l\<rparr>) t (if ok then THolds else otherwise))"

text \<open>After a wake-up with remaining time \<open>d\<close>: try again, give up when no time is left, else wait again.\<close>

definition Borrow_retry :: "timeoutLimit \<Rightarrow> nat \<Rightarrow> duration \<Rightarrow> timeoutLimit" where
  "Borrow_retry s t d = try_or s t (if d \<le> 0 then TTimedOut else TEnter d)"

definition TimeoutLimit_Return :: "timeoutLimit \<Rightarrow> nat \<Rightarrow> timeoutLimit" where
  "TimeoutLimit_Return s t =
     (let (e, l) = Limit_Return (tlimit s)
      in tgoto (s\<lparr>tlimit := l\<rparr>) t (case e of None \<Rightarrow> TSignals | Some _ \<Rightarrow> TOutside))"

text \<open>
  \<open>Signal\<close> sends without blocking: one of the goroutines that wait at the channel receives, after any time
  \<open>elapsed\<close>, or nobody waits and the signal is dropped. When the timer fires, \<open>WaitWithTimeout\<close> returns 0 and
  false, and \<open>Borrow\<close> gives up without another try.
\<close>

inductive tlimit_step :: "timeoutLimit \<Rightarrow> timeoutLimit \<Rightarrow> bool" where
  borrow: "tplace_of s t = TOutside \<Longrightarrow> tlimit_step s (try_or s t (TEnter d))"
| enter: "tplace_of s t = TEnter d \<Longrightarrow> tlimit_step s (tgoto s t (TWait d))"
| timer: "tplace_of s t = TWait d \<Longrightarrow> tlimit_step s (tgoto s t TTimedOut)"
| retry: "tplace_of s t = TWoken d \<Longrightarrow> tlimit_step s (Borrow_retry s t d)"
| giveback: "tplace_of s t = THolds \<Longrightarrow> tlimit_step s (TimeoutLimit_Return s t)"
| wakeup: "tplace_of s t = TSignals \<Longrightarrow> tplace_of s u = TWait d \<Longrightarrow>
    tlimit_step s (tgoto (tgoto s t TOutside) u (TWoken (d - elapsed)))"
| dropped: "tplace_of s t = TSignals \<Longrightarrow> (\<forall>u d. tplace_of s u \<noteq> TWait d) \<Longrightarrow> tlimit_step s (tgoto s t TOutside)"
| expired: "tplace_of s t = TTimedOut \<Longrightarrow> tlimit_step s (tgoto s t TOutside)"

definition holders :: "timeoutLimit \<Rightarrow> nat set" where
  "holders s = {t. tplace_of s t = THolds}"

definition tlimit_inv :: "nat \<Rightarrow> timeoutLimit \<Rightarrow> bool" where
  "tlimit_inv n s \<longleftrightarrow> finite (holders s) \<and> card (holders s) = pool_len (tlimit s)
     \<and> pool_len (tlimit s) \<le> n \<and> pool_cap (tlimit s) = n"

lemma holders_goto:
  "holders (tgoto s t p) = (if p = THolds then insert t (holders s) else holders s - {t})"
  by (auto simp: holders_def tgoto_def)

lemma holders_upd [simp]: "holders (s\<lparr>tlimit := l\<rparr>) = holders s" "tlimit (tgoto s t p) = tlimit s"
  by (simp_all add: holders_def tgoto_def)

lemma try_or_inv:
  assumes "tlimit_inv n s" "t \<notin> holders s" "p \<noteq> THolds"
  shows "tlimit_inv n (try_or s t p)"
proof (cases "pool_len (tlimit s) < pool_cap (tlimit s)")
  case True
  then have "try_or s t p = tgoto (s\<lparr>tlimit := (tlimit s)\<lparr>pool_len := pool_len (tlimit s) + 1\<rparr>\<rparr>) t THolds"
    by (simp add: try_or_def Limit_TryBorrow_def)
  then show ?thesis using assms True by (simp add: tlimit_inv_def holders_goto)
next
  case False
  then have "try_or s t p = tgoto s t p" by (simp add: try_or_def Limit_TryBorrow_def)
  then show ?thesis using assms by (simp add: tlimit_inv_def holders_goto)
qed

lemma tgoto_inv:
  assumes "tlimit_inv n s" "t \<notin> holders s" "p \<noteq> THolds"
  shows "tlimit_inv n (tgoto s t p)"
  using assms by (simp add: tlimit_inv_def holders_goto)

lemma tlimit_inv_step:
  assumes "tlimit_step s s'" "tlimit_inv n s"
  shows "tlimit_inv n s'"
  using assms(1)
proof cases
  case (giveback t)
  then have t: "t \<in> holders s" by (simp add: holders_def)
  moreover have "finite (holders s)" using assms(2) by (simp add: tlimit_inv_def)
  ultimately have "0 < card (holders s)" unfolding card_gt_0_iff by blast
  then show ?thesis using giveback t assms(2)
    by (auto simp: TimeoutLimit_Return_def Limit_Return_def tlimit_inv_def holders_goto)
next
  case (wakeup t u d elapsed)
  have "u \<notin> holders (tgoto s t TOutside)" "t \<notin> holders s" using wakeup by (auto simp: holders_def tgoto_def)
  then show ?thesis using wakeup assms(2) by (simp add: tgoto_inv)
qed (use assms(2) in \<open>auto simp: Borrow_retry_def holders_def intro!: tgoto_inv try_or_inv\<close>)

text \<open>
  A limit with a timeout never lets more than \<open>n\<close> goroutines hold a slot, in any interleaving of
  borrowing, waiting, timing out, returning and signalling, and its channel counts the holders exactly.
\<close>

theorem timeoutlimit_capacity:
  assumes "NewTimeoutLimit n = Inr s0" "tlimit_step\<^sup>*\<^sup>* s0 s"
  shows "finite (holders s) \<and> card (holders s) = pool_len (tlimit s) \<and> int (card (holders s)) \<le> n"
proof -
  have "tlimit_inv (nat n) s0" "0 \<le> n"
    using assms(1) by (auto simp: NewTimeoutLimit_def NewLimit_def tlimit_inv_def holders_def split: if_splits)
  moreover have "tlimit_inv (nat n) s" using assms(2) calculation(1)
    by (induction rule: rtranclp_induct) (auto intro: tlimit_inv_step)
  ultimately show ?thesis by (auto simp: tlimit_inv_def)
qed

definition empty_limit1 :: timeoutLimit where
  "empty_limit1 = \<lparr>tlimit = \<lparr>pool_cap = 1, pool_len = 0\<rparr>, tplace_of = (\<lambda>_. TOutside)\<rparr>"

lemma empty_limit1: "NewTimeoutLimit 1 = Inr empty_limit1"
  by (simp add: NewTimeoutLimit_def NewLimit_def empty_limit1_def)

theorem timeoutlimit_capacity_witness: "int (card (holders (try_or empty_limit1 0 (TEnter 5)))) \<le> 1"
proof -
  have "tlimit_step\<^sup>*\<^sup>* empty_limit1 (try_or empty_limit1 0 (TEnter 5))"
    by (rule r_into_rtranclp, rule tlimit_step.borrow) (simp add: empty_limit1_def)
  then show ?thesis using timeoutlimit_capacity [OF empty_limit1] by blast
qed

text \<open>
  A step taken while no \<open>Return\<close> stands before its \<open>Signal\<close>, and before the goroutine \<open>t\<close> has timed out. A
  goroutine that waits can then only go on waiting or time out: nothing but the timer or a signal ends its wait.
\<close>

definition unsignalled_step :: "nat \<Rightarrow> timeoutLimit \<Rightarrow> timeoutLimit \<Rightarrow> bool" where
  "unsignalled_step t s s' \<longleftrightarrow>
     tlimit_step s s' \<and> (\<forall>u. tplace_of s u \<noteq> TSignals) \<and> tplace_of s t \<noteq> TTimedOut"

lemma unsignalled_waits:
  assumes "(unsignalled_step t)\<^sup>*\<^sup>* s r" "tplace_of s t = TWait d"
  shows "tplace_of r t = TWait d \<or> tplace_of r t = TTimedOut"
  using assms(1)
proof (induction rule: rtranclp_induct)
  case (step r r')
  then have r: "tlimit_step r r'" "\<forall>u. tplace_of r u \<noteq> TSignals" "tplace_of r t = TWait d"
    by (auto simp: unsignalled_step_def)
  from r(1) show ?case
    by cases (use r(2,3) in \<open>auto simp: Borrow_retry_def try_or_def tgoto_def TimeoutLimit_Return_def split: prod.splits\<close>)
qed (simp add: assms(2))

text \<open>When everybody else is outside and stays there, the timer is the only step left to a waiting goroutine.\<close>

lemma alone_times_out:
  assumes "tlimit_step s s'" "tplace_of s t = TWait d" "\<forall>u. u \<noteq> t \<longrightarrow> tplace_of s u = TOutside"
    "\<forall>u. u \<noteq> t \<longrightarrow> tplace_of s' u = TOutside"
  shows "s' = tgoto s t TTimedOut"
  using assms(1)
proof cases
  case (borrow u d')
  then have "u \<noteq> t" using assms(2) by auto
  then have "tplace_of s' u = TOutside" using assms(4) by blast
  then show ?thesis using borrow(1) by (auto simp: try_or_def tgoto_def split: prod.splits if_splits)
next
  case (timer u d')
  then have "u = t" using assms(3) by force
  then show ?thesis using timer by simp
qed (use assms(2,3) in \<open>metis tplace.distinct\<close>)+

text \<open>
  C25. A wake-up can be lost. With one slot there is a reachable state in which the slot is free, nobody holds or
  signals it, and a goroutine that asked for it before it was returned waits with its full timeout: the signal was sent
  between its failed try and its wait, when nobody received it. From there its timer can fire, so that \<open>Borrow\<close>
  fails although the slot is free, since no further try is made; as long as the others stay outside that is the only
  step there is, and in every run without a new signal the goroutine waits until it times out, whatever slots the
  others borrow.
\<close>

theorem timeoutlimit_lost_wakeup:
  "\<exists>s. tlimit_step\<^sup>*\<^sup>* empty_limit1 s \<and> pool_len (tlimit s) = 0 \<and> tplace_of s 1 = TWait 5
     \<and> (\<forall>u. u \<noteq> 1 \<longrightarrow> tplace_of s u = TOutside)
     \<and> (\<exists>s'. tlimit_step s s' \<and> tplace_of s' 1 = TTimedOut \<and> pool_len (tlimit s') = 0
          \<and> (\<forall>s''. tlimit_step s s'' \<and> (\<forall>u. u \<noteq> 1 \<longrightarrow> tplace_of s'' u = TOutside) \<longrightarrow> s'' = s'))
     \<and> (\<forall>r. (unsignalled_step 1)\<^sup>*\<^sup>* s r \<longrightarrow> tplace_of r 1 = TWait 5 \<or> tplace_of r 1 = TTimedOut)"
proof -
  let ?s = "\<lambda>n p q. \<lparr>tlimit = \<lparr>pool_cap = 1, pool_len = n\<rparr>, tplace_of = (\<lambda>_. TOutside)(0 := p, 1 := q)\<rparr>"
  have e: "empty_limit1 = ?s 0 TOutside TOutside" by (auto simp: empty_limit1_def)
  note ops = try_or_def Limit_TryBorrow_def tgoto_def TimeoutLimit_Return_def Limit_Return_def
  have u: "(\<lambda>_::nat. TOutside)(0 := p, 1 := q, 0 := p') = (\<lambda>_. TOutside)(0 := p', 1 := q)"
    "(\<lambda>_::nat. TOutside)(0 := p, 1 := q, 1 := q') = (\<lambda>_. TOutside)(0 := p, 1 := q')" for p q p' q' :: tplace
    by (auto simp: fun_eq_iff)
  have "tlimit_step (?s 0 TOutside TOutside) (?s 1 THolds TOutside)"
    using tlimit_step.borrow [of "?s 0 TOutside TOutside" 0 5] u by (simp add: ops)
  moreover have "tlimit_step (?s 1 THolds TOutside) (?s 1 THolds (TEnter 5))"
    using tlimit_step.borrow [of "?s 1 THolds TOutside" 1 5] u by (simp add: ops)
  moreover have "tlimit_step (?s 1 THolds (TEnter 5)) (?s 0 TSignals (TEnter 5))"
    using tlimit_step.giveback [of "?s 1 THolds (TEnter 5)" 0] u by (simp add: ops)
  moreover have "tlimit_step (?s 0 TSignals (TEnter 5)) (?s 0 TOutside (TEnter 5))"
    using tlimit_step.dropped [of "?s 0 TSignals (TEnter 5)" 0] u by (simp add: ops)
  moreover have "tlimit_step (?s 0 TOutside (TEnter 5)) (?s 0 TOutside (TWait 5))"
    using tlimit_step.enter [of "?s 0 TOutside (TEnter 5)" 1 5] u by (simp add: ops)
  ultimately have "tlimit_step\<^sup>*\<^sup>* empty_limit1 (?s 0 TOutside (TWait 5))" unfolding e
    by (meson converse_rtranclp_into_rtranclp rtranclp.rtrancl_refl)
  moreover define s where "s = ?s 0 TOutside (TWait 5)"
  ultimately have reach: "tlimit_step\<^sup>*\<^sup>* empty_limit1 s" by simp
  have s: "pool_len (tlimit s) = 0" "tplace_of s 1 = TWait 5" "\<forall>u. u \<noteq> 1 \<longrightarrow> tplace_of s u = TOutside"
    by (simp_all add: s_def)
  have out: "tlimit_step s (tgoto s 1 TTimedOut)" by (rule tlimit_step.timer [OF s(2)])
  have "tplace_of (tgoto s 1 TTimedOut) 1 = TTimedOut" "pool_len (tlimit (tgoto s 1 TTimedOut)) = 0"
    using s(1) by (simp_all add: tgoto_def)
  moreover have "\<forall>s''. tlimit_step s s'' \<and> (\<forall>u. u \<noteq> 1 \<longrightarrow> tplace_of s'' u = TOutside) \<longrightarrow> s'' = tgoto s 1 TTimedOut"
    using alone_times_out [OF _ s(2,3)] by blast
  moreover have "\<forall>r. (unsignalled_step 1)\<^sup>*\<^sup>* s r \<longrightarrow> tplace_of r 1 = TWait 5 \<or> tplace_of r 1 = TTimedOut"
    using unsignalled_waits [OF _ s(2)] by blast
  ultimately show ?thesis using reach s out by blast
qed

theorem timeoutlimit_lost_wakeup_witness:
  "\<exists>s s'. tlimit_step\<^sup>*\<^sup>* empty_limit1 s \<and> tlimit_step s s' \<and> pool_len (tlimit s') = 0 \<and> tplace_of s' 1 = TTimedOut"
  using timeoutlimit_lost_wakeup by blast

section \<open>Spin lock and atomic values\<close>

text \<open>\<open>TryLock\<close> and \<open>Unlock\<close> on the lock word; \<open>Lock\<close> repeats \<open>TryLock\<close> until it succeeds.\<close>

definition TryLock :: "32 word \<Rightarrow> bool \<times> 32 word" where
  "TryLock w = (if w = 0 then (True, 1) else (False, w))"

definition Unlock :: "32 word \<Rightarrow> 32 word" where
  "Unlock w = 0"

inductive spin_step :: "32 word \<times> nat set \<Rightarrow> 32 word \<times> nat set \<Rightarrow> bool" where
  spin: "fst (TryLock w) = ok \<Longrightarrow> t \<notin> A \<Longrightarrow> spin_step (w, A) (snd (TryLock w), if ok then insert t A else A)"
| release: "t \<in> A \<Longrightarrow> spin_step (w, A) (Unlock w, A - {t})"

lemma spin_exclusive:
  assumes "spin_step\<^sup>*\<^sup>* (0, {}) (w, A)"
  shows "(w = 0 \<and> A = {}) \<or> (w = 1 \<and> (\<exists>t. A = {t}))"
proof -
  have "case s of (w, A) \<Rightarrow> (w = 0 \<and> A = {}) \<or> (w = 1 \<and> (\<exists>t. A = {t}))" if "spin_step\<^sup>*\<^sup>* (0, {}) s" for s
    using that
  proof (induction rule: rtranclp_induct)
    case (step s s')
    from step(2,3) show ?case by cases (auto simp: TryLock_def Unlock_def split: if_splits)
  qed simp
  then show ?thesis using assms by fastforce
qed

text \<open>An \<open>AtomicBool\<close> is a 32-bit word; other values than 0 and 1 are never stored.\<close>

definition bool_word :: "bool \<Rightarrow> 32 word" where "bool_word v = (if v then 1 else 0)"

definition AtomicBool_Set :: "32 word \<Rightarrow> bool \<Rightarrow> 32 word" where
  "AtomicBool_Set b v = (if v then 1 else 0)"

definition AtomicBool_True :: "32 word \<Rightarrow> bool" where
  "AtomicBool_True b = (b = 1)"

definition AtomicBool_CompareAndSwap :: "32 word \<Rightarrow> bool \<Rightarrow> bool \<Rightarrow> bool \<times> 32 word" where
  "AtomicBool_CompareAndSwap b old v =
     (let ov = (if old then 1 else 0); nv = (if v then 1 else 0) in if b = ov then (True, nv) else (False, b))"

lemma AtomicBool_spec:
  assumes "b = bool_word x"
  shows "AtomicBool_True b = x" "AtomicBool_Set b v = bool_word v"
    "AtomicBool_CompareAndSwap b old v = (x = old, bool_word (if x = old then v else x))"
  using assms by (auto simp: AtomicBool_True_def AtomicBool_Set_def AtomicBool_CompareAndSwap_def bool_word_def Let_def)

text \<open>
  \<open>AtomicFloat64.Add\<close>: load, add, compare and swap, again until the swap succeeds. A goroutine is idle, has
  loaded, or has returned a value; the log lists the completed additions.
\<close>

datatype fplace = FIdle | FLoaded float64 float64 | FReturned float64

record atomicFloat =
  fvalue :: float64
  fplace_of :: "nat \<Rightarrow> fplace"
  fadded :: "float64 list"

definition AtomicFloat64_CompareAndSwap :: "float64 \<Rightarrow> float64 \<Rightarrow> float64 \<Rightarrow> bool \<times> float64" where
  "AtomicFloat64_CompareAndSwap cur old val = (if cur = old then (True, val) else (False, cur))"

inductive float_step :: "atomicFloat \<Rightarrow> atomicFloat \<Rightarrow> bool" where
  load: "fplace_of f t = FIdle \<or> (\<exists>r. fplace_of f t = FReturned r) \<Longrightarrow>
    float_step f (f\<lparr>fplace_of := (fplace_of f)(t := FLoaded (fvalue f) x)\<rparr>)"
| swap: "fplace_of f t = FLoaded old x \<Longrightarrow> AtomicFloat64_CompareAndSwap (fvalue f) old (old + x) = (True, v) \<Longrightarrow>
    float_step f (f\<lparr>fvalue := v, fplace_of := (fplace_of f)(t := FReturned (old + x)), fadded := fadded f @ [x]\<rparr>)"
| again: "fplace_of f t = FLoaded old x \<Longrightarrow> AtomicFloat64_CompareAndSwap (fvalue f) old (old + x) = (False, v) \<Longrightarrow>
    float_step f (f\<lparr>fplace_of := (fplace_of f)(t := FLoaded (fvalue f) x)\<rparr>)"

lemma atomic_float_sum:
  assumes "float_step\<^sup>*\<^sup>* \<lparr>fvalue = v0, fplace_of = (\<lambda>_. FIdle), fadded = []\<rparr> f"
  shows "fvalue f = v0 + sum_list (fadded f)"
    "fplace_of f t = FReturned r \<Longrightarrow> \<exists>n \<le> length (fadded f). 0 < n \<and> r = v0 + sum_list (take n (fadded f))"
proof -
  have "fvalue f = v0 + sum_list (fadded f) \<and>
      (\<forall>t r. fplace_of f t = FReturned r \<longrightarrow> (\<exists>n \<le> length (fadded f). 0 < n \<and> r = v0 + sum_list (take n (fadded f))))"
    using assms
  proof (induction rule: rtranclp_induct)
    case (step f f')
    from step(2) show ?case
    proof cases
      case (swap t old x v)
      have "fvalue f' = v0 + sum_list (fadded f')" using swap step(3)
        by (simp add: AtomicFloat64_CompareAndSwap_def split: if_splits)
      moreover have "\<exists>n \<le> length (fadded f'). 0 < n \<and> r = v0 + sum_list (take n (fadded f'))"
        if "fplace_of f' u = FReturned r" for u r
      proof (cases "u = t")
        case True
        then have "r = fvalue f'" using that swap by (simp add: AtomicFloat64_CompareAndSwap_def split: if_splits)
        then show ?thesis using calculation swap by (intro exI [of _ "length (fadded f')"]) simp
      next
        case False
        then have "fplace_of f u = FReturned r" using that swap by simp
        then obtain n where "n \<le> length (fadded f)" "0 < n" "r = v0 + sum_list (take n (fadded f))" using step(3) by blast
        then show ?thesis using swap by (intro exI [of _ n]) simp
      qed
      ultimately show ?thesis by blast
    qed (use step(3) in \<open>auto split: if_splits\<close>)
  qed simp
  then show "fvalue f = v0 + sum_list (fadded f)"
    "fplace_of f t = FReturned r \<Longrightarrow> \<exists>n \<le> length (fadded f). 0 < n \<and> r = v0 + sum_list (take n (fadded f))"
    by blast+
qed

end
