(* ===== verification/Matcher.thy ===== *)
theory Matcher
  imports GoStrings
begin

text \<open>
  \<open>pkg/core/chain/chain.go\<close> and \<open>pkg/middleware/matcher\<close>: composing middlewares, and choosing them by
  operation. \<open>sort.Slice\<close> is not stable and the keys come out of a map in any order, so the order of equally
  long prefixes is not determined: the sort is an argument, known only to sort by length.
\<close>

section \<open>Chains\<close>

text \<open>The loop of \<open>Chain\<close> from the last of \<open>others\<close> to the first.\<close>

fun chain_loop :: "('h \<Rightarrow> 'h) list \<Rightarrow> nat \<Rightarrow> 'h \<Rightarrow> 'h" where
  "chain_loop others 0 h = h"
| "chain_loop others (Suc i) h = chain_loop others i ((others ! i) h)"

definition Chain :: "('h \<Rightarrow> 'h) \<Rightarrow> ('h \<Rightarrow> 'h) list \<Rightarrow> 'h \<Rightarrow> 'h" where
  "Chain outer others h = outer (chain_loop others (length others) h)"

lemma chain_loop_foldr: "n \<le> length ms \<Longrightarrow> chain_loop ms n h = foldr (\<lambda>m. m) (take n ms) h"
proof (induction n arbitrary: h)
  case (Suc n)
  then show ?case by (simp add: take_Suc_conv_app_nth)
qed simp

lemma Chain_foldr: "Chain m ms h = foldr (\<lambda>m. m) (m # ms) h"
  by (simp add: Chain_def chain_loop_foldr)

lemma Chain_append: "Chain m (ms @ n # ns) h = Chain m ms (Chain n ns h)"
  by (simp add: Chain_foldr)

section \<open>Matcher\<close>

record 'm matcher =
  defaults :: "'m list"
  exact :: "string \<rightharpoonup> 'm list"
  prefixes :: "(string \<times> 'm list) list"
  sorted_prefixes :: "string list"

definition New_matcher :: "'m matcher" where
  "New_matcher = \<lparr>defaults = [], exact = Map.empty, prefixes = [], sorted_prefixes = []\<rparr>"

definition Use :: "'m matcher \<Rightarrow> 'm list \<Rightarrow> 'm matcher" where
  "Use m mws = m\<lparr>defaults := defaults m @ mws\<rparr>"

definition rebuildSorted :: "(string list \<Rightarrow> string list) \<Rightarrow> 'm matcher \<Rightarrow> 'm matcher" where
  "rebuildSorted by_length m = m\<lparr>sorted_prefixes := by_length (map fst (prefixes m))\<rparr>"

definition Add :: "(string list \<Rightarrow> string list) \<Rightarrow> 'm matcher \<Rightarrow> string \<Rightarrow> 'm list \<Rightarrow> 'm matcher" where
  "Add by_length m selector mws =
     (if selector = ''*'' then rebuildSorted by_length (m\<lparr>prefixes := append_at [] mws (prefixes m)\<rparr>)
      else if HasSuffix selector ''*'' then
        (let prefix = TrimSuffix selector ''*''
         in rebuildSorted by_length (m\<lparr>prefixes := append_at prefix mws (prefixes m)\<rparr>))
      else m\<lparr>exact := (exact m)(selector \<mapsto> (case exact m selector of None \<Rightarrow> mws | Some old \<Rightarrow> old @ mws))\<rparr>)"

definition Match :: "'m matcher \<Rightarrow> string \<Rightarrow> 'm list" where
  "Match m oper =
     defaults m @ slice_of (exact m oper)
     @ concat (map (\<lambda>p. slice_of (map_of (prefixes m) p)) (filter (HasPrefix oper) (sorted_prefixes m)))"

text \<open>The middleware made from a matcher: outside a server context, or without a match, it is the identity.\<close>

definition Match_middleware :: "('h \<Rightarrow> 'h) matcher \<Rightarrow> string option \<Rightarrow> 'h \<Rightarrow> 'h" where
  "Match_middleware m operation h =
     (case operation of
        None \<Rightarrow> h
      | Some oper \<Rightarrow> (case Match m oper of [] \<Rightarrow> h | mw # mws \<Rightarrow> Chain mw mws h))"

section \<open>What a matcher selects\<close>

datatype 'm registration = RUse "'m list" | RAdd string "'m list"

fun register :: "(string list \<Rightarrow> string list) \<Rightarrow> 'm matcher \<Rightarrow> 'm registration \<Rightarrow> 'm matcher" where
  "register by_length m (RUse mws) = Use m mws"
| "register by_length m (RAdd s mws) = Add by_length m s mws"

definition uses :: "'m registration list \<Rightarrow> 'm list" where
  "uses regs = concat (map (\<lambda>r. case r of RUse mws \<Rightarrow> mws | _ \<Rightarrow> []) regs)"

definition adds :: "'m registration list \<Rightarrow> string \<Rightarrow> 'm list" where
  "adds regs s = concat (map (\<lambda>r. case r of RAdd s' mws \<Rightarrow> if s' = s then mws else [] | _ \<Rightarrow> []) regs)"

definition sorts_by_length :: "(string list \<Rightarrow> string list) \<Rightarrow> bool" where
  "sorts_by_length f \<longleftrightarrow> (\<forall>ps. set (f ps) = set ps \<and> length (f ps) = length ps \<and> sorted_wrt (\<lambda>p q. length p \<ge> length q) (f ps))"

text \<open>Equally long prefixes of one operation are the same, so only their lengths decide.\<close>

lemma prefixes_by_length:
  assumes "distinct L" "sorted_wrt (\<lambda>p q. length p \<ge> length q) L" "\<forall>p \<in> set L. HasPrefix oper p"
  shows "L = map (\<lambda>n. take n oper) (filter (\<lambda>n. take n oper \<in> set L) (rev [0..<Suc (length oper)]))"
proof -
  let ?N = "filter (\<lambda>n. take n oper \<in> set L) [0..<Suc (length oper)]"
  have pre: "take (length p) oper = p" "length p \<le> length oper" if "p \<in> set L" for p
    using assms(3) that by (auto simp: HasPrefix_iff)
  have "inj_on length (set L)" using pre(1) by (metis inj_onI)
  then have d: "distinct (rev (map length L))" using assms(1) by (simp add: distinct_map)
  have "sorted (rev (map length L))"
    using assms(2) by (simp add: sorted_wrt_rev sorted_wrt_map)
  moreover have "set (rev (map length L)) = set ?N"
  proof (intro equalityI subsetI)
    fix n assume "n \<in> set (rev (map length L))"
    then show "n \<in> set ?N" using pre by (auto simp: less_Suc_eq_le simp del: upt_Suc)
  next
    fix n assume "n \<in> set ?N"
    then have "take n oper \<in> set L" "n = length (take n oper)" by (auto simp del: upt_Suc)
    then show "n \<in> set (rev (map length L))" by force
  qed
  moreover have "sorted ?N" "distinct ?N" by (intro sorted_wrt_filter sorted_upt, intro distinct_filter distinct_upt)
  ultimately have "rev (map length L) = ?N" using d by (intro sorted_distinct_set_unique)
  then have "map length L = rev ?N" by (metis rev_rev_ident)
  have "L = map (\<lambda>p. take (length p) oper) L" using pre(1) by (simp add: map_idI)
  also have "\<dots> = map (\<lambda>n. take n oper) (map length L)" by simp
  also have "\<dots> = map (\<lambda>n. take n oper) (rev ?N)" using \<open>map length L = rev ?N\<close> by simp
  finally show ?thesis by (simp only: rev_filter)
qed

text \<open>The invariant of a matcher built from registrations.\<close>

definition matcher_inv :: "'m registration list \<Rightarrow> 'm matcher \<Rightarrow> bool" where
  "matcher_inv regs m \<longleftrightarrow>
     defaults m = uses regs
     \<and> (\<forall>s. slice_of (exact m s) = (if HasSuffix s ''*'' then [] else adds regs s))
     \<and> (\<forall>p. slice_of (map_of (prefixes m) p) = adds regs (p @ ''*''))
     \<and> distinct (sorted_prefixes m) \<and> set (sorted_prefixes m) = fst ` set (prefixes m)
     \<and> distinct (map fst (prefixes m)) \<and> sorted_wrt (\<lambda>p q. length p \<ge> length q) (sorted_prefixes m)"

lemma adds_snoc: "adds (regs @ [r]) s = adds regs s @ (case r of RAdd s' mws \<Rightarrow> if s' = s then mws else [] | _ \<Rightarrow> [])"
  by (simp add: adds_def)

lemma star_prefix: "HasSuffix s ''*'' \<Longrightarrow> \<exists>p. s = p @ ''*'' \<and> TrimSuffix s ''*'' = p"
  by (auto simp: HasSuffix_iff)

lemma Add_prefix:
  assumes "HasSuffix s ''*''"
  shows "Add f m s mws = rebuildSorted f (m\<lparr>prefixes := append_at (TrimSuffix s ''*'') mws (prefixes m)\<rparr>)"
proof -
  have "TrimSuffix ''*'' ''*'' = []" by (simp add: TrimSuffix_def HasSuffix_def)
  then show ?thesis using assms by (auto simp: Add_def Let_def)
qed

lemma matcher_inv_step:
  assumes "matcher_inv regs m" "sorts_by_length f"
  shows "matcher_inv (regs @ [r]) (register f m r)"
proof (cases r)
  case (RUse mws)
  then show ?thesis using assms(1) by (simp add: matcher_inv_def Use_def uses_def adds_def)
next
  case (RAdd s mws)
  have u: "uses (regs @ [r]) = uses regs" by (simp add: uses_def RAdd)
  show ?thesis
  proof (cases "HasSuffix s ''*''")
    case True
    then obtain p where p: "s = p @ ''*''" "TrimSuffix s ''*'' = p" using star_prefix by blast
    let ?ps = "append_at p mws (prefixes m)"
    have m': "register f m r = m\<lparr>prefixes := ?ps, sorted_prefixes := f (map fst ?ps)\<rparr>"
      by (simp add: RAdd Add_prefix [OF True] p(2) rebuildSorted_def)
    have d: "distinct (map fst ?ps)" using assms(1) by (simp add: matcher_inv_def distinct_append_at)
    have f: "set (f (map fst ?ps)) = fst ` set ?ps" "length (f (map fst ?ps)) = length (map fst ?ps)"
      "sorted_wrt (\<lambda>p q. length p \<ge> length q) (f (map fst ?ps))"
      using assms(2) by (simp_all add: sorts_by_length_def)
    have "distinct (f (map fst ?ps))"
      using d f by (metis card_distinct distinct_card list.set_map)
    moreover have "slice_of (exact m t) = (if HasSuffix t ''*'' then [] else adds (regs @ [r]) t)" for t
      using assms(1) True by (auto simp: matcher_inv_def adds_snoc RAdd)
    moreover have "slice_of (map_of ?ps q) = adds (regs @ [r]) (q @ ''*'')" for q
      using assms(1) by (auto simp: matcher_inv_def map_of_append_at adds_snoc RAdd p(1))
    ultimately show ?thesis using assms(1) d f u by (simp add: matcher_inv_def m')
  next
    case False
    then have ns: "s \<noteq> q @ ''*''" for q by (auto simp: HasSuffix_iff)
    have m': "register f m r = m\<lparr>exact := (exact m)(s \<mapsto> slice_of (exact m s) @ mws)\<rparr>"
      using False ns [of "[]"] by (auto simp: RAdd Add_def slice_of_def split: option.split)
    have "slice_of (((exact m)(s \<mapsto> slice_of (exact m s) @ mws)) t) = (if HasSuffix t ''*'' then [] else adds (regs @ [r]) t)" for t
    proof (cases "t = s")
      case True
      then show ?thesis using assms(1) False by (simp add: matcher_inv_def adds_snoc RAdd)
    next
      case ts: False
      then show ?thesis using assms(1) by (simp add: matcher_inv_def adds_snoc RAdd)
    qed
    moreover have "adds (regs @ [r]) (q @ ''*'') = adds regs (q @ ''*'')" for q using ns by (auto simp: adds_snoc RAdd)
    ultimately show ?thesis using assms(1) u unfolding matcher_inv_def m' by (simp del: fun_upd_apply)
  qed
qed

lemma matcher_inv_run:
  assumes "sorts_by_length f"
  shows "matcher_inv regs (foldl (register f) New_matcher regs)"
proof (induction regs rule: rev_induct)
  case Nil
  show ?case by (simp add: matcher_inv_def New_matcher_def uses_def adds_def slice_of_def)
next
  case (snoc r regs)
  then show ?case using matcher_inv_step [OF _ assms] by simp
qed

lemma concat_map_filter: "(\<And>x. x \<in> set xs \<Longrightarrow> \<not> P x \<Longrightarrow> f x = []) \<Longrightarrow> concat (map f (filter P xs)) = concat (map f xs)"
  by (induction xs) auto

text \<open>
  C26. What a matcher selects for an operation, whatever registrations built it and however its sort orders
  prefixes of equal length: the global middlewares, then those registered for exactly this operation, then
  those registered for its prefixes, from the whole operation down to the empty prefix of the selector
  \<open>*\<close>; within each group in the order of registration.
\<close>

theorem matcher_selects:
  assumes "sorts_by_length f"
  shows "Match (foldl (register f) New_matcher regs) oper =
    uses regs @ (if HasSuffix oper ''*'' then [] else adds regs oper)
    @ concat (map (\<lambda>n. adds regs (take n oper @ ''*'')) (rev [0..<Suc (length oper)]))"
proof -
  define m where "m = foldl (register f) New_matcher regs"
  have inv: "matcher_inv regs m" using matcher_inv_run [OF assms] by (simp add: m_def)
  let ?L = "filter (HasPrefix oper) (sorted_prefixes m)"
  let ?P = "\<lambda>n. take n oper \<in> set ?L"
  have L: "?L = map (\<lambda>n. take n oper) (filter ?P (rev [0..<Suc (length oper)]))"
    using inv by (intro prefixes_by_length) (auto simp: matcher_inv_def intro: sorted_wrt_filter)
  have none: "adds regs (take n oper @ ''*'') = []" if "\<not> ?P n" for n
  proof -
    have "HasPrefix oper (take n oper)" by (metis HasPrefix_iff append_take_drop_id)
    then have "take n oper \<notin> fst ` set (prefixes m)" using that inv by (simp add: matcher_inv_def)
    then have "slice_of (map_of (prefixes m) (take n oper)) = []"
      by (simp add: slice_of_def map_of_eq_None_iff [THEN iffD2])
    then show ?thesis using inv by (simp add: matcher_inv_def)
  qed
  have "concat (map (\<lambda>p. slice_of (map_of (prefixes m) p)) ?L) = concat (map (\<lambda>p. adds regs (p @ ''*'')) ?L)"
    using inv by (simp add: matcher_inv_def)
  also have "\<dots> = concat (map (\<lambda>n. adds regs (take n oper @ ''*'')) (filter ?P (rev [0..<Suc (length oper)])))"
    by (subst L) (simp add: o_def del: upt_Suc)
  also have "\<dots> = concat (map (\<lambda>n. adds regs (take n oper @ ''*'')) (rev [0..<Suc (length oper)]))"
    using none by (intro concat_map_filter) blast
  finally show ?thesis using inv by (simp add: Match_def m_def matcher_inv_def del: upt_Suc)
qed

lemma sort_key_sorts: "sorts_by_length (\<lambda>ps. rev (sort_key length ps))"
  by (simp add: sorts_by_length_def sorted_wrt_rev sorted_wrt_map [symmetric] del: sorted_wrt_map)

theorem matcher_selects_witness:
  "Match (foldl (register (\<lambda>ps. rev (sort_key length ps))) New_matcher
     [RAdd ''*'' [1::nat], RUse [2], RAdd ''/a*'' [3], RAdd ''/ab'' [4]]) ''/ab'' = [2, 4, 3, 1]"
  by (subst matcher_selects [OF sort_key_sorts])
    (simp add: uses_def adds_def HasSuffix_def upt_rec)

end
