(* ===== verification/Transport.thy ===== *)
theory Transport
  imports GoStrings Errno
begin

text \<open>
  \<open>pkg/transport\<close> and the telemetry attributes of \<open>pkg/middleware/semconv.go\<close>. A transporter carries what
  the middlewares need to know of a request; its instances are recycled through a \<open>sync.Pool\<close>, which may
  hand out any instance that was put back or a new one. The gRPC library is outside: its status codes are
  natural numbers with \<open>OK\<close> being 0, and the code of an error and the name of a code are parameters.
\<close>

section \<open>Headers\<close>

text \<open>\<open>net/http\<close>: canonical header keys; a key with a byte that no header name has is left as it is.\<close>

definition is_upper :: "char \<Rightarrow> bool" where
  "is_upper c \<longleftrightarrow> 65 \<le> (of_char c :: nat) \<and> (of_char c :: nat) \<le> 90"

definition is_lower :: "char \<Rightarrow> bool" where
  "is_lower c \<longleftrightarrow> 97 \<le> (of_char c :: nat) \<and> (of_char c :: nat) \<le> 122"

definition upper_char :: "char \<Rightarrow> char" where
  "upper_char c = (if is_lower c then char_of ((of_char c :: nat) - 32) else c)"

definition token_byte :: "char \<Rightarrow> bool" where
  "token_byte c \<longleftrightarrow> is_digit c \<or> is_upper c \<or> is_lower c
     \<or> c \<in> {CHR ''!'', CHR ''#'', CHR ''$'', CHR ''%'', CHR ''&'', CHR 0x27, CHR ''*'', CHR ''+'', CHR ''-'',
             CHR ''.'', CHR ''^'', CHR ''_'', CHR 0x60, CHR ''|'', CHR ''~''}"

fun canonical_from :: "bool \<Rightarrow> string \<Rightarrow> string" where
  "canonical_from up [] = []"
| "canonical_from up (c # cs) =
     (if up then upper_char c else lower_char c) # canonical_from (c = CHR ''-'') cs"

definition CanonicalHeaderKey :: "string \<Rightarrow> string" where
  "CanonicalHeaderKey s = (if list_all token_byte s then canonical_from True s else s)"

text \<open>A header is a map from canonical keys to values, here a list of pairs with distinct keys.\<close>

type_synonym header = "(string \<times> string list) list"

definition header_values :: "header \<Rightarrow> string \<Rightarrow> string list" where
  "header_values h k = (case map_of h k of None \<Rightarrow> [] | Some vs \<Rightarrow> vs)"

fun header_put :: "string \<Rightarrow> string list \<Rightarrow> header \<Rightarrow> header" where
  "header_put k vs [] = [(k, vs)]"
| "header_put k vs ((k', vs') # h) = (if k' = k then (k, vs) # h else (k', vs') # header_put k vs h)"

definition httpHeader_Get :: "header \<Rightarrow> string \<Rightarrow> string" where
  "httpHeader_Get h key = (case header_values h (CanonicalHeaderKey key) of [] \<Rightarrow> [] | v # _ \<Rightarrow> v)"

definition httpHeader_Set :: "header \<Rightarrow> string \<Rightarrow> string \<Rightarrow> header" where
  "httpHeader_Set h key v = header_put (CanonicalHeaderKey key) [v] h"

definition httpHeader_Add :: "header \<Rightarrow> string \<Rightarrow> string \<Rightarrow> header" where
  "httpHeader_Add h key v = header_put (CanonicalHeaderKey key) (header_values h (CanonicalHeaderKey key) @ [v]) h"

definition httpHeader_Values :: "header \<Rightarrow> string \<Rightarrow> string list" where
  "httpHeader_Values h key = header_values h (CanonicalHeaderKey key)"

text \<open>\<open>metadata.MD\<close> belongs to gRPC: its \<open>Get\<close> is a parameter.\<close>

definition metadataHeader_Get :: "('m \<Rightarrow> string \<Rightarrow> string list) \<Rightarrow> 'm \<Rightarrow> string \<Rightarrow> string" where
  "metadataHeader_Get md_get md key = (case md_get md key of [] \<Rightarrow> [] | v # _ \<Rightarrow> v)"

text \<open>The contract of \<open>transport.Header\<close> up to the spelling of keys.\<close>

locale header_view =
  fixes norm :: "string \<Rightarrow> string" and hvalues :: "'h \<Rightarrow> string \<Rightarrow> string list"
    and hget :: "'h \<Rightarrow> string \<Rightarrow> string" and hset :: "'h \<Rightarrow> string \<Rightarrow> string \<Rightarrow> 'h" and hadd :: "'h \<Rightarrow> string \<Rightarrow> string \<Rightarrow> 'h"
  assumes norm_values: "norm k = norm k' \<Longrightarrow> hvalues h k = hvalues h k'"
    and set_values: "hvalues (hset h k v) k' = (if norm k = norm k' then [v] else hvalues h k')"
    and add_values: "hvalues (hadd h k v) k' = (if norm k = norm k' then hvalues h k' @ [v] else hvalues h k')"
    and get_values: "hget h k = (case hvalues h k of [] \<Rightarrow> [] | v # _ \<Rightarrow> v)"
begin

lemma get_set: "hget (hset h k v) k' = (if norm k = norm k' then v else hget h k')"
  by (simp add: get_values set_values)

lemma get_add: "hvalues h k \<noteq> [] \<Longrightarrow> hget (hadd h k v) k' = hget h k'"
  using norm_values [of k k' h] by (cases "hvalues h k'") (auto simp: get_values add_values split: list.split)

end

lemma map_of_header_put: "map_of (header_put k vs h) = (map_of h)(k \<mapsto> vs)"
  by (induction h) auto

interpretation hh: header_view CanonicalHeaderKey httpHeader_Values httpHeader_Get httpHeader_Set httpHeader_Add
  by unfold_locales
    (auto simp: httpHeader_Values_def httpHeader_Get_def httpHeader_Set_def httpHeader_Add_def header_values_def
      map_of_header_put)

section \<open>Transporters\<close>

definition KindGRPC :: string where "KindGRPC = ''gRPC''"
definition KindHTTP :: string where "KindHTTP = ''HTTP''"

record transporter =
  tr_kind :: string
  tr_operation :: string
  tr_endpoint :: string
  tr_reqHeader :: "header option"
  tr_replyHeader :: "header option"
  tr_method :: string
  tr_route :: string
  tr_path :: string
  tr_protocol :: string
  tr_statusCode :: int
  tr_grpcCode :: nat

definition zero_transporter :: transporter where
  "zero_transporter = \<lparr>tr_kind = [], tr_operation = [], tr_endpoint = [], tr_reqHeader = None, tr_replyHeader = None,
     tr_method = [], tr_route = [], tr_path = [], tr_protocol = [], tr_statusCode = 0, tr_grpcCode = 0\<rparr>"

datatype transportOption = WithHTTPRequest string string string string

fun apply_transportOption :: "transporter \<Rightarrow> transportOption \<Rightarrow> transporter" where
  "apply_transportOption t (WithHTTPRequest m r p v) = t\<lparr>tr_method := m, tr_route := r, tr_path := p, tr_protocol := v\<rparr>"

text \<open>What the pool hands out: the chosen instance, or a new one.\<close>

definition pool_Get :: "transporter list \<Rightarrow> nat option \<Rightarrow> transporter \<times> transporter list" where
  "pool_Get pool choice =
     (case choice of
        Some i \<Rightarrow> if i < length pool then (pool ! i, take i pool @ drop (Suc i) pool) else (zero_transporter, pool)
      | None \<Rightarrow> (zero_transporter, pool))"

definition NewTransporter ::
  "transporter list \<Rightarrow> nat option \<Rightarrow> string \<Rightarrow> string \<Rightarrow> string \<Rightarrow> header option \<Rightarrow> header option \<Rightarrow> transportOption list
   \<Rightarrow> transporter \<times> transporter list" where
  "NewTransporter pool choice kind operation endpoint reqHeader replyHeader opts =
     (let (t, pool) = pool_Get pool choice;
          t = t\<lparr>tr_kind := kind, tr_operation := operation, tr_endpoint := endpoint, tr_reqHeader := reqHeader,
                tr_replyHeader := replyHeader\<rparr>
      in (foldl apply_transportOption t opts, pool))"

definition Release_transporter :: "transporter \<Rightarrow> transporter list \<Rightarrow> transporter list" where
  "Release_transporter t pool =
     t\<lparr>tr_kind := [], tr_operation := [], tr_endpoint := [], tr_reqHeader := None, tr_replyHeader := None,
       tr_method := [], tr_route := [], tr_path := [], tr_protocol := [], tr_statusCode := 0\<rparr> # pool"

definition SetStatusCode :: "transporter \<Rightarrow> int \<Rightarrow> transporter" where
  "SetStatusCode t code = t\<lparr>tr_statusCode := code\<rparr>"

definition SetGRPCCode :: "transporter \<Rightarrow> nat \<Rightarrow> transporter" where
  "SetGRPCCode t code = t\<lparr>tr_grpcCode := code\<rparr>"

section \<open>Telemetry attributes\<close>

datatype attrKey =
  HTTPRequestMethodKey | HTTPRouteKey | NetworkProtocolVersionKey | URLPathKey | HTTPResponseStatusCodeKey
  | ErrorTypeKey | RPCSystemNameKey | RPCMethodKey | RPCResponseStatusCodeKey | OnexErrorReasonKey

datatype attrVal = StringVal string | IntVal int

type_synonym attributes = "(attrKey \<times> attrVal) list"

definition knownHTTPMethods :: "string list" where
  "knownHTTPMethods = [''GET'', ''HEAD'', ''POST'', ''PUT'', ''DELETE'', ''CONNECT'', ''OPTIONS'', ''TRACE'', ''PATCH'']"

definition knownHTTPMethod :: "string \<Rightarrow> string" where
  "knownHTTPMethod m = (if m \<in> set knownHTTPMethods then m else ''_OTHER'')"

definition appendReason :: "(err \<Rightarrow> string) \<Rightarrow> attributes \<Rightarrow> err option \<Rightarrow> attributes" where
  "appendReason Reason attrs e =
     (case e of None \<Rightarrow> attrs
      | Some e \<Rightarrow> if Reason e \<noteq> [] then attrs @ [(OnexErrorReasonKey, StringVal (Reason e))] else attrs)"

definition opt_attr :: "attrKey \<Rightarrow> string \<Rightarrow> attributes" where
  "opt_attr k v = (if v \<noteq> [] then [(k, StringVal v)] else [])"

definition status_attrs :: "int \<Rightarrow> attributes" where
  "status_attrs status = [(HTTPResponseStatusCodeKey, IntVal status)]
     @ (if status \<ge> 400 then [(ErrorTypeKey, StringVal (Itoa status))] else [])"

definition httpSpanAttributes :: "(err \<Rightarrow> string) \<Rightarrow> transporter \<Rightarrow> err option \<Rightarrow> attributes" where
  "httpSpanAttributes Reason tr e =
     appendReason Reason
       ([(HTTPRequestMethodKey, StringVal (knownHTTPMethod (tr_method tr)))] @ opt_attr HTTPRouteKey (tr_route tr)
        @ opt_attr NetworkProtocolVersionKey (tr_protocol tr) @ opt_attr URLPathKey (tr_path tr)
        @ status_attrs (tr_statusCode tr)) e"

definition httpMetricAttributes :: "(err \<Rightarrow> string) \<Rightarrow> transporter \<Rightarrow> err option \<Rightarrow> attributes" where
  "httpMetricAttributes Reason tr e =
     appendReason Reason
       (opt_attr HTTPRouteKey (tr_route tr) @ opt_attr NetworkProtocolVersionKey (tr_protocol tr)
        @ status_attrs (tr_statusCode tr)) e"

definition rpcStatusCode :: "(err \<Rightarrow> nat) \<Rightarrow> transporter \<Rightarrow> err option \<Rightarrow> nat" where
  "rpcStatusCode code_of tr e =
     (if tr_grpcCode tr \<noteq> 0 then tr_grpcCode tr else case e of Some e \<Rightarrow> code_of e | None \<Rightarrow> 0)"

text \<open>From the library's CamelCase name of a code to the upper-case name of the conventions.\<close>

fun code_name_from :: "char option \<Rightarrow> string \<Rightarrow> string" where
  "code_name_from prev [] = []"
| "code_name_from prev (ch # cs) =
     (if is_upper ch then
        (case prev of Some p \<Rightarrow> if is_lower p then [CHR ''_''] else [] | None \<Rightarrow> []) @ [ch]
      else if is_lower ch then [char_of ((of_char ch :: nat) - 32)]
      else [ch]) @ code_name_from (Some ch) cs"

definition grpcStatusCodeName :: "(nat \<Rightarrow> string) \<Rightarrow> nat \<Rightarrow> string" where
  "grpcStatusCodeName code_String code = code_name_from None (code_String code)"

definition rpcOutcomeAttributes :: "(err \<Rightarrow> nat) \<Rightarrow> (nat \<Rightarrow> string) \<Rightarrow> transporter \<Rightarrow> err option \<Rightarrow> attributes" where
  "rpcOutcomeAttributes code_of code_String tr e =
     (let code = rpcStatusCode code_of tr e; name = grpcStatusCodeName code_String code
      in [(RPCResponseStatusCodeKey, StringVal name)] @ (if code \<noteq> 0 then [(ErrorTypeKey, StringVal name)] else []))"

definition rpcMetricAttributes ::
  "(err \<Rightarrow> string) \<Rightarrow> (err \<Rightarrow> nat) \<Rightarrow> (nat \<Rightarrow> string) \<Rightarrow> transporter \<Rightarrow> err option \<Rightarrow> attributes" where
  "rpcMetricAttributes Reason code_of code_String tr e =
     appendReason Reason ([(RPCMethodKey, StringVal (tr_operation tr))] @ rpcOutcomeAttributes code_of code_String tr e) e"

definition rpcSpanAttributes ::
  "(err \<Rightarrow> string) \<Rightarrow> (err \<Rightarrow> nat) \<Rightarrow> (nat \<Rightarrow> string) \<Rightarrow> transporter \<Rightarrow> err option \<Rightarrow> attributes" where
  "rpcSpanAttributes Reason code_of code_String tr e =
     appendReason Reason ([(RPCSystemNameKey, StringVal ''grpc''), (RPCMethodKey, StringVal (tr_operation tr))]
       @ rpcOutcomeAttributes code_of code_String tr e) e"

definition spanAttributes ::
  "(err \<Rightarrow> string) \<Rightarrow> (err \<Rightarrow> nat) \<Rightarrow> (nat \<Rightarrow> string) \<Rightarrow> transporter \<Rightarrow> err option \<Rightarrow> attributes" where
  "spanAttributes Reason code_of code_String tr e =
     (if tr_kind tr = KindHTTP then httpSpanAttributes Reason tr e
      else if tr_kind tr = KindGRPC then rpcSpanAttributes Reason code_of code_String tr e
      else [])"

section \<open>Recycled transporters\<close>

lemma options_code: "tr_grpcCode (foldl apply_transportOption t opts) = tr_grpcCode t"
proof (induction opts arbitrary: t)
  case (Cons oper opts)
  show ?case by (cases oper) (simp add: Cons)
qed simp

lemma options_set_code:
  "foldl apply_transportOption (t\<lparr>tr_grpcCode := c\<rparr>) opts = (foldl apply_transportOption t opts)\<lparr>tr_grpcCode := c\<rparr>"
proof (induction opts arbitrary: t)
  case (Cons oper opts)
  show ?case
  proof (cases oper)
    case (WithHTTPRequest m r p v)
    then show ?thesis
      using Cons [of "t\<lparr>tr_method := m, tr_route := r, tr_path := p, tr_protocol := v\<rparr>"] by (cases t) simp
  qed
qed simp

text \<open>
  A recycled transporter is a new one in every field but the gRPC code: the instance made from a released
  one differs from the instance made from a new one exactly in that it still has the code of the request
  before it. A call that ends before its handler sets a code, for example one that a middleware rejects
  with the error \<open>e\<close>, is then reported with the old code instead of the code of \<open>e\<close>.
\<close>

lemma recycled_transporter_code:
  "fst (NewTransporter (Release_transporter t pool) (Some 0) kind oper ep rq rp opts) =
     (fst (NewTransporter [] None kind oper ep rq rp opts))\<lparr>tr_grpcCode := tr_grpcCode t\<rparr>
   \<and> rpcStatusCode code_of (fst (NewTransporter (Release_transporter t pool) (Some 0) kind oper ep rq rp opts)) (Some e) =
       (if tr_grpcCode t = 0 then code_of e else tr_grpcCode t)"
proof -
  let ?f = "\<lambda>t. t\<lparr>tr_kind := kind, tr_operation := oper, tr_endpoint := ep, tr_reqHeader := rq, tr_replyHeader := rp\<rparr>"
  have rel: "Release_transporter t pool = zero_transporter\<lparr>tr_grpcCode := tr_grpcCode t\<rparr> # pool"
    by (simp add: Release_transporter_def zero_transporter_def)
  have "fst (NewTransporter (Release_transporter t pool) (Some 0) kind oper ep rq rp opts) =
      foldl apply_transportOption ((?f zero_transporter)\<lparr>tr_grpcCode := tr_grpcCode t\<rparr>) opts"
    by (simp add: NewTransporter_def pool_Get_def rel zero_transporter_def)
  also have "\<dots> = (fst (NewTransporter [] None kind oper ep rq rp opts))\<lparr>tr_grpcCode := tr_grpcCode t\<rparr>"
    by (simp only: options_set_code) (simp add: NewTransporter_def pool_Get_def)
  finally show ?thesis by (simp add: rpcStatusCode_def)
qed

section \<open>Bounded attributes\<close>

definition keys_of :: "attributes \<Rightarrow> attrKey set" where
  "keys_of attrs = fst ` set attrs"

lemma keys_appendReason:
  "keys_of (appendReason Reason attrs e) - {OnexErrorReasonKey} = keys_of attrs - {OnexErrorReasonKey}"
  by (auto simp: keys_of_def appendReason_def split: option.split)

lemma keys_append: "keys_of (a @ b) = keys_of a \<union> keys_of b"
  by (auto simp: keys_of_def)

lemma keys_reason_iff: "k \<noteq> OnexErrorReasonKey \<Longrightarrow> k \<in> keys_of (appendReason Reason attrs e) \<longleftrightarrow> k \<in> keys_of attrs"
  using keys_appendReason [of Reason attrs e] by blast

text \<open>
  The telemetry of a request is marked as an error exactly when the request failed: for HTTP when the
  written status is at least 400, for gRPC when the status reported is not OK. Neither kind of metric
  carries the raw path, and the method label of a span is one of ten values whatever the client sent.
\<close>

theorem telemetry_error_marks:
  "(ErrorTypeKey \<in> keys_of (httpMetricAttributes Reason tr e) \<longleftrightarrow> 400 \<le> tr_statusCode tr)
   \<and> (ErrorTypeKey \<in> keys_of (httpSpanAttributes Reason tr e) \<longleftrightarrow> 400 \<le> tr_statusCode tr)
   \<and> (ErrorTypeKey \<in> keys_of (rpcMetricAttributes Reason code_of code_String tr e) \<longleftrightarrow> rpcStatusCode code_of tr e \<noteq> 0)
   \<and> URLPathKey \<notin> keys_of (httpMetricAttributes Reason tr e)
   \<and> URLPathKey \<notin> keys_of (rpcMetricAttributes Reason code_of code_String tr e)
   \<and> knownHTTPMethod m \<in> insert ''_OTHER'' (set knownHTTPMethods)"
proof (intro conjI)
  show "ErrorTypeKey \<in> keys_of (httpMetricAttributes Reason tr e) \<longleftrightarrow> 400 \<le> tr_statusCode tr"
    by (simp add: httpMetricAttributes_def keys_reason_iff keys_append) (auto simp: keys_of_def opt_attr_def status_attrs_def)
  show "ErrorTypeKey \<in> keys_of (httpSpanAttributes Reason tr e) \<longleftrightarrow> 400 \<le> tr_statusCode tr"
    by (simp add: httpSpanAttributes_def keys_reason_iff keys_append) (auto simp: keys_of_def opt_attr_def status_attrs_def)
  show "ErrorTypeKey \<in> keys_of (rpcMetricAttributes Reason code_of code_String tr e) \<longleftrightarrow> rpcStatusCode code_of tr e \<noteq> 0"
    by (simp add: rpcMetricAttributes_def keys_reason_iff keys_append)
      (auto simp: keys_of_def rpcOutcomeAttributes_def Let_def)
  show "URLPathKey \<notin> keys_of (httpMetricAttributes Reason tr e)"
    by (simp add: httpMetricAttributes_def keys_reason_iff keys_append) (auto simp: keys_of_def opt_attr_def status_attrs_def)
  show "URLPathKey \<notin> keys_of (rpcMetricAttributes Reason code_of code_String tr e)"
    by (simp add: rpcMetricAttributes_def keys_reason_iff keys_append)
      (auto simp: keys_of_def rpcOutcomeAttributes_def Let_def)
qed (simp add: knownHTTPMethod_def)

lemma code_name_no_lower: "list_all (\<lambda>c. \<not> is_lower c) (code_name_from prev s)"
proof (induction s arbitrary: prev)
  case (Cons c s)
  have "\<not> is_lower (char_of ((of_char c :: nat) - 32))" if "is_lower c"
  proof -
    have "((of_char c :: nat) - 32) mod 256 = of_char c - 32" using that unfolding is_lower_def by (intro mod_less) linarith
    then show ?thesis using that unfolding is_lower_def by (simp only: of_char_of) linarith
  qed
  moreover have "\<not> is_lower (CHR ''_'')" by (simp add: is_lower_def)
  moreover have "\<not> is_lower c" if "is_upper c" using that by (simp add: is_lower_def is_upper_def)
  ultimately show ?case using Cons by (auto split: option.split)
qed simp

end
