(* ===== verification/Middleware.thy ===== *)
theory Middleware
  imports Matcher Transport
begin

text \<open>
  \<open>pkg/middleware\<close>: the protocol-independent handlers and the middlewares around them. A handler gets a
  context and a state; the state holds the request's transporter, which all parts of the chain share, and
  whatever else the handler and the middlewares change (\<open>ms_app\<close>). A panic is \<open>Inl\<close>. The JWT library and the
  gRPC status library are parameters. The headers of both transports are modelled as HTTP headers: the
  middlewares only read them with \<open>Get\<close>, which ignores the case of the key in both.
\<close>

section \<open>Handlers\<close>

record mcontext =
  mc_server :: bool
  mc_identity :: "string option"
  mc_deadline :: "time option"

record 'a mstate =
  ms_tr :: transporter
  ms_app :: 'a

type_synonym ('a, 'r) reply = "('r option \<times> err option) go \<times> 'a mstate"
type_synonym ('a, 'r) mhandler = "mcontext \<Rightarrow> 'a mstate \<Rightarrow> ('a, 'r) reply"
type_synonym ('a, 'r) middleware = "('a, 'r) mhandler \<Rightarrow> ('a, 'r) mhandler"

definition FromServerContext :: "mcontext \<Rightarrow> 'a mstate \<Rightarrow> transporter option" where
  "FromServerContext ctx s = (if mc_server ctx then Some (ms_tr s) else None)"

section \<open>Middlewares\<close>

definition Recovery :: "('a, 'r) middleware" where
  "Recovery h ctx s =
     (case h ctx s of
        (Inl (Panic p), s) \<Rightarrow> (Inr (None, Some (ErrString (''panic recovered: '' @ p))), s)
      | (Inr r, s) \<Rightarrow> (Inr r, s))"

text \<open>A limiter that knows about contexts is asked with the context, any other without.\<close>

datatype 'a mlimiter = Limiter "'a \<Rightarrow> bool \<times> 'a" | ContextLimiter "mcontext \<Rightarrow> int \<Rightarrow> 'a \<Rightarrow> bool \<times> 'a"

definition RateLimit :: "'a mlimiter \<Rightarrow> ('a, 'r) middleware" where
  "RateLimit l h ctx s =
     (let (allowed, app) = (case l of ContextLimiter f \<Rightarrow> f ctx 1 (ms_app s) | Limiter f \<Rightarrow> f (ms_app s));
          s = s\<lparr>ms_app := app\<rparr>
      in if \<not> allowed then (Inr (None, Some ErrRateLimited), s) else h ctx s)"

text \<open>\<open>context.WithTimeout\<close> never moves an earlier deadline.\<close>

definition mw_WithTimeout :: "mcontext \<Rightarrow> time \<Rightarrow> duration \<Rightarrow> mcontext" where
  "mw_WithTimeout ctx now d =
     ctx\<lparr>mc_deadline := Some (case mc_deadline ctx of None \<Rightarrow> now + d | Some t \<Rightarrow> min t (now + d))\<rparr>"

definition mw_Timeout :: "duration \<Rightarrow> time \<Rightarrow> ('a, 'r) middleware" where
  "mw_Timeout d now h ctx s = h (mw_WithTimeout ctx now d) s"

definition parseBearer :: "string \<Rightarrow> string \<times> bool" where
  "parseBearer hdr =
     (let prefix = ''bearer ''
      in if length hdr < length prefix then ([], False)
         else if \<not> EqualFold (take (length prefix) hdr) prefix then ([], False)
         else let token = TrimSpace (drop (length prefix) hdr) in (token, token \<noteq> []))"

datatype claim = ClaimString string | ClaimOther

definition Auth :: "(string \<Rightarrow> string \<Rightarrow> err + (string \<rightharpoonup> claim)) \<Rightarrow> string \<Rightarrow> string \<Rightarrow> ('a, 'r) middleware" where
  "Auth ParseWithKey key identityKey h ctx s =
     (case FromServerContext ctx s of
        None \<Rightarrow> (Inr (None, Some ErrUnauthenticated), s)
      | Some tr \<Rightarrow>
          (let (tokenString, ok) = parseBearer (case tr_reqHeader tr of None \<Rightarrow> [] | Some hdr \<Rightarrow> httpHeader_Get hdr ''Authorization'')
           in if \<not> ok then (Inr (None, Some (WithMessage ErrUnauthenticated ''missing bearer token'')), s)
              else case ParseWithKey tokenString key of
                     Inl e \<Rightarrow> (Inr (None, Some (WithMessage ErrUnauthenticated ''invalid token'')), s)
                   | Inr claims \<Rightarrow>
                       (case claims identityKey of
                          None \<Rightarrow> (Inr (None, Some (WithMessage ErrUnauthenticated (''missing identity claim '' @ identityKey))), s)
                        | Some v \<Rightarrow>
                            (case v of
                               ClaimString identity \<Rightarrow>
                                 if identity = []
                                 then (Inr (None, Some (WithMessage ErrUnauthenticated (''invalid identity claim '' @ identityKey))), s)
                                 else h (ctx\<lparr>mc_identity := Some identity\<rparr>) s
                             | ClaimOther \<Rightarrow>
                                 (Inr (None, Some (WithMessage ErrUnauthenticated (''invalid identity claim '' @ identityKey))), s)))))"

definition IdentityFromContext :: "mcontext \<Rightarrow> string \<times> bool" where
  "IdentityFromContext ctx = (case mc_identity ctx of Some i \<Rightarrow> (i, True) | None \<Rightarrow> ([], False))"

text \<open>Builders that return nil are skipped; no middleware at all is the identity.\<close>

definition chain_all :: "('a, 'r) middleware list \<Rightarrow> ('a, 'r) middleware" where
  "chain_all mws = (case mws of [] \<Rightarrow> (\<lambda>h. h) | m # ms \<Rightarrow> Chain m ms)"

definition Build_middleware :: "'c \<Rightarrow> ('c \<Rightarrow> ('a, 'r) middleware option) list \<Rightarrow> ('a, 'r) middleware" where
  "Build_middleware ctx builders = chain_all (List.map_filter (\<lambda>b. b ctx) builders)"

definition ChainSuites :: "('a, 'r) middleware list list \<Rightarrow> ('a, 'r) middleware" where
  "ChainSuites suites = chain_all (concat suites)"

text \<open>Named middlewares.\<close>

definition Register_middleware :: "(string \<rightharpoonup> 'f) \<Rightarrow> string \<Rightarrow> 'f \<Rightarrow> (string \<rightharpoonup> 'f)" where
  "Register_middleware reg name f = reg(name \<mapsto> f)"

definition Get_middleware :: "(string \<rightharpoonup> (unit \<Rightarrow> 'm)) \<Rightarrow> string \<Rightarrow> err + 'm" where
  "Get_middleware reg name =
     (case reg name of None \<Rightarrow> Inl (ErrString (''middleware '' @ name @ '' not registered'')) | Some f \<Rightarrow> Inr (f ()))"

section \<open>Bridges\<close>

text \<open>
  The unary interceptor: a transporter from the pool, the chain around the handler, and the status recorded
  at the innermost point. The result has the reply, the transporter as the middlewares last saw it, the
  pool after the release, and the state.
\<close>

definition record_status :: "(err \<Rightarrow> nat) \<Rightarrow> ('a, 'r) mhandler \<Rightarrow> ('a, 'r) mhandler" where
  "record_status code_of h ctx s =
     (case h ctx s of
        (Inl p, s) \<Rightarrow> (Inl p, s)
      | (Inr (resp, e), s) \<Rightarrow>
          (Inr (resp, e), s\<lparr>ms_tr := SetGRPCCode (ms_tr s) (case e of None \<Rightarrow> 0 | Some e \<Rightarrow> code_of e)\<rparr>))"

definition UnaryServerInterceptor ::
  "(err \<Rightarrow> nat) \<Rightarrow> ('a, 'r) middleware \<Rightarrow> transporter list \<Rightarrow> nat option \<Rightarrow> string \<Rightarrow> header \<Rightarrow> ('a, 'r) mhandler \<Rightarrow> mcontext \<Rightarrow> 'a
   \<Rightarrow> ('r option \<times> err option) go \<times> transporter \<times> transporter list \<times> 'a" where
  "UnaryServerInterceptor code_of m pool choice fullMethod md handler ctx app =
     (let (tr, pool) = NewTransporter pool choice KindGRPC fullMethod [] (Some md) (Some []) [];
          (r, s) = m (record_status code_of handler) (ctx\<lparr>mc_server := True\<rparr>) \<lparr>ms_tr = tr, ms_app = app\<rparr>
      in (r, ms_tr s, Release_transporter (ms_tr s) pool, ms_app s))"

text \<open>
  The stream interceptor: the business handler gets a stream whose context was fixed before the chain
  started; the context that the chain hands to its innermost handler is not used.
\<close>

definition StreamServerInterceptor ::
  "(err \<Rightarrow> nat) \<Rightarrow> ('a, 'r) middleware \<Rightarrow> transporter list \<Rightarrow> nat option \<Rightarrow> string \<Rightarrow> header
   \<Rightarrow> (mcontext \<Rightarrow> 'a mstate \<Rightarrow> err option go \<times> 'a mstate) \<Rightarrow> mcontext \<Rightarrow> 'a
   \<Rightarrow> err option go \<times> transporter \<times> transporter list \<times> 'a" where
  "StreamServerInterceptor code_of m pool choice fullMethod md handler ctx app =
     (let (tr, pool) = NewTransporter pool choice KindGRPC fullMethod [] (Some md) (Some []) [];
          wrapped = ctx\<lparr>mc_server := True\<rparr>;
          inner = record_status code_of (\<lambda>_ s. case handler wrapped s of (Inl p, s) \<Rightarrow> (Inl p, s) | (Inr e, s) \<Rightarrow> (Inr (None, e), s));
          (r, s) = m inner wrapped \<lparr>ms_tr = tr, ms_app = app\<rparr>
      in (case r of Inl p \<Rightarrow> Inl p | Inr (_, e) \<Rightarrow> Inr e, ms_tr s, Release_transporter (ms_tr s) pool, ms_app s))"

text \<open>The operation name of an HTTP request and the error made from a written status.\<close>

definition http_operation :: "string \<Rightarrow> string \<Rightarrow> string" where
  "http_operation mth route = (if route = [] then mth @ '' unmatched'' else mth @ '' '' @ route)"

definition protocolVersion :: "string \<Rightarrow> string" where
  "protocolVersion proto = (if HasPrefix proto ''HTTP/'' then drop 5 proto else proto)"

definition newHTTPTransporter ::
  "transporter list \<Rightarrow> nat option \<Rightarrow> string \<Rightarrow> string \<Rightarrow> string \<Rightarrow> string \<Rightarrow> string \<Rightarrow> header \<Rightarrow> header \<Rightarrow> transporter \<times> transporter list" where
  "newHTTPTransporter pool choice mth route host path proto reqh reph =
     NewTransporter pool choice KindHTTP (http_operation mth route) host (Some reqh) (Some reph)
       [WithHTTPRequest mth route path (protocolVersion proto)]"

definition httpStatusReasons :: "int \<rightharpoonup> string" where
  "httpStatusReasons = [StatusBadRequest \<mapsto> ''InvalidArgument'', StatusUnauthorized \<mapsto> ''Unauthenticated'',
     StatusForbidden \<mapsto> ''PermissionDenied'', StatusNotFound \<mapsto> ''NotFound'',
     StatusTooManyRequests \<mapsto> ''ResourceExhausted.TooManyRequests'', StatusGatewayTimeout \<mapsto> ''ServiceUnavailable.Timeout'']"

definition httpStatusReason :: "int \<Rightarrow> string" where
  "httpStatusReason status =
     (case httpStatusReasons status of
        Some r \<Rightarrow> r
      | None \<Rightarrow> if status \<ge> StatusInternalServerError then ''InternalError'' else ''InvalidArgument'')"

definition new_status_error :: "int \<Rightarrow> err" where
  "new_status_error status =
     ErrorX status (httpStatusReason status) (''HTTP request failed with status '' @ Itoa status) None"

definition httpStatusErrors :: "int \<rightharpoonup> err" where
  "httpStatusErrors status = (if StatusBadRequest \<le> status \<and> status < 600 then Some (new_status_error status) else None)"

definition httpStatusError :: "int \<Rightarrow> err option" where
  "httpStatusError status =
     (if status < StatusBadRequest then None
      else case httpStatusErrors status of Some e \<Rightarrow> Some e | None \<Rightarrow> Some (new_status_error status))"

section \<open>Cross-origin requests\<close>

record corsConfig =
  AllowOrigins :: "string list"
  AllowMethods :: "string list"
  AllowHeaders :: "string list"
  ExposeHeaders :: "string list"
  AllowCredentials :: bool
  MaxAge :: int

definition allowedOrigin :: "string list \<Rightarrow> string \<Rightarrow> bool" where
  "allowedOrigin allowed origin \<longleftrightarrow> allowed = [] \<or> list_ex (\<lambda>o'. o' = ''*'' \<or> o' = origin) allowed"

text \<open>The response headers after the middleware, and whether it aborted the request with status 204.\<close>

definition set_if :: "bool \<Rightarrow> header \<Rightarrow> string \<Rightarrow> string \<Rightarrow> header" where
  "set_if b h key v = (if b then httpHeader_Set h key v else h)"

definition CORS :: "corsConfig \<Rightarrow> string \<Rightarrow> header \<Rightarrow> header \<Rightarrow> header \<times> bool" where
  "CORS cfg mth reqh h =
     (let methods = (if AllowMethods cfg = []
                     then [''GET'', ''POST'', ''PUT'', ''PATCH'', ''DELETE'', ''HEAD'', ''OPTIONS''] else AllowMethods cfg);
          expose = (if ExposeHeaders cfg \<noteq> [] then Join (ExposeHeaders cfg) '', '' else []);
          origin = httpHeader_Get reqh ''Origin'';
          h = set_if (allowedOrigin (AllowOrigins cfg) origin \<and> (AllowCredentials cfg \<longrightarrow> origin \<noteq> []))
                h ''Access-Control-Allow-Origin''
                (if AllowCredentials cfg then origin else if AllowOrigins cfg = [] then ''*'' else origin);
          h = set_if (AllowCredentials cfg) h ''Access-Control-Allow-Credentials'' ''true'';
          h = set_if (expose \<noteq> []) h ''Access-Control-Expose-Headers'' expose
      in if mth = ''OPTIONS'' then
           (let h = httpHeader_Set h ''Access-Control-Allow-Methods'' (Join methods '', '');
                reqHeaders = httpHeader_Get reqh ''Access-Control-Request-Headers'';
                allowHeaders = (if AllowHeaders cfg = [] then (if reqHeaders \<noteq> [] then [reqHeaders] else [])
                                else AllowHeaders cfg);
                h = set_if (allowHeaders \<noteq> []) h ''Access-Control-Allow-Headers'' (Join allowHeaders '', '');
                h = set_if (MaxAge cfg > 0) h ''Access-Control-Max-Age'' (Itoa (MaxAge cfg))
            in (h, True))
         else (h, False))"

section \<open>Properties of the chain\<close>

text \<open>
  C28. With \<open>Recovery\<close> outermost no request panics, whatever middlewares and handler are inside: a panic
  becomes an error reply without a response, and a reply that is not a panic passes unchanged.
\<close>

theorem recovery_contains_panics:
  "case Chain Recovery mws h ctx s of
     (Inl p, s') \<Rightarrow> False
   | (Inr r, s') \<Rightarrow>
       (case foldr (\<lambda>m. m) mws h ctx s of
          (Inl (Panic p), s'') \<Rightarrow> r = (None, Some (ErrString (''panic recovered: '' @ p))) \<and> s' = s''
        | (Inr r', s'') \<Rightarrow> r = r' \<and> s' = s'')"
proof -
  obtain r s' where r: "foldr (\<lambda>m. m) mws h ctx s = (r, s')" by fastforce
  show ?thesis
  proof (cases r)
    case (Inl p)
    then show ?thesis by (cases p) (simp add: Chain_foldr Recovery_def r)
  qed (simp add: Chain_foldr Recovery_def r)
qed

definition authorization :: "transporter \<Rightarrow> string" where
  "authorization tr = (case tr_reqHeader tr of None \<Rightarrow> [] | Some hdr \<Rightarrow> httpHeader_Get hdr ''Authorization'')"

text \<open>
  C27. \<open>Auth\<close> lets a request through only with a proven identity: either the request has a server context
  and a bearer token that parses under the key to claims with a non-empty string identity, and then the
  handler runs with exactly that identity in its context, or the reply is an \<open>Unauthenticated\<close> error with
  code 401, the state is unchanged, and the handler plays no part in it.
\<close>

theorem Auth_requires_identity:
  "(\<exists>token claims identity. mc_server ctx \<and> parseBearer (authorization (ms_tr s)) = (token, True)
      \<and> ParseWithKey token key = Inr claims \<and> claims identityKey = Some (ClaimString identity) \<and> identity \<noteq> []
      \<and> (\<forall>h :: ('a, 'b) mhandler. Auth ParseWithKey key identityKey h ctx s = h (ctx\<lparr>mc_identity := Some identity\<rparr>) s))
   \<or> (\<exists>msg. \<forall>h :: ('a, 'b) mhandler. Auth ParseWithKey key identityKey h ctx s =
        (Inr (None, Some (ErrorX StatusUnauthorized ReasonUnauthenticated msg None)), s))"
proof (cases "mc_server ctx")
  case False
  then show ?thesis by (auto simp: Auth_def FromServerContext_def ErrUnauthenticated_def)
next
  case server: True
  obtain token ok where t: "parseBearer (authorization (ms_tr s)) = (token, ok)" by fastforce
  have auth: "Auth ParseWithKey key identityKey h ctx s =
      (if \<not> ok then (Inr (None, Some (WithMessage ErrUnauthenticated ''missing bearer token'')), s)
       else case ParseWithKey token key of
              Inl e \<Rightarrow> (Inr (None, Some (WithMessage ErrUnauthenticated ''invalid token'')), s)
            | Inr claims \<Rightarrow>
                (case claims identityKey of
                   None \<Rightarrow> (Inr (None, Some (WithMessage ErrUnauthenticated (''missing identity claim '' @ identityKey))), s)
                 | Some v \<Rightarrow>
                     (case v of
                        ClaimString identity \<Rightarrow>
                          if identity = []
                          then (Inr (None, Some (WithMessage ErrUnauthenticated (''invalid identity claim '' @ identityKey))), s)
                          else h (ctx\<lparr>mc_identity := Some identity\<rparr>) s
                      | ClaimOther \<Rightarrow>
                          (Inr (None, Some (WithMessage ErrUnauthenticated (''invalid identity claim '' @ identityKey))), s))))" for h :: "('a, 'b) mhandler"
    using server t by (simp add: Auth_def FromServerContext_def authorization_def Let_def)
  have w: "WithMessage ErrUnauthenticated m = ErrorX StatusUnauthorized ReasonUnauthenticated m None" for m
    by (simp add: WithMessage_def ErrUnauthenticated_def)
  have rejected: ?thesis
    if "\<forall>h :: ('a, 'b) mhandler. Auth ParseWithKey key identityKey h ctx s = (Inr (None, Some (WithMessage ErrUnauthenticated m)), s)" for m
    using that unfolding w by blast
  show ?thesis
  proof (cases ok)
    case False
    show ?thesis by (rule rejected, unfold auth) (simp add: False)
  next
    case ok: True
    show ?thesis
    proof (cases "ParseWithKey token key")
      case (Inl e)
      show ?thesis by (rule rejected, unfold auth) (simp add: Inl ok)
    next
      case (Inr claims)
      show ?thesis
      proof (cases "claims identityKey")
        case None
        show ?thesis by (rule rejected, unfold auth) (simp add: Inr ok None)
      next
        case (Some v)
        show ?thesis
        proof (cases "v = ClaimOther \<or> v = ClaimString []")
          case True
          show ?thesis by (rule rejected, unfold auth) (use Inr ok Some True in auto)
        next
          case False
          then obtain identity where i: "v = ClaimString identity" "identity \<noteq> []" by (cases v) auto
          then have "\<forall>h :: ('a, 'b) mhandler. Auth ParseWithKey key identityKey h ctx s = h (ctx\<lparr>mc_identity := Some identity\<rparr>) s"
            unfolding auth by (simp add: Inr ok Some)
          moreover have "parseBearer (authorization (ms_tr s)) = (token, True)" "claims identityKey = Some (ClaimString identity)"
            using t ok Some i by simp_all
          ultimately show ?thesis using server Inr i(2) by blast
        qed
      qed
    qed
  qed
qed

lemma parseBearer_print:
  assumes "EqualFold scheme ''bearer''" "TrimSpace token = token" "token \<noteq> []"
  shows "parseBearer (scheme @ '' '' @ token) = (token, True)"
proof -
  have l: "length scheme = 6" using assms(1) by (auto simp: EqualFold_def ToLower_def dest: map_eq_imp_length_eq)
  have "ToLower (scheme @ '' '') = ToLower (''bearer '')"
    using assms(1) by (simp add: EqualFold_def ToLower_def lower_char_def)
  then show ?thesis using assms(2,3) l by (simp add: parseBearer_def EqualFold_def)
qed

text \<open>
  C29. A rejected gRPC call can be reported with the status of an earlier call: when the pool hands out the
  transporter of an earlier call that ended with a status other than OK, and a middleware such as the
  rate limiter rejects the new call before its handler runs, the status that telemetry reads for the new
  call is the one of the earlier call.
\<close>

theorem rejected_call_reports_old_status:
  assumes "tr_grpcCode old \<noteq> 0"
  shows "case UnaryServerInterceptor code_of (RateLimit (Limiter (\<lambda>a. (False, a)))) (Release_transporter old pool) (Some 0)
             fullMethod md handler ctx app of
     (r, tr, _, _) \<Rightarrow> r = Inr (None, Some ErrRateLimited)
       \<and> rpcStatusCode code_of tr (Some ErrRateLimited) = tr_grpcCode old"
proof -
  let ?t = "NewTransporter (Release_transporter old pool) (Some 0) KindGRPC fullMethod [] (Some md) (Some []) []"
  have "rpcStatusCode code_of (fst ?t) (Some ErrRateLimited) = tr_grpcCode old"
    using recycled_transporter_code
      [of old pool KindGRPC fullMethod "[]" "Some md" "Some []" "[]" code_of ErrRateLimited, THEN conjunct2] assms
    by simp
  then show ?thesis by (simp add: UnaryServerInterceptor_def RateLimit_def split_beta)
qed

theorem rejected_call_reports_old_status_witness:
  "case UnaryServerInterceptor (\<lambda>_. 8) (RateLimit (Limiter (\<lambda>a. (False, a))))
       (Release_transporter (SetGRPCCode zero_transporter 5) []) (Some 0) ''/svc/M'' [] (\<lambda>_ s. (Inr (None, None), s))
       \<lparr>mc_server = False, mc_identity = None, mc_deadline = None\<rparr> () of
     (r, tr, _, _) \<Rightarrow> r = (Inr (None, Some ErrRateLimited) :: (unit option \<times> err option) go)
       \<and> rpcStatusCode (\<lambda>_. 8) tr (Some ErrRateLimited) = 5"
proof -
  have c: "tr_grpcCode (SetGRPCCode zero_transporter 5) = 5" by (simp add: SetGRPCCode_def)
  then have "tr_grpcCode (SetGRPCCode zero_transporter 5) \<noteq> 0" by simp
  from rejected_call_reports_old_status [OF this, of "\<lambda>_. 8" "[]" "''/svc/M''" "[]" "\<lambda>_ s. (Inr (None, None), s)"
      "\<lparr>mc_server = False, mc_identity = None, mc_deadline = None\<rparr>" "()"] c
  show ?thesis by simp
qed

text \<open>
  A stream handler never sees what the chain puts into the context: a timeout around a stream has no
  effect on the context of its handler, so that the stream behaves exactly as without it, whereas a
  unary handler gets the deadline.
\<close>

theorem stream_timeout_has_no_effect:
  "StreamServerInterceptor code_of (mw_Timeout d now :: ('a, 'b) middleware) pool choice fullMethod md handler ctx app =
     StreamServerInterceptor code_of (\<lambda>h :: ('a, 'b) mhandler. h) pool choice fullMethod md handler ctx app
   \<and> UnaryServerInterceptor code_of (mw_Timeout d now) pool choice fullMethod md unary ctx app =
     UnaryServerInterceptor code_of (\<lambda>h. h) pool choice fullMethod md (\<lambda>c. unary (mw_WithTimeout c now d)) ctx app"
proof
  show "StreamServerInterceptor code_of (mw_Timeout d now :: ('a, 'b) middleware) pool choice fullMethod md handler ctx app =
     StreamServerInterceptor code_of (\<lambda>h :: ('a, 'b) mhandler. h) pool choice fullMethod md handler ctx app"
  proof -
    have "mw_Timeout d now (record_status code_of (\<lambda>_. f)) = record_status code_of (\<lambda>_. f)"
      for f :: "'a mstate \<Rightarrow> ('a, 'b) reply"
      by (intro ext) (simp add: mw_Timeout_def record_status_def)
    then show ?thesis by (simp only: StreamServerInterceptor_def Let_def)
  qed
qed (simp add: UnaryServerInterceptor_def mw_Timeout_def record_status_def)

text \<open>The precomputed errors are the ones that would be made on the spot.\<close>

lemma httpStatusError_spec:
  "httpStatusError status = (if status < 400 then None else Some (new_status_error status))"
  by (simp add: httpStatusError_def httpStatusErrors_def status_defs)

section \<open>Properties of CORS\<close>

lemma get_set_if:
  "httpHeader_Get (set_if b h k v) k' =
     (if b \<and> CanonicalHeaderKey k = CanonicalHeaderKey k' then v else httpHeader_Get h k')"
  by (simp add: set_if_def hh.get_set)

lemma length_canonical: "length (CanonicalHeaderKey k) = length k"
proof -
  have "length (canonical_from up k) = length k" for up by (induction k arbitrary: up) simp_all
  then show ?thesis by (simp add: CanonicalHeaderKey_def)
qed

lemma canonical_neq: "length k \<noteq> length k' \<Longrightarrow> CanonicalHeaderKey k = CanonicalHeaderKey k' \<longleftrightarrow> False"
  by (metis length_canonical)

text \<open>Which of the header names that CORS writes are spellings of the two that are read below.\<close>

lemma cors_keys:
  "CanonicalHeaderKey ''Access-Control-Allow-Credentials'' = CanonicalHeaderKey ''Access-Control-Allow-Origin'' \<longleftrightarrow> False"
  "CanonicalHeaderKey ''Access-Control-Expose-Headers'' = CanonicalHeaderKey ''Access-Control-Allow-Origin'' \<longleftrightarrow> False"
  "CanonicalHeaderKey ''Access-Control-Allow-Methods'' = CanonicalHeaderKey ''Access-Control-Allow-Origin'' \<longleftrightarrow> False"
  "CanonicalHeaderKey ''Access-Control-Allow-Headers'' = CanonicalHeaderKey ''Access-Control-Allow-Origin'' \<longleftrightarrow> False"
  "CanonicalHeaderKey ''Access-Control-Max-Age'' = CanonicalHeaderKey ''Access-Control-Allow-Origin'' \<longleftrightarrow> False"
  "CanonicalHeaderKey ''Access-Control-Allow-Origin'' = CanonicalHeaderKey ''Access-Control-Allow-Credentials'' \<longleftrightarrow> False"
  "CanonicalHeaderKey ''Access-Control-Expose-Headers'' = CanonicalHeaderKey ''Access-Control-Allow-Credentials'' \<longleftrightarrow> False"
  "CanonicalHeaderKey ''Access-Control-Allow-Methods'' = CanonicalHeaderKey ''Access-Control-Allow-Credentials'' \<longleftrightarrow> False"
  "CanonicalHeaderKey ''Access-Control-Allow-Headers'' = CanonicalHeaderKey ''Access-Control-Allow-Credentials'' \<longleftrightarrow> False"
  "CanonicalHeaderKey ''Access-Control-Max-Age'' = CanonicalHeaderKey ''Access-Control-Allow-Credentials'' \<longleftrightarrow> False"
  by (rule canonical_neq, simp)+

lemma get_empty: "httpHeader_Get [] k = []"
  by (simp add: httpHeader_Get_def header_values_def)

lemmas cors_simps = get_set_if hh.get_set cors_keys get_empty

lemma CORS_origin_value:
  "httpHeader_Get (fst (CORS cfg mth reqh [])) ''Access-Control-Allow-Origin'' =
     (if allowedOrigin (AllowOrigins cfg) (httpHeader_Get reqh ''Origin'') \<and> (AllowCredentials cfg \<longrightarrow> httpHeader_Get reqh ''Origin'' \<noteq> [])
      then if AllowCredentials cfg then httpHeader_Get reqh ''Origin''
           else if AllowOrigins cfg = [] then ''*'' else httpHeader_Get reqh ''Origin''
      else [])"
  unfolding CORS_def Let_def by (cases "mth = ''OPTIONS''") (simp_all only: if_True if_False fst_conv cors_simps simp_thms)

lemma CORS_credentials_value:
  "httpHeader_Get (fst (CORS cfg mth reqh [])) ''Access-Control-Allow-Credentials'' = (if AllowCredentials cfg then ''true'' else [])"
  unfolding CORS_def Let_def by (cases "mth = ''OPTIONS''") (simp_all only: if_True if_False fst_conv cors_simps simp_thms)

text \<open>
  The origin that a CORS response allows: none when the request's origin is not allowed; with
  credentials the origin of the request itself and never a wildcard for others; without credentials the
  wildcard when every origin is allowed by default, and the request's origin otherwise. Preflight
  requests, and only they, are answered at once. With credentials and no configured origins, every
  origin is echoed with credentials allowed.
\<close>

theorem CORS_allowed_origin:
  "httpHeader_Get (fst (CORS cfg mth reqh [])) ''Access-Control-Allow-Origin'' =
     (let origin = httpHeader_Get reqh ''Origin''
      in if \<not> allowedOrigin (AllowOrigins cfg) origin then []
         else if AllowCredentials cfg then origin
         else if AllowOrigins cfg = [] then ''*'' else origin)
   \<and> snd (CORS cfg mth reqh []) = (mth = ''OPTIONS'')
   \<and> (AllowCredentials cfg \<longleftrightarrow> httpHeader_Get (fst (CORS cfg mth reqh [])) ''Access-Control-Allow-Credentials'' = ''true'')"
  unfolding CORS_origin_value CORS_credentials_value Let_def by (simp add: CORS_def Let_def)

end
