(* ===== verification/Executors.thy ===== *)
theory Executors
  imports Prelude "HOL-Library.Multiset"
begin

text \<open>
  \<open>pkg/core/executors\<close>: the periodical executor with its bulk and chunk containers as an interleaving of
  goroutines, the delay executor and the rate-limited \<open>LessExecutor\<close>. A goroutine is a \<open>proc\<close> that says where
  in the code it stands; a state holds the multiset of goroutines beside the fields of the executor. One step
  is one critical section, one channel operation or one call of the user's function. The counter \<open>inflight\<close> is
  an \<open>int32\<close> in the code; it counts blocked goroutines, too few to reach its width.
\<close>

section \<open>Containers\<close>

definition idleRound :: int where "idleRound = 10"
definition defaultFlushInterval :: duration where "defaultFlushInterval = Second"
definition defaultBulkTasks :: int where "defaultBulkTasks = 1000"
definition defaultChunkSize :: int where "defaultChunkSize = 1024 * 1024"

text \<open>The interface \<open>TaskContainer\<close>; the tasks it collects are the argument of \<open>Execute\<close>.\<close>

record ('c, 't, 'v) taskContainer =
  AddTask :: "'c \<Rightarrow> 't \<Rightarrow> bool \<times> 'c"
  RemoveAll :: "'c \<Rightarrow> 'v list \<times> 'c"

record bulkOptions =
  cachedTasks :: int
  bulkInterval :: duration

definition newBulkOptions :: bulkOptions where
  "newBulkOptions = \<lparr>cachedTasks = defaultBulkTasks, bulkInterval = defaultFlushInterval\<rparr>"

datatype bulkOption = WithBulkTasks int | WithBulkInterval duration

fun apply_bulkOption :: "bulkOption \<Rightarrow> bulkOptions \<Rightarrow> bulkOptions" where
  "apply_bulkOption (WithBulkTasks n) opts = opts\<lparr>cachedTasks := n\<rparr>"
| "apply_bulkOption (WithBulkInterval d) opts = opts\<lparr>bulkInterval := d\<rparr>"

record 'v bulkContainer =
  bulk_tasks :: "'v list"
  maxTasks :: int

definition bulk_AddTask :: "'v bulkContainer \<Rightarrow> 'v \<Rightarrow> bool \<times> 'v bulkContainer" where
  "bulk_AddTask bc task =
     (let bc = bc\<lparr>bulk_tasks := bulk_tasks bc @ [task]\<rparr> in (int (length (bulk_tasks bc)) \<ge> maxTasks bc, bc))"

definition bulk_RemoveAll :: "'v bulkContainer \<Rightarrow> 'v list \<times> 'v bulkContainer" where
  "bulk_RemoveAll bc = (bulk_tasks bc, bc\<lparr>bulk_tasks := []\<rparr>)"

definition bulk_container :: "('v bulkContainer, 'v, 'v) taskContainer" where
  "bulk_container = \<lparr>AddTask = bulk_AddTask, RemoveAll = bulk_RemoveAll\<rparr>"

record chunkOptions =
  chunkSize :: int
  chunkInterval :: duration

definition newChunkOptions :: chunkOptions where
  "newChunkOptions = \<lparr>chunkSize = defaultChunkSize, chunkInterval = defaultFlushInterval\<rparr>"

datatype chunkOption = WithChunkBytes int | WithFlushInterval duration

fun apply_chunkOption :: "chunkOption \<Rightarrow> chunkOptions \<Rightarrow> chunkOptions" where
  "apply_chunkOption (WithChunkBytes n) opts = opts\<lparr>chunkSize := n\<rparr>"
| "apply_chunkOption (WithFlushInterval d) opts = opts\<lparr>chunkInterval := d\<rparr>"

record 'v chunk =
  chunk_val :: 'v
  chunk_size :: int

record 'v chunkContainer =
  chunk_tasks :: "'v list"
  total_size :: int
  maxChunkSize :: int

definition chunk_AddTask :: "'v chunkContainer \<Rightarrow> 'v chunk \<Rightarrow> bool \<times> 'v chunkContainer" where
  "chunk_AddTask bc ck =
     (let bc = bc\<lparr>chunk_tasks := chunk_tasks bc @ [chunk_val ck],
                  total_size := int64 (total_size bc + chunk_size ck)\<rparr>
      in (total_size bc \<ge> maxChunkSize bc, bc))"

definition chunk_RemoveAll :: "'v chunkContainer \<Rightarrow> 'v list \<times> 'v chunkContainer" where
  "chunk_RemoveAll bc = (chunk_tasks bc, bc\<lparr>chunk_tasks := [], total_size := 0\<rparr>)"

definition chunk_container :: "('v chunkContainer, 'v chunk, 'v) taskContainer" where
  "chunk_container = \<lparr>AddTask = chunk_AddTask, RemoveAll = chunk_RemoveAll\<rparr>"

section \<open>The periodical executor\<close>

text \<open>
  Who called \<open>Flush\<close>: a caller of the executor, \<open>Wait\<close>, the background flusher on a tick, or the background
  flusher when it exits.
\<close>

datatype flusher = by_user | by_wait | by_tick | by_exit

datatype 'v proc =
    add_send "'v list"          \<comment> \<open>\<open>Add\<close> before \<open>pe.commander <- vals\<close>\<close>
  | add_confirm                 \<comment> \<open>\<open>Add\<close> at \<open><-pe.confirmChan\<close>\<close>
  | bg_start                    \<comment> \<open>the background flusher before \<open>newTicker(pe.interval)\<close>\<close>
  | bg_loop bool                \<comment> \<open>the background flusher at its \<open>select\<close>, with \<open>commanded\<close>\<close>
  | bg_enter "'v list"          \<comment> \<open>it has received a command, before \<open>enterExecution\<close>\<close>
  | bg_confirm "'v list"        \<comment> \<open>before \<open>pe.confirmChan <- struct{}{}\<close>\<close>
  | bg_execute "'v list"        \<comment> \<open>before \<open>executeTasks(vals)\<close>\<close>
  | bg_quit                     \<comment> \<open>before \<open>shallQuit(last)\<close>\<close>
  | flush_enter flusher         \<comment> \<open>\<open>Flush\<close> before \<open>enterExecution\<close>\<close>
  | flush_remove flusher        \<comment> \<open>\<open>Flush\<close> before \<open>RemoveAll\<close>\<close>
  | flush_execute flusher "'v list"  \<comment> \<open>\<open>Flush\<close> before \<open>executeTasks\<close>\<close>
  | wait_lock                   \<comment> \<open>\<open>Wait\<close> before it holds \<open>wgBarrier\<close>\<close>
  | wait_group                  \<comment> \<open>\<open>Wait\<close> at \<open>waitGroup.Wait()\<close>, holding the barrier\<close>
  | running "'v list"           \<comment> \<open>a goroutine started for \<open>container.Execute(tasks)\<close>\<close>

record ('c, 'v) periodicalExecutor =
  commander :: "'v list option"
  pe_interval :: duration
  container :: 'c
  waitGroup :: nat
  wgBarrier :: bool
  inflight :: int
  guarded :: bool
  procs :: "'v proc multiset"

definition NewPeriodicalExecutor :: "duration \<Rightarrow> 'c \<Rightarrow> ('c, 'v) periodicalExecutor" where
  "NewPeriodicalExecutor interval c =
     \<lparr>commander = None, pe_interval = interval, container = c, waitGroup = 0, wgBarrier = False, inflight = 0,
      guarded = False, procs = {#}\<rparr>"

definition NewBulkExecutor :: "bulkOption list \<Rightarrow> ('v bulkContainer, 'v) periodicalExecutor" where
  "NewBulkExecutor opts =
     (let o1 = fold apply_bulkOption opts newBulkOptions
      in NewPeriodicalExecutor (bulkInterval o1) \<lparr>bulk_tasks = [], maxTasks = cachedTasks o1\<rparr>)"

definition NewChunkExecutor :: "chunkOption list \<Rightarrow> ('v chunkContainer, 'v) periodicalExecutor" where
  "NewChunkExecutor opts =
     (let o1 = fold apply_chunkOption opts newChunkOptions
      in NewPeriodicalExecutor (chunkInterval o1) \<lparr>chunk_tasks = [], total_size = 0, maxChunkSize = chunkSize o1\<rparr>)"

text \<open>Starting goroutines is adding them to the multiset.\<close>

definition go_start :: "'v proc list \<Rightarrow> ('c, 'v) periodicalExecutor \<Rightarrow> ('c, 'v) periodicalExecutor" where
  "go_start ps pe = pe\<lparr>procs := procs pe + mset ps\<rparr>"

definition addAndCheck :: "('c, 't, 'v) taskContainer \<Rightarrow> ('c, 'v) periodicalExecutor \<Rightarrow> 't
    \<Rightarrow> 'v list option \<times> ('c, 'v) periodicalExecutor" where
  "addAndCheck ops pe task =
     (let (full, c) = AddTask ops (container pe) task;
          (vals, c, n) = (if full then (let (tasks, c) = RemoveAll ops c in (Some tasks, c, inflight pe + 1))
                          else (None, c, inflight pe));
          background = (if guarded pe then [] else [bg_start])
      in (vals, go_start background (pe\<lparr>container := c, inflight := n, guarded := True\<rparr>)))"

text \<open>\<open>Add\<close> up to the point where it returns or has vals to send.\<close>

definition PE_Add :: "('c, 't, 'v) taskContainer \<Rightarrow> ('c, 'v) periodicalExecutor \<Rightarrow> 't \<Rightarrow> ('c, 'v) periodicalExecutor" where
  "PE_Add ops pe task =
     (case addAndCheck ops pe task of (None, pe) \<Rightarrow> pe | (Some vals, pe) \<Rightarrow> go_start [add_send vals] pe)"

definition hasTasks :: "'v list \<Rightarrow> bool" where
  "hasTasks tasks \<longleftrightarrow> length tasks > 0"

text \<open>\<open>executeTasks\<close> starts the goroutine that runs the batch and then, deferred, counts the execution as done.\<close>

definition executeTasks :: "'v list \<Rightarrow> ('c, 'v) periodicalExecutor \<Rightarrow> bool \<times> ('c, 'v) periodicalExecutor" where
  "executeTasks tasks pe =
     (let ok = hasTasks tasks; pe = (if ok then go_start [running tasks] pe else pe)
      in (ok, pe\<lparr>waitGroup := waitGroup pe - 1\<rparr>))"

definition flush_RemoveAll :: "('c, 't, 'v) taskContainer \<Rightarrow> ('c, 'v) periodicalExecutor
    \<Rightarrow> 'v list \<times> ('c, 'v) periodicalExecutor" where
  "flush_RemoveAll ops pe = (let (tasks, c) = RemoveAll ops (container pe) in (tasks, pe\<lparr>container := c\<rparr>))"

text \<open>Where a caller of \<open>Flush\<close> continues, with the result of \<open>Flush\<close>.\<close>

fun flush_return :: "flusher \<Rightarrow> bool \<Rightarrow> 'v proc list" where
  "flush_return by_user ok = []"
| "flush_return by_wait ok = [wait_lock]"
| "flush_return by_tick ok = (if ok then [bg_loop False] else [bg_quit])"
| "flush_return by_exit ok = []"

definition shallQuit :: "('c, 'v) periodicalExecutor \<Rightarrow> duration \<Rightarrow> bool \<times> ('c, 'v) periodicalExecutor" where
  "shallQuit pe since_last =
     (if since_last \<le> int64 (pe_interval pe * idleRound) then (False, pe)
      else if inflight pe = 0 then (True, pe\<lparr>guarded := False\<rparr>) else (False, pe))"

text \<open>
  The goroutines of an executor. A label says what the step shows to the outside: a task handed to \<open>Add\<close>, a
  batch given to the user's function, a call of \<open>Flush\<close> or \<open>Wait\<close>, a \<open>Wait\<close> that returned. \<open>time.NewTicker\<close>
  panics for an interval that is not positive: the deferred \<open>Flush\<close> runs, the panic is recovered and the
  goroutine is gone, with \<open>guarded\<close> still set.
\<close>

datatype ('t, 'v) label = Added 't | Flush_called | Wait_called | Ran "'v list" | Waited | Internal

inductive pe_step :: "('c, 't, 'v) taskContainer \<Rightarrow> ('c, 'v) periodicalExecutor \<Rightarrow> ('t, 'v) label
    \<Rightarrow> ('c, 'v) periodicalExecutor \<Rightarrow> bool" for ops where
  add: "pe_step ops pe (Added task) (PE_Add ops pe task)"
| start: "procs pe = add_mset bg_start ps \<Longrightarrow> 0 < pe_interval pe
    \<Longrightarrow> pe_step ops pe Internal (pe\<lparr>procs := add_mset (bg_loop False) ps\<rparr>)"
| start_panics: "procs pe = add_mset bg_start ps \<Longrightarrow> pe_interval pe \<le> 0
    \<Longrightarrow> pe_step ops pe Internal (pe\<lparr>procs := add_mset (flush_enter by_exit) ps\<rparr>)"
| send: "procs pe = add_mset (add_send vals) ps \<Longrightarrow> commander pe = None
    \<Longrightarrow> pe_step ops pe Internal (pe\<lparr>commander := Some vals, procs := add_mset add_confirm ps\<rparr>)"
| receive: "procs pe = add_mset (bg_loop c) ps \<Longrightarrow> commander pe = Some vals
    \<Longrightarrow> pe_step ops pe Internal (pe\<lparr>commander := None, inflight := inflight pe - 1, procs := add_mset (bg_enter vals) ps\<rparr>)"
| enter: "procs pe = add_mset (bg_enter vals) ps \<Longrightarrow> \<not> wgBarrier pe
    \<Longrightarrow> pe_step ops pe Internal (pe\<lparr>waitGroup := waitGroup pe + 1, procs := add_mset (bg_confirm vals) ps\<rparr>)"
| confirm: "procs pe = add_mset (bg_confirm vals) (add_mset add_confirm ps)
    \<Longrightarrow> pe_step ops pe Internal (pe\<lparr>procs := add_mset (bg_execute vals) ps\<rparr>)"
| command: "procs pe = add_mset (bg_execute vals) ps
    \<Longrightarrow> pe_step ops pe Internal (go_start [bg_loop True] (snd (executeTasks vals (pe\<lparr>procs := ps\<rparr>))))"
| tick_commanded: "procs pe = add_mset (bg_loop True) ps
    \<Longrightarrow> pe_step ops pe Internal (pe\<lparr>procs := add_mset (bg_loop False) ps\<rparr>)"
| tick_flush: "procs pe = add_mset (bg_loop False) ps
    \<Longrightarrow> pe_step ops pe Internal (pe\<lparr>procs := add_mset (flush_enter by_tick) ps\<rparr>)"
| quit: "procs pe = add_mset bg_quit ps
    \<Longrightarrow> pe_step ops pe Internal
      (let (q, pe') = shallQuit (pe\<lparr>procs := ps\<rparr>) since_last in go_start [if q then flush_enter by_exit else bg_loop False] pe')"
| flush: "pe_step ops pe Flush_called (go_start [flush_enter by_user] pe)"
| wait: "pe_step ops pe Wait_called (go_start [flush_enter by_wait] pe)"
| flush_enter: "procs pe = add_mset (flush_enter k) ps \<Longrightarrow> \<not> wgBarrier pe
    \<Longrightarrow> pe_step ops pe Internal (pe\<lparr>waitGroup := waitGroup pe + 1, procs := add_mset (flush_remove k) ps\<rparr>)"
| flush_remove: "procs pe = add_mset (flush_remove k) ps
    \<Longrightarrow> pe_step ops pe Internal
      (let (vals, pe') = flush_RemoveAll ops (pe\<lparr>procs := ps\<rparr>) in go_start [flush_execute k vals] pe')"
| flush_execute: "procs pe = add_mset (flush_execute k vals) ps
    \<Longrightarrow> pe_step ops pe Internal
      (let (ok, pe') = executeTasks vals (pe\<lparr>procs := ps\<rparr>) in go_start (flush_return k ok) pe')"
| wait_lock: "procs pe = add_mset wait_lock ps \<Longrightarrow> \<not> wgBarrier pe
    \<Longrightarrow> pe_step ops pe Internal (pe\<lparr>wgBarrier := True, procs := add_mset wait_group ps\<rparr>)"
| wait_done: "procs pe = add_mset wait_group ps \<Longrightarrow> waitGroup pe = 0
    \<Longrightarrow> pe_step ops pe Waited (pe\<lparr>wgBarrier := False, procs := ps\<rparr>)"
| run: "procs pe = add_mset (running vals) ps \<Longrightarrow> pe_step ops pe (Ran vals) (pe\<lparr>procs := ps\<rparr>)"

inductive pe_run :: "('c, 't, 'v) taskContainer \<Rightarrow> ('c, 'v) periodicalExecutor \<Rightarrow> ('t, 'v) label list
    \<Rightarrow> ('c, 'v) periodicalExecutor \<Rightarrow> bool" for ops where
  pe_nil: "pe_run ops pe [] pe"
| pe_snoc: "pe_run ops pe ls pe1 \<Longrightarrow> pe_step ops pe1 l pe2 \<Longrightarrow> pe_run ops pe (ls @ [l]) pe2"


lemma pe_run_trans: "pe_run ops pe1 ls' pe2 \<Longrightarrow> pe_run ops pe ls pe1 \<Longrightarrow> pe_run ops pe (ls @ ls') pe2"
proof (induction rule: pe_run.induct)
  case (pe_snoc pe1 ls' pe2 l pe3)
  then show ?case using pe_run.pe_snoc [of ops pe "ls @ ls'" pe2 l pe3] by simp
qed simp

section \<open>What every container promises\<close>

text \<open>The tasks of a goroutine, of a whole executor, and of the labels of a run.\<close>

fun batch :: "'v proc \<Rightarrow> 'v multiset" where
  "batch (add_send vals) = mset vals"
| "batch (bg_enter vals) = mset vals"
| "batch (bg_confirm vals) = mset vals"
| "batch (bg_execute vals) = mset vals"
| "batch (flush_execute k vals) = mset vals"
| "batch (running vals) = mset vals"
| "batch _ = {#}"

definition held :: "('c, 'v) periodicalExecutor \<Rightarrow> 'v multiset" where
  "held pe = mset (slice_of (commander pe)) + \<Sum>\<^sub># (image_mset batch (procs pe))"

fun added :: "('t, 'v) label list \<Rightarrow> 't list" where
  "added [] = []"
| "added (Added t # ls) = t # added ls"
| "added (_ # ls) = added ls"

fun ran :: "('t, 'v) label list \<Rightarrow> 'v multiset" where
  "ran [] = {#}"
| "ran (Ran vals # ls) = mset vals + ran ls"
| "ran (_ # ls) = ran ls"

text \<open>The labels of the calls that a caller makes, and runs in which no call is made.\<close>

fun is_call :: "('t, 'v) label \<Rightarrow> bool" where
  "is_call (Added _) \<longleftrightarrow> True"
| "is_call Flush_called \<longleftrightarrow> True"
| "is_call Wait_called \<longleftrightarrow> True"
| "is_call _ \<longleftrightarrow> False"

definition no_calls :: "('t, 'v) label list \<Rightarrow> bool" where
  "no_calls ls \<longleftrightarrow> \<not> list_ex is_call ls"

lemma no_calls_simps [simp]:
  "no_calls []" "no_calls (l # ls) \<longleftrightarrow> \<not> is_call l \<and> no_calls ls" "no_calls (ls @ ls') \<longleftrightarrow> no_calls ls \<and> no_calls ls'"
  by (simp_all add: no_calls_def)

lemma no_calls_added: "no_calls ls \<Longrightarrow> added ls = []"
  by (induction ls rule: added.induct) simp_all

lemma added_append [simp]: "added (ls @ ls') = added ls @ added ls'"
  by (induction ls rule: added.induct) simp_all

lemma ran_append [simp]: "ran (ls @ ls') = ran ls + ran ls'"
  by (induction ls rule: ran.induct) simp_all

text \<open>The goroutine that is the background flusher in its loop, and how the counters of the code count goroutines.\<close>

fun in_background :: "'v proc \<Rightarrow> bool" where
  "in_background bg_start \<longleftrightarrow> True"
| "in_background (bg_loop _) \<longleftrightarrow> True"
| "in_background (bg_enter _) \<longleftrightarrow> True"
| "in_background (bg_confirm _) \<longleftrightarrow> True"
| "in_background (bg_execute _) \<longleftrightarrow> True"
| "in_background bg_quit \<longleftrightarrow> True"
| "in_background (flush_enter k) \<longleftrightarrow> k = by_tick"
| "in_background (flush_remove k) \<longleftrightarrow> k = by_tick"
| "in_background (flush_execute k _) \<longleftrightarrow> k = by_tick"
| "in_background _ \<longleftrightarrow> False"

fun in_execution :: "'v proc \<Rightarrow> bool" where
  "in_execution (bg_confirm _) \<longleftrightarrow> True"
| "in_execution (bg_execute _) \<longleftrightarrow> True"
| "in_execution (flush_remove _) \<longleftrightarrow> True"
| "in_execution (flush_execute _ _) \<longleftrightarrow> True"
| "in_execution _ \<longleftrightarrow> False"

fun is_send :: "'v proc \<Rightarrow> bool" where
  "is_send (add_send _) \<longleftrightarrow> True"
| "is_send _ \<longleftrightarrow> False"

fun unconfirmed :: "'v proc \<Rightarrow> bool" where
  "unconfirmed (bg_enter _) \<longleftrightarrow> True"
| "unconfirmed (bg_confirm _) \<longleftrightarrow> True"
| "unconfirmed _ \<longleftrightarrow> False"

definition how_many :: "('p \<Rightarrow> bool) \<Rightarrow> 'p multiset \<Rightarrow> nat" where
  "how_many P M = size (filter_mset P M)"

lemma how_many_simps [simp]:
  "how_many P {#} = 0" "how_many P (add_mset p M) = (if P p then Suc (how_many P M) else how_many P M)"
  "how_many P (M + N) = how_many P M + how_many P N"
  by (simp_all add: how_many_def)

lemma how_many_pos: "p \<in># M \<Longrightarrow> P p \<Longrightarrow> 0 < how_many P M"
  by (auto dest!: multi_member_split)

lemma how_many_obtain:
  assumes "0 < how_many P M" obtains p ps where "M = add_mset p ps" "P p"
proof -
  have "filter_mset P M \<noteq> {#}" using assms by (metis how_many_def less_irrefl size_empty)
  then obtain p where "p \<in># filter_mset P M" by auto
  then show ?thesis using that by (auto dest!: multi_member_split)
qed

lemma Suc_of_bool [simp]: "Suc n = of_bool b \<longleftrightarrow> b \<and> n = 0" "of_bool b = Suc n \<longleftrightarrow> b \<and> n = 0"
  by (auto simp: of_bool_def)

lemma accounts_chain:
  fixes a :: "'a :: comm_monoid_add"
  assumes "a + x = r + y" "b + y = s + z"
  shows "(a + b) + x = (r + s) + z"
proof -
  have "(a + b) + x = b + (a + x)" by (simp add: ac_simps)
  also have "\<dots> = r + (b + y)" unfolding assms(1) by (simp add: ac_simps)
  also have "\<dots> = (r + s) + z" unfolding assms(2) by (simp add: ac_simps)
  finally show ?thesis .
qed

text \<open>What a goroutine and an executor still have to do; steps that are not \<open>Add\<close> can always lower it.\<close>

fun weight :: "'v proc \<Rightarrow> nat" where
  "weight (add_send _) = 7"
| "weight add_confirm = 0"
| "weight bg_start = 1"
| "weight (bg_loop c) = of_bool c"
| "weight (bg_enter _) = 5"
| "weight (bg_confirm _) = 4"
| "weight (bg_execute _) = 3"
| "weight bg_quit = 1"
| "weight (flush_enter _) = 7"
| "weight (flush_remove _) = 6"
| "weight (flush_execute _ _) = 5"
| "weight wait_lock = 2"
| "weight wait_group = 1"
| "weight (running _) = 1"

fun unblocked :: "'v proc \<Rightarrow> bool" where
  "unblocked (running _) \<longleftrightarrow> True"
| "unblocked (flush_execute _ _) \<longleftrightarrow> True"
| "unblocked (flush_remove _) \<longleftrightarrow> True"
| "unblocked (bg_execute _) \<longleftrightarrow> True"
| "unblocked bg_start \<longleftrightarrow> True"
| "unblocked bg_quit \<longleftrightarrow> True"
| "unblocked (bg_loop c) \<longleftrightarrow> c"
| "unblocked _ \<longleftrightarrow> False"

locale task_container =
  fixes ops :: "('c, 't, 'v) taskContainer" and pending :: "'c \<Rightarrow> 'v list" and val :: "'t \<Rightarrow> 'v"
  assumes pending_add: "pending (snd (AddTask ops c t)) = pending c @ [val t]"
    and remove_pending: "fst (RemoveAll ops c) = pending c"
    and pending_remove: "pending (snd (RemoveAll ops c)) = []"
begin

definition pe_inv :: "('c, 'v) periodicalExecutor \<Rightarrow> bool" where
  "pe_inv pe \<longleftrightarrow>
     0 < pe_interval pe
   \<and> how_many in_background (procs pe) = of_bool (guarded pe)
   \<and> inflight pe = int (how_many is_send (procs pe)) + of_bool (commander pe \<noteq> None)
   \<and> how_many (\<lambda>p. p = add_confirm) (procs pe) = how_many unconfirmed (procs pe) + of_bool (commander pe \<noteq> None)
   \<and> waitGroup pe = how_many in_execution (procs pe)
   \<and> how_many (\<lambda>p. p = wait_group) (procs pe) = of_bool (wgBarrier pe)
   \<and> (inflight pe \<noteq> 0 \<longrightarrow> guarded pe)
   \<and> (pending (container pe) \<noteq> [] \<longrightarrow> guarded pe \<or> flush_enter by_exit \<in># procs pe \<or> flush_remove by_exit \<in># procs pe)"

lemma PE_Add_effect:
  obtains (quiet) c where "PE_Add ops pe t = go_start (if guarded pe then [] else [bg_start]) (pe\<lparr>container := c, guarded := True\<rparr>)"
      "pending c = pending (container pe) @ [val t]"
  | (full) c where "PE_Add ops pe t = go_start [add_send (pending (container pe) @ [val t])]
        (go_start (if guarded pe then [] else [bg_start]) (pe\<lparr>container := c, inflight := inflight pe + 1, guarded := True\<rparr>))"
      "pending c = []"
proof (cases "fst (AddTask ops (container pe) t)")
  case True
  then show ?thesis
    using full [of "snd (RemoveAll ops (snd (AddTask ops (container pe) t)))"] pending_add [of "container pe" t]
    by (simp add: PE_Add_def addAndCheck_def split_beta Let_def remove_pending pending_remove)
next
  case False
  then show ?thesis
    using quiet [of "snd (AddTask ops (container pe) t)"] pending_add [of "container pe" t]
    by (simp add: PE_Add_def addAndCheck_def split_beta Let_def)
qed

lemma PE_Add_inv: "pe_inv pe \<Longrightarrow> pe_inv (PE_Add ops pe t)"
  by (rule PE_Add_effect [of pe t]) (auto simp: pe_inv_def go_start_def)

lemma executeTasks_effect:
  "snd (executeTasks vals pe) = pe\<lparr>procs := procs pe + (if vals = [] then {#} else {#running vals#}), waitGroup := waitGroup pe - 1\<rparr>"
  "fst (executeTasks vals pe) \<longleftrightarrow> vals \<noteq> []"
  by (cases pe; simp add: executeTasks_def hasTasks_def go_start_def Let_def)+

lemma pe_step_inv:
  assumes "pe_step ops pe l pe'" "pe_inv pe"
  shows "pe_inv pe'"
  using assms
proof cases
  case (add t)
  then show ?thesis using PE_Add_inv assms(2) by simp
next
  case (quit ps since_last)
  then show ?thesis using assms(2)
    by (auto simp: pe_inv_def shallQuit_def go_start_def of_bool_def split: if_splits)
next
  case (flush_remove k ps)
  then show ?thesis using assms(2)
    by (auto simp: pe_inv_def flush_RemoveAll_def go_start_def split_beta pending_remove)
next
  case (flush_execute k vals ps)
  then show ?thesis using assms(2)
    by (cases k) (auto simp: pe_inv_def go_start_def split_beta executeTasks_effect)
next
  case (command vals ps)
  then show ?thesis using assms(2)
    by (auto simp: pe_inv_def go_start_def executeTasks_effect)
qed (auto simp: pe_inv_def go_start_def)

lemma pe_run_inv: "pe_run ops pe ls pe' \<Longrightarrow> pe_inv pe \<Longrightarrow> pe_inv pe'"
  by (induction rule: pe_run.induct) (auto intro: pe_step_inv)

lemma pe_step_held:
  assumes "pe_step ops pe l pe'"
  shows "mset (map val (added [l])) + mset (pending (container pe)) + held pe
    = ran [l] + mset (pending (container pe')) + held pe'"
  using assms
proof cases
  case (add t)
  then show ?thesis
    by (auto simp: held_def go_start_def intro: PE_Add_effect [of pe t])
next
  case (flush_remove k ps)
  then show ?thesis
    by (simp add: held_def flush_RemoveAll_def go_start_def split_beta pending_remove remove_pending)
next
  case (flush_execute k vals ps)
  then show ?thesis
    by (cases k) (simp_all add: held_def go_start_def split_beta executeTasks_effect)
next
  case (quit ps since_last)
  then show ?thesis by (simp add: held_def shallQuit_def go_start_def)
qed (auto simp: held_def go_start_def executeTasks_effect)

lemma pe_run_held:
  "pe_run ops pe ls pe' \<Longrightarrow> mset (map val (added ls)) + mset (pending (container pe)) + held pe
    = ran ls + mset (pending (container pe')) + held pe'"
proof (induction rule: pe_run.induct)
  case (pe_snoc pe ls pe1 l pe2)
  show ?case using accounts_chain [OF pe_snoc.IH [unfolded add.assoc] pe_step_held [OF pe_snoc.hyps(2), unfolded add.assoc]]
    by (simp add: ac_simps)
qed simp

definition load :: "('c, 'v) periodicalExecutor \<Rightarrow> nat" where
  "load pe = \<Sum>\<^sub># (image_mset weight (procs pe)) + 6 * of_bool (commander pe \<noteq> None) + 7 * of_bool (pending (container pe) \<noteq> [])"

definition lighter :: "('c, 'v) periodicalExecutor \<Rightarrow> bool" where
  "lighter pe \<longleftrightarrow> (\<exists>ls pe'. pe_run ops pe ls pe' \<and> no_calls ls \<and> load pe' < load pe)"

lemma lighterI: "pe_step ops pe l pe' \<Longrightarrow> \<not> is_call l \<Longrightarrow> load pe' < load pe \<Longrightarrow> lighter pe"
  using pe_snoc [OF pe_nil] unfolding lighter_def by fastforce

lemma unblocked_lighter:
  assumes inv: "pe_inv pe" and "p \<in># procs pe" "unblocked p"
  shows "lighter pe"
proof -
  obtain ps where ps: "procs pe = add_mset p ps" using assms(2) by (auto dest!: multi_member_split)
  show ?thesis
  proof (cases p)
    case (bg_loop c)
    then show ?thesis using assms(3) ps lighterI [OF pe_step.tick_commanded, of pe ps] by (simp add: load_def)
  next
    case (bg_execute vals)
    then show ?thesis using ps lighterI [OF pe_step.command, of pe vals ps]
      by (simp add: load_def go_start_def executeTasks_effect)
  next
    case bg_start
    then show ?thesis using inv ps lighterI [OF pe_step.start, of pe ps] by (simp add: load_def pe_inv_def)
  next
    case bg_quit
    then show ?thesis
      using ps lighterI [OF pe_step.quit [where since_last = "int64 (pe_interval pe * idleRound)"], of pe ps]
      by (simp add: load_def go_start_def shallQuit_def)
  next
    case (flush_remove k)
    then show ?thesis using ps lighterI [OF pe_step.flush_remove, of pe k ps]
      by (simp add: load_def go_start_def flush_RemoveAll_def split_beta pending_remove)
  next
    case (flush_execute k vals)
    then show ?thesis using ps lighterI [OF pe_step.flush_execute, of pe k vals ps]
      by (cases k) (simp_all add: load_def go_start_def split_beta executeTasks_effect)
  next
    case (running vals)
    then show ?thesis using ps lighterI [OF pe_step.run, of pe vals ps] by (simp add: load_def)
  qed (use assms(3) in simp_all)
qed

lemma confirm_lighter:
  assumes inv: "pe_inv pe" and p: "bg_confirm vals \<in># procs pe"
  shows "lighter pe"
proof -
  obtain ps where ps: "procs pe = add_mset (bg_confirm vals) ps" using p by (auto dest!: multi_member_split)
  have "0 < how_many (\<lambda>p. p = add_confirm) (procs pe)" using inv ps by (simp add: pe_inv_def)
  then have "add_confirm \<in># ps" using ps by (auto elim: how_many_obtain)
  then obtain qs where "ps = add_mset add_confirm qs" by (auto dest!: multi_member_split)
  then show ?thesis using ps lighterI [OF pe_step.confirm, of pe vals qs] by (simp add: load_def)
qed

lemma barrier_free:
  assumes inv: "pe_inv pe" and stuck: "\<not> lighter pe"
  shows "\<not> wgBarrier pe"
proof
  assume "wgBarrier pe"
  then have "0 < how_many (\<lambda>p. p = wait_group) (procs pe)" using inv by (simp add: pe_inv_def)
  then obtain ps where ps: "procs pe = add_mset wait_group ps" by (auto elim: how_many_obtain)
  have "waitGroup pe = 0"
  proof (rule ccontr)
    assume "waitGroup pe \<noteq> 0"
    then have "0 < how_many in_execution (procs pe)" using inv by (simp add: pe_inv_def)
    then obtain p qs where p: "procs pe = add_mset p qs" "in_execution p" by (auto elim: how_many_obtain)
    then have "p \<in># procs pe" by simp
    then show False using stuck p(2) inv by (cases p) (auto dest: unblocked_lighter [OF inv] confirm_lighter)
  qed
  then show False using stuck lighterI [OF pe_step.wait_done [OF ps]] ps by (simp add: load_def)
qed

lemma enter_lighter:
  assumes inv: "pe_inv pe" and p: "p \<in># procs pe" "p = wait_lock \<or> p = bg_enter vals \<or> p = flush_enter k"
  shows "lighter pe"
proof (rule ccontr)
  assume stuck: "\<not> lighter pe"
  note free = barrier_free [OF inv stuck]
  obtain ps where ps: "procs pe = add_mset p ps" using p(1) by (auto dest!: multi_member_split)
  show False
    using p(2) ps free stuck lighterI [OF pe_step.wait_lock, of pe ps] lighterI [OF pe_step.enter, of pe vals ps]
      lighterI [OF pe_step.flush_enter, of pe k ps]
    by (auto simp: load_def)
qed

lemma stuck_background:
  assumes inv: "pe_inv pe" and stuck: "\<not> lighter pe" and g: "guarded pe"
  obtains ps where "procs pe = add_mset (bg_loop False) ps"
proof -
  have "0 < how_many in_background (procs pe)" using inv g by (simp add: pe_inv_def)
  then obtain p ps where p: "procs pe = add_mset p ps" "in_background p" by (auto elim: how_many_obtain)
  then have m: "p \<in># procs pe" by simp
  have "p = bg_loop False"
    using p(2) m stuck unblocked_lighter [OF inv m] confirm_lighter [OF inv] enter_lighter [OF inv m]
    by (cases p) auto
  then show ?thesis using p(1) that by simp
qed

lemma command_lighter:
  assumes inv: "pe_inv pe" and cmd: "commander pe = Some vals"
  shows "lighter pe"
proof (rule ccontr)
  assume stuck: "\<not> lighter pe"
  have "guarded pe" using inv cmd by (auto simp: pe_inv_def)
  then obtain ps where ps: "procs pe = add_mset (bg_loop False) ps" using stuck_background [OF inv stuck] by blast
  show False using stuck lighterI [OF pe_step.receive [OF ps cmd]] ps cmd by (simp add: load_def)
qed

lemma pending_lighter:
  assumes inv: "pe_inv pe" and pend: "pending (container pe) \<noteq> []"
  shows "lighter pe"
proof (rule ccontr)
  assume stuck: "\<not> lighter pe"
  have "guarded pe"
    using inv pend stuck enter_lighter [OF inv] unblocked_lighter [OF inv] by (fastforce simp: pe_inv_def)
  then obtain ps where ps: "procs pe = add_mset (bg_loop False) ps" using stuck_background [OF inv stuck] by blast
  note free = barrier_free [OF inv stuck]
  let ?pe1 = "pe\<lparr>procs := add_mset (flush_enter by_tick) ps\<rparr>"
  let ?pe2 = "?pe1\<lparr>waitGroup := waitGroup ?pe1 + 1, procs := add_mset (flush_remove by_tick) ps\<rparr>"
  have 1: "pe_run ops pe ([] @ [Internal]) ?pe1" by (rule pe_snoc [OF pe_nil pe_step.tick_flush [OF ps]])
  have 2: "pe_run ops pe (([] @ [Internal]) @ [Internal]) ?pe2"
    by (rule pe_snoc [OF 1]) (rule pe_step.flush_enter, use free in simp_all)
  have "procs ?pe2 = add_mset (flush_remove by_tick) ps" by simp
  note 3 = pe_snoc [OF 2 pe_step.flush_remove [OF this]]
  have "lighter pe" unfolding lighter_def
    by (rule exI, rule exI, intro conjI, rule 3)
      (use ps pend in \<open>simp_all add: load_def go_start_def flush_RemoveAll_def split_beta pending_remove\<close>)
  then show False using stuck by simp
qed

lemma stuck_quiet:
  assumes inv: "pe_inv pe" and stuck: "\<not> lighter pe"
  shows "commander pe = None \<and> pending (container pe) = [] \<and> set_mset (procs pe) \<subseteq> {bg_loop False}"
proof -
  have cmd: "commander pe = None" using command_lighter [OF inv] stuck by (cases "commander pe") auto
  have "p = bg_loop False" if p: "p \<in># procs pe" for p
  proof -
    obtain ps where ps: "procs pe = add_mset p ps" using p by (auto dest!: multi_member_split)
    have "\<not> 0 < how_many unconfirmed (procs pe)"
    proof
      assume "0 < how_many unconfirmed (procs pe)"
      then obtain q qs where q: "procs pe = add_mset q qs" "unconfirmed q" by (auto elim: how_many_obtain)
      then have "q \<in># procs pe" by simp
      then show False using q(2) stuck by (cases q) (auto dest: enter_lighter [OF inv] confirm_lighter [OF inv])
    qed
    then have "p \<noteq> add_confirm" using inv cmd ps by (auto simp: pe_inv_def)
    moreover have "p \<noteq> wait_group" using barrier_free [OF inv stuck] inv ps by (auto simp: pe_inv_def)
    moreover have "p \<noteq> add_send vals" for vals
      using stuck lighterI [OF pe_step.send, of pe vals ps] ps cmd by (auto simp: load_def)
    ultimately show ?thesis
      using p stuck unblocked_lighter [OF inv p] confirm_lighter [OF inv] enter_lighter [OF inv p]
      by (cases p) auto
  qed
  then show ?thesis using cmd pending_lighter [OF inv] stuck by auto
qed

lemma drains:
  "pe_inv pe \<Longrightarrow> \<exists>ls pe'. pe_run ops pe ls pe' \<and> no_calls ls
    \<and> commander pe' = None \<and> pending (container pe') = [] \<and> set_mset (procs pe') \<subseteq> {bg_loop False}"
proof (induction "load pe" arbitrary: pe rule: less_induct)
  case less
  show ?case
  proof (cases "lighter pe")
    case True
    then obtain ls pe1 where r: "pe_run ops pe ls pe1" "no_calls ls" "load pe1 < load pe"
      by (auto simp: lighter_def)
    obtain ls' pe' where r': "pe_run ops pe1 ls' pe'" "no_calls ls'" "commander pe' = None"
      "pending (container pe') = []" "set_mset (procs pe') \<subseteq> {bg_loop False}"
      using less.hyps [OF r(3) pe_run_inv [OF r(1) less.prems]] by blast
    show ?thesis using pe_run_trans [OF r'(1) r(1)] r(2) r'(2-5)
      by (intro exI [of _ "ls @ ls'"] exI [of _ pe']) simp
  next
    case False
    then show ?thesis using stuck_quiet [OF less.prems] pe_nil [of ops pe] by (intro exI [of _ "[]"] exI [of _ pe]) auto
  qed
qed

lemma drained_held:
  assumes "commander pe = None" "set_mset (procs pe) \<subseteq> {bg_loop False}"
  shows "held pe = {#}"
  using assms by (auto simp: held_def dest!: subsetD)

theorem runs_every_task:
  assumes new: "pending c = []" and interval: "0 < interval" and run: "pe_run ops (NewPeriodicalExecutor interval c) ls pe"
  shows "ran ls \<subseteq># mset (map val (added ls))
    \<and> (\<exists>ls' pe'. pe_run ops pe ls' pe' \<and> no_calls ls' \<and> ran ls + ran ls' = mset (map val (added ls))
        \<and> set_mset (procs pe') \<subseteq> {bg_loop False})"
proof -
  have inv0: "pe_inv (NewPeriodicalExecutor interval c)" using new interval by (simp add: pe_inv_def NewPeriodicalExecutor_def)
  have acc: "mset (map val (added ls)) = ran ls + mset (pending (container pe)) + held pe"
    using pe_run_held [OF run] new by (simp add: NewPeriodicalExecutor_def held_def)
  obtain ls' pe' where d: "pe_run ops pe ls' pe'" "no_calls ls'" "commander pe' = None"
    "pending (container pe') = []" "set_mset (procs pe') \<subseteq> {bg_loop False}"
    using drains [OF pe_run_inv [OF run inv0]] by blast
  have "mset (pending (container pe)) + held pe = ran ls'"
    using pe_run_held [OF d(1)] d drained_held no_calls_added [OF d(2)] by simp
  then show ?thesis using acc d by (metis add.assoc mset_subset_eq_add_left)
qed

end

text \<open>Both containers keep the contract.\<close>

interpretation bulk: task_container bulk_container bulk_tasks "\<lambda>t. t"
  by unfold_locales (simp_all add: bulk_container_def bulk_AddTask_def bulk_RemoveAll_def)

interpretation chunk: task_container chunk_container chunk_tasks chunk_val
  by unfold_locales (simp_all add: chunk_container_def chunk_AddTask_def chunk_RemoveAll_def Let_def)

text \<open>
  C31. With a positive flush interval (the default is a second), in every interleaving of any number of callers, a bulk
  executor gives no task to the user's function twice and none that was not added, and no task is ever stranded: from
  every state it can reach, the goroutines that exist can go on, without another call of \<open>Add\<close>, \<open>Flush\<close> or
  \<open>Wait\<close>, until every task added so far has run exactly once and no caller is blocked.
\<close>

theorem bulk_runs_every_task:
  assumes "0 < bulkInterval (fold apply_bulkOption opts newBulkOptions)"
    and "pe_run bulk_container (NewBulkExecutor opts) ls pe"
  shows "ran ls \<subseteq># mset (added ls)
    \<and> (\<exists>ls' pe'. pe_run bulk_container pe ls' pe' \<and> no_calls ls' \<and> ran ls + ran ls' = mset (added ls)
        \<and> set_mset (procs pe') \<subseteq> {bg_loop False})"
  using bulk.runs_every_task
    [of "\<lparr>bulk_tasks = [], maxTasks = cachedTasks (fold apply_bulkOption opts newBulkOptions)\<rparr>", OF _ assms(1)] assms(2)
  by (simp add: NewBulkExecutor_def Let_def)

text \<open>The same for chunks, whose tasks come with their size.\<close>

lemma chunk_runs_every_task:
  assumes "0 < chunkInterval (fold apply_chunkOption opts newChunkOptions)"
    and "pe_run chunk_container (NewChunkExecutor opts) ls pe"
  shows "ran ls \<subseteq># mset (map chunk_val (added ls))
    \<and> (\<exists>ls' pe'. pe_run chunk_container pe ls' pe' \<and> no_calls ls' \<and> ran ls + ran ls' = mset (map chunk_val (added ls))
        \<and> set_mset (procs pe') \<subseteq> {bg_loop False})"
  using chunk.runs_every_task
    [of "\<lparr>chunk_tasks = [], total_size = 0, maxChunkSize = chunkSize (fold apply_chunkOption opts newChunkOptions)\<rparr>",
      OF _ assms(1)] assms(2)
  by (simp add: NewChunkExecutor_def Let_def)

theorem bulk_runs_every_task_witness:
  "\<exists>ls' pe'. pe_run bulk_container (PE_Add bulk_container (NewBulkExecutor []) (7 :: nat)) ls' pe' \<and> no_calls ls'
     \<and> ran ls' = {#7#} \<and> set_mset (procs pe') \<subseteq> {bg_loop False}"
proof -
  have "pe_run bulk_container (NewBulkExecutor []) ([] @ [Added 7]) (PE_Add bulk_container (NewBulkExecutor []) (7 :: nat))"
    by (rule pe_snoc [OF pe_nil pe_step.add])
  from bulk_runs_every_task [OF _ this] show ?thesis by (simp add: newBulkOptions_def defaultFlushInterval_def Second_def)
qed

text \<open>
  Without a positive interval the background flusher panics on its way to its loop and is never started again:
  a caller whose task fills the container sends to nobody and stays blocked for good, whatever else is called.
\<close>

fun ticking :: "'v proc \<Rightarrow> bool" where
  "ticking bg_start \<longleftrightarrow> False"
| "ticking (flush_enter k) \<longleftrightarrow> k = by_tick"
| "ticking (flush_remove k) \<longleftrightarrow> k = by_tick"
| "ticking (flush_execute k _) \<longleftrightarrow> k = by_tick"
| "ticking p \<longleftrightarrow> in_background p"

definition no_ticker :: "('c, 'v) periodicalExecutor \<Rightarrow> bool" where
  "no_ticker pe \<longleftrightarrow> pe_interval pe \<le> 0 \<and> (\<forall>p \<in># procs pe. \<not> ticking p)"

fun blocked_add :: "'v proc \<Rightarrow> bool" where
  "blocked_add (add_send _) \<longleftrightarrow> True"
| "blocked_add add_confirm \<longleftrightarrow> True"
| "blocked_add _ \<longleftrightarrow> False"

lemma no_ticker_step:
  assumes "pe_step ops pe l pe'" "no_ticker pe"
  shows "no_ticker pe' \<and> how_many blocked_add (procs pe) \<le> how_many blocked_add (procs pe')"
  using assms
proof cases
  case (add t)
  then show ?thesis using assms(2)
    by (auto simp: no_ticker_def PE_Add_def addAndCheck_def go_start_def split_beta Let_def)
next
  case (flush_execute k vals ps)
  then show ?thesis using assms(2)
    by (cases k) (auto simp: no_ticker_def executeTasks_def go_start_def split_beta Let_def)
qed (use assms(2) in \<open>auto simp: no_ticker_def flush_RemoveAll_def go_start_def split_beta\<close>)

lemma no_ticker_blocks_Add:
  assumes "pe_run ops pe ls pe'" "no_ticker pe"
  shows "how_many blocked_add (procs pe) \<le> how_many blocked_add (procs pe')"
proof -
  have "no_ticker pe' \<and> how_many blocked_add (procs pe) \<le> how_many blocked_add (procs pe')"
    using assms by (induction rule: pe_run.induct) (auto dest: no_ticker_step)
  then show ?thesis ..
qed

lemma zero_interval_blocks:
  assumes "pe_run bulk_container (PE_Add bulk_container (NewBulkExecutor [WithBulkTasks 1, WithBulkInterval 0]) t) ls pe"
  shows "0 < how_many blocked_add (procs pe)"
  using no_ticker_blocks_Add [OF assms]
  by (simp add: no_ticker_def PE_Add_def addAndCheck_def bulk_container_def bulk_AddTask_def bulk_RemoveAll_def
      NewBulkExecutor_def NewPeriodicalExecutor_def go_start_def newBulkOptions_def)

text \<open>
  C32. \<open>Wait\<close>, which is to wait for all executions, can return although a task added before it has not been given
  to the user's function: \<open>executeTasks\<close> counts the execution as done when it has started the goroutine for it.
\<close>

theorem Wait_returns_early:
  "\<exists>ls pe. pe_run bulk_container (NewBulkExecutor []) (Added t # ls @ [Waited]) pe
     \<and> added ls = [] \<and> ran ls = {#} \<and> running [t] \<in># procs pe"
proof -
  define c where "c tasks = \<lparr>bulk_tasks = tasks, maxTasks = defaultBulkTasks\<rparr>" for tasks :: "'a list"
  define st where "st tasks wg bar ps = \<lparr>commander = None, pe_interval = Second, container = c tasks, waitGroup = wg,
    wgBarrier = bar, inflight = 0, guarded = True, procs = ps\<rparr>" for tasks wg bar and ps :: "'a proc multiset"
  note defs = st_def c_def go_start_def executeTasks_def hasTasks_def flush_RemoveAll_def bulk_container_def
    bulk_AddTask_def bulk_RemoveAll_def defaultBulkTasks_def
  let ?new = "NewBulkExecutor [] :: ('a bulkContainer, 'a) periodicalExecutor"
  have "PE_Add bulk_container ?new t = st [t] 0 False {#bg_start#}"
    by (simp add: defs PE_Add_def addAndCheck_def NewBulkExecutor_def NewPeriodicalExecutor_def newBulkOptions_def
        defaultFlushInterval_def)
  then have "pe_run bulk_container ?new ([] @ [Added t]) (st [t] 0 False {#bg_start#})"
    using pe_snoc [OF pe_nil pe_step.add, of bulk_container ?new t] by simp
  moreover have "pe_step bulk_container (st [t] 0 False {#bg_start#}) Internal (st [t] 0 False {#bg_loop False#})"
    using pe_step.start [of "st [t] 0 False {#bg_start#}" "{#}" bulk_container] by (simp add: defs Second_def)
  moreover have "pe_step bulk_container (st [t] 0 False {#bg_loop False#}) Wait_called
      (st [t] 0 False {#flush_enter by_wait, bg_loop False#})"
    using pe_step.wait [of bulk_container "st [t] 0 False {#bg_loop False#}"] by (simp add: defs)
  moreover have "pe_step bulk_container (st [t] 0 False {#flush_enter by_wait, bg_loop False#}) Internal
      (st [t] 1 False {#flush_remove by_wait, bg_loop False#})"
    using pe_step.flush_enter [of "st [t] 0 False {#flush_enter by_wait, bg_loop False#}" by_wait "{#bg_loop False#}" bulk_container]
    by (simp add: defs)
  moreover have "pe_step bulk_container (st [t] 1 False {#flush_remove by_wait, bg_loop False#}) Internal
      (st [] 1 False {#flush_execute by_wait [t], bg_loop False#})"
    using pe_step.flush_remove [of "st [t] 1 False {#flush_remove by_wait, bg_loop False#}" by_wait "{#bg_loop False#}" bulk_container]
    by (simp add: defs)
  moreover have "pe_step bulk_container (st [] 1 False {#flush_execute by_wait [t], bg_loop False#}) Internal
      (st [] 0 False {#wait_lock, running [t], bg_loop False#})"
    using pe_step.flush_execute [of "st [] 1 False {#flush_execute by_wait [t], bg_loop False#}" by_wait "[t]" "{#bg_loop False#}"
        bulk_container]
    by (simp add: defs)
  moreover have "pe_step bulk_container (st [] 0 False {#wait_lock, running [t], bg_loop False#}) Internal
      (st [] 0 True {#wait_group, running [t], bg_loop False#})"
    using pe_step.wait_lock [of "st [] 0 False {#wait_lock, running [t], bg_loop False#}" "{#running [t], bg_loop False#}" bulk_container]
    by (simp add: defs)
  moreover have "pe_step bulk_container (st [] 0 True {#wait_group, running [t], bg_loop False#}) Waited
      (st [] 0 False {#running [t], bg_loop False#})"
    using pe_step.wait_done [of "st [] 0 True {#wait_group, running [t], bg_loop False#}" "{#running [t], bg_loop False#}" bulk_container]
    by (simp add: defs)
  ultimately have "pe_run bulk_container ?new (((((((([] @ [Added t]) @ [Internal]) @ [Wait_called]) @ [Internal]) @ [Internal]) @ [Internal]) @ [Internal]) @ [Waited])
      (st [] 0 False {#running [t], bg_loop False#})"
    by (blast intro: pe_snoc)
  then have "pe_run bulk_container ?new (Added t # ([Internal, Wait_called] @ replicate 4 Internal) @ [Waited]) (st [] 0 False {#running [t], bg_loop False#})"
    by (simp add: numeral_eq_Suc)
  then show ?thesis
    by (intro exI [of _ "[Internal, Wait_called] @ replicate 4 Internal"] exI [of _ "st [] 0 False {#running [t], bg_loop False#}"] conjI)
      (simp_all add: numeral_eq_Suc st_def)
qed

section \<open>The delay executor\<close>

text \<open>
  \<open>Trigger\<close> and its goroutine: waiting for the timer, or past it and before \<open>fn\<close>. Labels count the triggers and
  the runs of \<open>fn\<close>.
\<close>

record delayExecutor =
  triggered :: bool
  timers :: nat       \<comment> \<open>goroutines at \<open><-timer.C\<close>\<close>
  starting :: nat     \<comment> \<open>goroutines before \<open>de.fn()\<close>\<close>

definition NewDelayExecutor :: delayExecutor where
  "NewDelayExecutor = \<lparr>triggered = False, timers = 0, starting = 0\<rparr>"

definition Trigger :: "delayExecutor \<Rightarrow> delayExecutor" where
  "Trigger de = (if triggered de then de else de\<lparr>triggered := True, timers := timers de + 1\<rparr>)"

datatype delay_label = Triggered | Clear | Call_fn

inductive delay_run :: "delay_label list \<Rightarrow> delayExecutor \<Rightarrow> bool" where
  delay_new: "delay_run [] NewDelayExecutor"
| delay_trigger: "delay_run ls de \<Longrightarrow> delay_run (ls @ [Triggered]) (Trigger de)"
| delay_timer: "delay_run ls de \<Longrightarrow> timers de = Suc n
    \<Longrightarrow> delay_run (ls @ [Clear]) (de\<lparr>triggered := False, timers := n, starting := starting de + 1\<rparr>)"
| delay_fn: "delay_run ls de \<Longrightarrow> starting de = Suc n \<Longrightarrow> delay_run (ls @ [Call_fn]) (de\<lparr>starting := n\<rparr>)"

text \<open>
  A trigger is coalesced only with a goroutine whose timer is still running, so a run of \<open>fn\<close> that starts later
  follows every trigger: when no goroutine is left, the last run of \<open>fn\<close> came after the last trigger.
\<close>

definition owed :: "delay_label list \<Rightarrow> bool" where
  "owed ls \<longleftrightarrow> Triggered \<in> set ls \<and> Call_fn \<notin> set (takeWhile (\<lambda>l. l \<noteq> Triggered) (rev ls))"

lemma delay_run_inv: "delay_run ls de \<Longrightarrow> timers de = of_bool (triggered de) \<and> (owed ls \<longrightarrow> 0 < timers de + starting de)"
  by (induction rule: delay_run.induct) (auto simp: NewDelayExecutor_def Trigger_def owed_def)

lemma delay_no_missed_trigger:
  "delay_run ls de \<Longrightarrow> timers de = 0 \<Longrightarrow> starting de = 0 \<Longrightarrow> \<not> owed ls"
  using delay_run_inv by fastforce

section \<open>The rate-limited executor\<close>

text \<open>
  \<open>DoOrDiscard\<close>: a caller has read the clock; it loads \<open>lastTime\<close>, discards, or tries to swap. Callers are
  \<open>(now, loaded)\<close>, \<open>runs\<close> are the times at which \<open>fn\<close> was run, latest first.
\<close>

record lessExecutor =
  threshold :: duration
  lastTime :: int
  callers :: "(time \<times> int option) multiset"
  runs :: "time list"

definition NewLessExecutor :: "duration \<Rightarrow> lessExecutor" where
  "NewLessExecutor d = \<lparr>threshold = d, lastTime = 0, callers = {#}, runs = []\<rparr>"

definition discard :: "lessExecutor \<Rightarrow> time \<Rightarrow> int \<Rightarrow> bool" where
  "discard le now seen \<longleftrightarrow> seen \<noteq> 0 \<and> int64 (seen + threshold le) \<ge> now"

inductive less_step :: "lessExecutor \<Rightarrow> lessExecutor \<Rightarrow> bool" where
  less_call: "0 < now \<Longrightarrow> less_step le (le\<lparr>callers := add_mset (now, None) (callers le)\<rparr>)"
| less_load: "callers le = add_mset (now, None) cs
    \<Longrightarrow> less_step le (le\<lparr>callers := (if discard le now (lastTime le) then cs else add_mset (now, Some (lastTime le)) cs)\<rparr>)"
| less_swap: "callers le = add_mset (now, Some seen) cs
    \<Longrightarrow> less_step le (if lastTime le = seen then le\<lparr>lastTime := now, callers := cs, runs := now # runs le\<rparr>
          else le\<lparr>callers := add_mset (now, None) cs\<rparr>)"

text \<open>Every run is more than the threshold after the run before it, in every interleaving of the callers.\<close>

lemma less_run_inv:
  "less_step\<^sup>*\<^sup>* (NewLessExecutor d) le \<Longrightarrow> threshold le = d
    \<and> lastTime le = (if runs le = [] then 0 else hd (runs le)) \<and> (\<forall>t \<in> set (runs le). 0 < t)
    \<and> (\<forall>(now, s) \<in># callers le. 0 < now \<and> (\<forall>seen. s = Some seen \<longrightarrow> \<not> discard le now seen))
    \<and> (\<forall>i. Suc i < length (runs le) \<longrightarrow> int64 (runs le ! Suc i + d) < runs le ! i)"
proof (induction rule: rtranclp_induct)
  case base
  then show ?case by (simp add: NewLessExecutor_def)
next
  case (step le le')
  from step.hyps(2) show ?case
  proof cases
    case (less_swap now seen cs)
    then show ?thesis using step.IH
      by (cases "runs le") (auto simp: discard_def nth_Cons split: nat.split if_splits)
  qed (use step.IH in \<open>auto simp: discard_def split: if_splits\<close>)
qed

end
