(* ===== verification/Config.thy ===== *)
theory Config
  imports Errno GoStrings "HOL-Library.AList"
begin

text \<open>
  \<open>pkg/config\<close>: the reader with its deep merge and dot paths, the typed values, loading and watching of sources,
  and the polling file source. A decoded document is a \<open>cvalue\<close>; a Go map is a list of pairs with distinct keys
  in the order in which a loop over it happens to visit it. The decoders of JSON, YAML and TOML are a parameter.
\<close>

section \<open>Decoded values\<close>

datatype intKind = Kint | Kint8 | Kint16 | Kint32 | Kint64 | Kuint | Kuint8 | Kuint16 | Kuint32 | Kuint64

text \<open>
  What JSON decoding and the code itself produce; the maps with keys of any type and the times that other decoders can
  yield are not values here.
\<close>

datatype cvalue =
    CNil
  | CBool bool
  | CInt intKind int
  | CFloat32 float64
  | CFloat64 float64
  | CStr string
  | CBytes string
  | CDuration duration
  | CSeq "cvalue list"
  | CMap "(string \<times> cvalue) list"

type_synonym cmap = "(string \<times> cvalue) list"

record keyValue =
  kvKey :: string
  kvValue :: string
  kvFormat :: string

section \<open>The reader\<close>

fun mergeMap :: "cmap \<Rightarrow> cmap \<Rightarrow> cmap" where
  "mergeMap dst [] = dst"
| "mergeMap dst ((k, sv) # src) =
     mergeMap
       (case map_of dst k of
          None \<Rightarrow> dst @ [(k, sv)]
        | Some dv \<Rightarrow>
            (case sv of
               CMap srcMap \<Rightarrow>
                 (case dv of CMap dstMap \<Rightarrow> AList.update k (CMap (mergeMap dstMap srcMap)) dst
                  | _ \<Rightarrow> AList.update k sv dst)
             | _ \<Rightarrow> AList.update k sv dst)) src"

text \<open>\<open>decode\<close> chooses the decoder by format; the decoders themselves are \<open>yaml\<close>, \<open>toml\<close> and \<open>json\<close>.\<close>

record decoders =
  yaml :: "string \<Rightarrow> err + cmap"
  toml :: "string \<Rightarrow> err + cmap"
  json :: "string \<Rightarrow> err + cmap"

definition decode :: "decoders \<Rightarrow> string \<Rightarrow> string \<Rightarrow> err + cmap" where
  "decode ds data format =
     (if format = ''yaml'' \<or> format = ''yml'' then yaml ds data
      else if format = ''toml'' then toml ds data
      else json ds data)"

datatype config_error = SourceError err | DecodeError string err

fun Merge :: "decoders \<Rightarrow> cmap \<Rightarrow> keyValue list \<Rightarrow> config_error option \<times> cmap" where
  "Merge ds values [] = (None, values)"
| "Merge ds values (kv # kvs) =
     (case decode ds (kvValue kv) (kvFormat kv) of
        Inl e \<Rightarrow> (Some (DecodeError (kvKey kv) e), values)
      | Inr data \<Rightarrow> Merge ds (mergeMap values data) kvs)"

fun lookup_loop :: "cvalue \<Rightarrow> string list \<Rightarrow> cvalue" where
  "lookup_loop cur [] = cur"
| "lookup_loop cur (part # parts) =
     (case cur of
        CMap mm \<Rightarrow> (case map_of mm part of None \<Rightarrow> CNil | Some v \<Rightarrow> lookup_loop v parts)
      | _ \<Rightarrow> CNil)"

definition lookup :: "cmap \<Rightarrow> string \<Rightarrow> cvalue" where
  "lookup m path = (if path = [] then CMap m else lookup_loop (CMap m) (Split path (CHR ''.'')))"

fun deepCopyValue :: "cvalue \<Rightarrow> cvalue" where
  "deepCopyValue (CMap t) = CMap (map (\<lambda>(k, vv). (k, deepCopyValue vv)) t)"
| "deepCopyValue (CSeq t) = CSeq (map deepCopyValue t)"
| "deepCopyValue v = v"

definition reader_Value :: "cmap \<Rightarrow> string \<Rightarrow> cvalue" where
  "reader_Value values path = deepCopyValue (lookup values path)"

section \<open>Typed values\<close>

text \<open>\<open>ParseInt\<close> in base 10 with its error ignored: 0 for a syntax error, the nearest limit for a range error.\<close>

definition ParseInt_value :: "string \<Rightarrow> int" where
  "ParseInt_value s =
     (let neg = (s \<noteq> [] \<and> hd s = CHR ''-'');
          ds = (if s \<noteq> [] \<and> (hd s = CHR ''-'' \<or> hd s = CHR ''+'') then tl s else s);
          n = digits_value ds; v = (if neg then - n else n)
      in if ds = [] \<or> \<not> list_all is_digit ds then 0 else max (- (2 ^ 63)) (min (2 ^ 63 - 1) v))"

definition ParseBool_value :: "string \<Rightarrow> bool" where
  "ParseBool_value s \<longleftrightarrow> s \<in> {''1'', ''t'', ''T'', ''TRUE'', ''true'', ''True''}"

definition value_String :: "(cvalue \<Rightarrow> string) \<Rightarrow> cvalue \<Rightarrow> string" where
  "value_String sprintf v = (case v of CStr t \<Rightarrow> t | CBytes t \<Rightarrow> t | CNil \<Rightarrow> [] | _ \<Rightarrow> sprintf v)"

definition value_Int :: "cvalue \<Rightarrow> int" where
  "value_Int v =
     (case v of
        CInt k t \<Rightarrow> int64 t
      | CFloat32 t \<Rightarrow> int64 (float_to_int t)
      | CFloat64 t \<Rightarrow> int64 (float_to_int t)
      | CBool t \<Rightarrow> (if t then 1 else 0)
      | CStr t \<Rightarrow> ParseInt_value t
      | _ \<Rightarrow> 0)"

definition value_Int64 :: "cvalue \<Rightarrow> int" where
  "value_Int64 v =
     (case v of
        CInt k t \<Rightarrow> int64 t
      | CFloat32 t \<Rightarrow> int64 (float_to_int t)
      | CFloat64 t \<Rightarrow> int64 (float_to_int t)
      | CStr t \<Rightarrow> ParseInt_value t
      | _ \<Rightarrow> 0)"

definition value_Float64 :: "(string \<Rightarrow> float64) \<Rightarrow> cvalue \<Rightarrow> float64" where
  "value_Float64 parseFloat v =
     (case v of CFloat64 t \<Rightarrow> t | CFloat32 t \<Rightarrow> t | CInt k t \<Rightarrow> of_int t | CStr t \<Rightarrow> parseFloat t | _ \<Rightarrow> 0)"

definition value_Bool :: "cvalue \<Rightarrow> bool" where
  "value_Bool v =
     (case v of
        CBool t \<Rightarrow> t
      | CStr t \<Rightarrow> ParseBool_value t
      | CInt k t \<Rightarrow> k = Kint \<and> t \<noteq> 0
      | _ \<Rightarrow> False)"

definition value_Duration :: "(string \<Rightarrow> duration option) \<Rightarrow> cvalue \<Rightarrow> duration" where
  "value_Duration parseDuration v =
     (case v of
        CDuration t \<Rightarrow> t
      | CStr s \<Rightarrow> (case parseDuration s of Some d \<Rightarrow> d | None \<Rightarrow> value_Int64 v)
      | _ \<Rightarrow> value_Int64 v)"

section \<open>Loading and watching\<close>

text \<open>A source is what its \<open>Load\<close> returns now.\<close>

fun load_sources :: "(err + keyValue list) list \<Rightarrow> err + keyValue list" where
  "load_sources [] = Inr []"
| "load_sources (s # ss) =
     (case s of Inl e \<Rightarrow> Inl e
      | Inr sks \<Rightarrow> (case load_sources ss of Inl e \<Rightarrow> Inl e | Inr kvs \<Rightarrow> Inr (sks @ kvs)))"

definition loader_Load :: "decoders \<Rightarrow> cmap \<Rightarrow> (err + keyValue list) list \<Rightarrow> config_error option \<times> cmap" where
  "loader_Load ds values sources =
     (case load_sources sources of Inl e \<Rightarrow> (Some (SourceError e), values) | Inr kvs \<Rightarrow> Merge ds values kvs)"

text \<open>
  One result of a watcher's \<open>Next\<close> in \<open>watchLoop\<close>: whether the loop goes on, whether \<open>fn\<close> is called, and the
  values afterwards.
\<close>

definition watchLoop_step :: "decoders \<Rightarrow> cmap \<Rightarrow> err + keyValue list \<Rightarrow> bool \<times> bool \<times> cmap" where
  "watchLoop_step ds values res =
     (case res of
        Inl e \<Rightarrow> (False, False, values)
      | Inr kvs \<Rightarrow> (case Merge ds values kvs of (Some e, values) \<Rightarrow> (True, False, values) | (None, values) \<Rightarrow> (True, True, values)))"

fun watchLoop :: "decoders \<Rightarrow> cmap \<Rightarrow> (err + keyValue list) list \<Rightarrow> cmap list \<times> cmap" where
  "watchLoop ds values [] = ([], values)"
| "watchLoop ds values (r # rs) =
     (let (go_on, called, values') = watchLoop_step ds values r;
          (calls, final) = (if go_on then watchLoop ds values' rs else ([], values'))
      in ((if called then [values'] else []) @ calls, final))"

text \<open>The watchers of a configuration; \<open>Close\<close> stops those started so far.\<close>

record configState =
  watchers :: "nat list"
  closed :: bool
  stopped :: "nat list"

text \<open>\<open>Watch\<close> of sources that gave a watcher or an error; an error is skipped.\<close>

definition Watch :: "configState \<Rightarrow> (err + nat) list \<Rightarrow> configState" where
  "Watch c ws = c\<lparr>watchers := watchers c @ concat (map (\<lambda>w. case w of Inl _ \<Rightarrow> [] | Inr n \<Rightarrow> [n]) ws)\<rparr>"

definition Config_Close :: "configState \<Rightarrow> configState" where
  "Config_Close c = (if closed c then c else c\<lparr>closed := True, stopped := stopped c @ watchers c, watchers := []\<rparr>)"

section \<open>The file source\<close>

text \<open>The file system at one moment: the modification time of a file, if it can be read at all, and its contents.\<close>

record fileSystem =
  Stat :: "string \<Rightarrow> time option"
  ReadFile :: "string \<Rightarrow> err + string"

text \<open>The suffix from the last dot of the last element of a path.\<close>

definition Ext :: "string \<Rightarrow> string" where
  "Ext p =
     (let suffix = takeWhile (\<lambda>c. c \<noteq> CHR ''.'' \<and> c \<noteq> CHR ''/'') (rev p);
          rest = drop (length suffix) (rev p)
      in if rest \<noteq> [] \<and> hd rest = CHR ''.'' then CHR ''.'' # rev suffix else [])"

definition formatFromExt :: "string \<Rightarrow> string" where
  "formatFromExt p =
     (if Ext p = ''.yaml'' \<or> Ext p = ''.yml'' then ''yaml'' else if Ext p = ''.toml'' then ''toml'' else ''json'')"

fun file_Load :: "fileSystem \<Rightarrow> string list \<Rightarrow> err + keyValue list" where
  "file_Load fs [] = Inr []"
| "file_Load fs (p # ps) =
     (case ReadFile fs p of
        Inl e \<Rightarrow> Inl e
      | Inr data \<Rightarrow>
          (case file_Load fs ps of Inl e \<Rightarrow> Inl e
           | Inr kvs \<Rightarrow> Inr (\<lparr>kvKey = p, kvValue = data, kvFormat = formatFromExt p\<rparr> # kvs)))"

record file_watcher =
  fw_paths :: "string list"
  lastMod :: "string \<rightharpoonup> time"

definition file_Watch :: "fileSystem \<Rightarrow> string list \<Rightarrow> file_watcher" where
  "file_Watch fs paths = \<lparr>fw_paths = paths, lastMod = (\<lambda>p. if p \<in> set paths then Stat fs p else None)\<rparr>"

fun check_loop :: "fileSystem \<Rightarrow> (string \<rightharpoonup> time) \<Rightarrow> string list \<Rightarrow> keyValue list \<times> (string \<rightharpoonup> time)" where
  "check_loop fs lm [] = ([], lm)"
| "check_loop fs lm (p # ps) =
     (case Stat fs p of
        None \<Rightarrow> check_loop fs lm ps
      | Some t \<Rightarrow>
          if lm p = Some t then check_loop fs lm ps
          else (case ReadFile fs p of
                  Inl e \<Rightarrow> check_loop fs (lm(p \<mapsto> t)) ps
                | Inr data \<Rightarrow>
                    (let (kvs, lm') = check_loop fs (lm(p \<mapsto> t)) ps
                     in (\<lparr>kvKey = p, kvValue = data, kvFormat = formatFromExt p\<rparr> # kvs, lm'))))"

definition check :: "fileSystem \<Rightarrow> file_watcher \<Rightarrow> keyValue list \<times> bool \<times> file_watcher" where
  "check fs w = (let (kvs, lm) = check_loop fs (lastMod w) (fw_paths w) in (kvs, kvs \<noteq> [], w\<lparr>lastMod := lm\<rparr>))"


section \<open>What a merge does to every path\<close>

text \<open>
  The value at a path, if there is one; whether a document ends the path early with a value that is no map; and
  documents whose maps have distinct keys, which every Go map has.
\<close>

fun look :: "cvalue \<Rightarrow> string list \<Rightarrow> cvalue option" where
  "look v [] = Some v"
| "look (CMap m) (p # ps) = (case map_of m p of None \<Rightarrow> None | Some v \<Rightarrow> look v ps)"
| "look v (p # ps) = None"

fun shadows :: "cvalue \<Rightarrow> string list \<Rightarrow> bool" where
  "shadows v [] \<longleftrightarrow> False"
| "shadows (CMap m) (p # ps) \<longleftrightarrow> (case map_of m p of None \<Rightarrow> False | Some v \<Rightarrow> shadows v ps)"
| "shadows v (p # ps) \<longleftrightarrow> True"

fun wf_cvalue :: "cvalue \<Rightarrow> bool" where
  "wf_cvalue (CMap m) \<longleftrightarrow> distinct (map fst m) \<and> (\<forall>p \<in> set m. wf_cvalue (snd p))"
| "wf_cvalue (CSeq vs) \<longleftrightarrow> (\<forall>v \<in> set vs. wf_cvalue v)"
| "wf_cvalue v \<longleftrightarrow> True"

fun is_cmap :: "cvalue \<Rightarrow> bool" where
  "is_cmap (CMap m) \<longleftrightarrow> True"
| "is_cmap v \<longleftrightarrow> False"

lemma look_nonmap: "\<not> is_cmap v \<Longrightarrow> look v (p # ps) = None"
  by (cases v) auto

lemma shadows_nonmap: "\<not> is_cmap v \<Longrightarrow> shadows v (p # ps)"
  by (cases v) auto

lemma lookup_loop_look: "lookup_loop v ps = (case look v ps of None \<Rightarrow> CNil | Some w \<Rightarrow> w)"
  by (induction v ps rule: look.induct) (auto split: option.split)

lemma deepCopyValue_id [simp]: "deepCopyValue v = v"
proof (induction v)
  case (CMap t)
  then have "map (\<lambda>(k, vv). (k, deepCopyValue vv)) t = map (\<lambda>p. p) t" by (intro map_cong) auto
  then show ?case by simp
qed (auto simp: map_idI)

lemma reader_Value_look:
  "path \<noteq> [] \<Longrightarrow> reader_Value values path = (case look (CMap values) (Split path (CHR ''.'')) of None \<Rightarrow> CNil | Some w \<Rightarrow> w)"
  by (simp add: reader_Value_def lookup_def lookup_loop_look)

text \<open>One value laid over another.\<close>

fun overlay :: "cvalue option \<Rightarrow> cvalue \<Rightarrow> cvalue" where
  "overlay (Some (CMap d)) (CMap s) = CMap (mergeMap d s)"
| "overlay _ sv = sv"

lemma overlay_leaf: "\<not> is_cmap v \<Longrightarrow> overlay d v = v"
  by (cases d; cases v) auto

lemma mergeMap_Cons:
  "mergeMap dst ((k, sv) # src) = mergeMap (AList.update k (overlay (map_of dst k) sv) dst) src"
proof -
  have "map_of dst k = None \<Longrightarrow> AList.update k sv dst = dst @ [(k, sv)]" for dst
    by (induction dst) (auto split: if_splits)
  then show ?thesis by (auto split: option.split cvalue.split)
qed

lemma map_of_mergeMap:
  "distinct (map fst src) \<Longrightarrow> map_of (mergeMap dst src) k =
     (case map_of src k of None \<Rightarrow> map_of dst k | Some sv \<Rightarrow> Some (overlay (map_of dst k) sv))"
proof (induction src arbitrary: dst)
  case (Cons p src)
  obtain k' sv where p: "p = (k', sv)" by (cases p)
  have "map_of src k' = None" using Cons.prems by (auto simp: p map_of_eq_None_iff)
  then show ?case using Cons by (auto simp: p mergeMap_Cons update_conv' simp del: mergeMap.simps split: option.split)
qed simp

lemma wf_cvalue_lookup: "wf_cvalue (CMap m) \<Longrightarrow> map_of m k = Some v \<Longrightarrow> wf_cvalue v"
  by (auto dest: map_of_SomeD)

lemma look_overlay:
  "wf_cvalue sv \<Longrightarrow> look (overlay dv sv) ps =
     (case look sv ps of
        Some s \<Rightarrow> Some (overlay (case dv of None \<Rightarrow> None | Some v \<Rightarrow> look v ps) s)
      | None \<Rightarrow> if shadows sv ps then None else (case dv of None \<Rightarrow> None | Some v \<Rightarrow> look v ps))"
proof (induction ps arbitrary: dv sv)
  case Nil
  then show ?case by (cases dv) auto
next
  case (Cons p ps)
  show ?case
  proof (cases "is_cmap sv")
    case False
    then show ?thesis by (simp add: overlay_leaf look_nonmap shadows_nonmap)
  next
    case True
    then obtain s where s: "sv = CMap s" by (cases sv) auto
    note wf = Cons.prems [unfolded s]
    show ?thesis
    proof (cases "\<exists>d. dv = Some (CMap d)")
      case True
      then obtain d where d: "dv = Some (CMap d)" by auto
      then show ?thesis
        using Cons.IH wf_cvalue_lookup [OF wf, of p] wf by (simp add: s d map_of_mergeMap split: option.split)
    next
      case False
      then have "overlay dv sv = sv" "dv = None \<or> (\<exists>v. dv = Some v \<and> \<not> is_cmap v)"
        by (cases dv; cases "the dv"; auto simp: s)+
      then have o: "overlay dv sv = sv" "(case dv of None \<Rightarrow> None | Some v \<Rightarrow> look v (p # ps)) = None"
        by (auto simp: look_nonmap)
      then show ?thesis by (auto split: option.split elim: overlay.elims)
    qed
  qed
qed

text \<open>
  C33. Merging a document changes every path exactly as a layer would: where the document has a value, it wins, and
  a map is merged with the map that was there; where it says nothing the old value stays; and a value that is no
  map hides everything below its path.
\<close>

theorem merge_lookup:
  assumes "wf_cvalue (CMap src)" and "path \<noteq> []"
  shows "reader_Value (mergeMap dst src) path =
    (let parts = Split path (CHR ''.'') in
     case look (CMap src) parts of
       Some s \<Rightarrow> overlay (look (CMap dst) parts) s
     | None \<Rightarrow> if shadows (CMap src) parts then CNil else reader_Value dst path)"
  using look_overlay [OF assms(1), of "Some (CMap dst)" "Split path (CHR ''.'')"] assms(2)
  by (simp add: reader_Value_look split: option.split)

theorem merge_lookup_witness:
  "reader_Value (mergeMap [(''a'', CMap [(''x'', CInt Kint 1), (''y'', CInt Kint 2)])] [(''a'', CMap [(''y'', CInt Kint 3)])]) ''a.x''
     = CInt Kint 1"
proof -
  have sp: "Split ''a.x'' (CHR ''.'') = [''a'', ''x'']" by code_simp
  have "wf_cvalue (CMap [(''a'', CMap [(''y'', CInt Kint 3)])])" by simp
  from merge_lookup [OF this, of "''a.x''" "[(''a'', CMap [(''x'', CInt Kint 1), (''y'', CInt Kint 2)])]"]
  show ?thesis by (simp add: sp reader_Value_look)
qed

text \<open>After a load, the last document that has a value at a path decides it.\<close>

definition silent :: "cmap \<Rightarrow> string list \<Rightarrow> bool" where
  "silent doc ps \<longleftrightarrow> look (CMap doc) ps = None \<and> \<not> shadows (CMap doc) ps"

lemma look_mergeMap:
  assumes "wf_cvalue (CMap src)"
  shows "silent src ps \<Longrightarrow> look (CMap (mergeMap dst src)) ps = look (CMap dst) ps"
    and "look (CMap src) ps = Some v \<Longrightarrow> \<not> is_cmap v \<Longrightarrow> look (CMap (mergeMap dst src)) ps = Some v"
  using look_overlay [OF assms, of "Some (CMap dst)" ps] by (auto simp: silent_def overlay_leaf)

lemma Merge_append:
  "Merge ds values (kvs1 @ kvs2) = (case Merge ds values kvs1 of (Some e, vs) \<Rightarrow> (Some e, vs) | (None, vs) \<Rightarrow> Merge ds vs kvs2)"
  by (induction kvs1 arbitrary: "values") (auto split: sum.split)

lemma Merge_silent:
  assumes "Merge ds values kvs = (None, values')"
    and "\<forall>kv \<in> set kvs. \<forall>doc. decode ds (kvValue kv) (kvFormat kv) = Inr doc \<longrightarrow> wf_cvalue (CMap doc) \<and> silent doc ps"
  shows "look (CMap values') ps = look (CMap values) ps"
  using assms
proof (induction kvs arbitrary: "values")
  case (Cons kv kvs)
  obtain doc where doc: "decode ds (kvValue kv) (kvFormat kv) = Inr doc"
    using Cons.prems(1) by (auto split: sum.splits)
  then have "look (CMap values') ps = look (CMap (mergeMap values doc)) ps"
    using Cons.prems by (intro Cons.IH) auto
  then show ?case using doc Cons.prems(2) by (simp add: look_mergeMap(1))
qed simp

lemma Load_last_wins:
  assumes load: "loader_Load ds values sources = (None, values')"
    and srcs: "load_sources sources = Inr (kvs1 @ kv # kvs2)"
    and doc: "decode ds (kvValue kv) (kvFormat kv) = Inr doc" "wf_cvalue (CMap doc)"
    and v: "look (CMap doc) ps = Some v" "\<not> is_cmap v"
    and later: "\<forall>kv \<in> set kvs2. \<forall>doc. decode ds (kvValue kv) (kvFormat kv) = Inr doc \<longrightarrow> wf_cvalue (CMap doc) \<and> silent doc ps"
  shows "look (CMap values') ps = Some v"
proof -
  obtain vs where "Merge ds (mergeMap vs doc) kvs2 = (None, values')"
    using load doc by (auto simp: loader_Load_def srcs Merge_append split: prod.splits option.splits)
  then show ?thesis using Merge_silent [OF _ later] look_mergeMap(2) [OF doc(2) v] by simp
qed

text \<open>
  C34. A change that a watcher reports is laid over everything loaded before, whatever source it comes from: a
  value of the changed document wins even over a source that was loaded after it to override it, and a key
  that the changed document no longer has keeps its old value.
\<close>

theorem watch_reload_on_top:
  assumes "decode ds (kvValue kv) (kvFormat kv) = Inr doc" and "wf_cvalue (CMap doc)"
  shows "\<exists>values'. watchLoop_step ds values (Inr [kv]) = (True, True, values')
    \<and> (\<forall>path. path \<noteq> [] \<longrightarrow>
         (\<forall>v. look (CMap doc) (Split path (CHR ''.'')) = Some v \<and> \<not> is_cmap v \<longrightarrow> reader_Value values' path = v)
       \<and> (silent doc (Split path (CHR ''.'')) \<longrightarrow> reader_Value values' path = reader_Value values path))"
  using assms by (auto simp: watchLoop_step_def reader_Value_look look_mergeMap)

text \<open>Two sources, of which the second overrides the first; a change of the first wins after the reload.\<close>

definition example_decoders :: decoders where
  "example_decoders =
     (let d = (\<lambda>s. if s = ''base'' then Inr [(''port'', CInt Kint 80)]
                    else if s = ''site'' then Inr [(''port'', CInt Kint 443)]
                    else if s = ''base2'' then Inr [(''port'', CInt Kint 81)] else Inl (ErrString s))
      in \<lparr>yaml = d, toml = d, json = d\<rparr>)"

definition example_kv :: "string \<Rightarrow> keyValue" where
  "example_kv s = \<lparr>kvKey = s, kvValue = s, kvFormat = ''json''\<rparr>"

theorem watch_reload_on_top_witness:
  "\<exists>vs vs'. loader_Load example_decoders [] [Inr [example_kv ''base''], Inr [example_kv ''site'']] = (None, vs)
     \<and> reader_Value vs ''port'' = CInt Kint 443
     \<and> watchLoop_step example_decoders vs (Inr [example_kv ''base2'']) = (True, True, vs')
     \<and> reader_Value vs' ''port'' = CInt Kint 81"
proof -
  let ?vs = "[(''port'', CInt Kint 443)]"
  have l: "loader_Load example_decoders [] [Inr [example_kv ''base''], Inr [example_kv ''site'']] = (None, ?vs)" by code_simp
  have v: "reader_Value ?vs ''port'' = CInt Kint 443" by code_simp
  have sp: "Split ''port'' (CHR ''.'') = [''port'']" by code_simp
  have d: "decode example_decoders (kvValue (example_kv ''base2'')) (kvFormat (example_kv ''base2'')) = Inr [(''port'', CInt Kint 81)]"
    by code_simp
  from watch_reload_on_top [OF d, of ?vs] obtain vs' where
    "watchLoop_step example_decoders ?vs (Inr [example_kv ''base2'']) = (True, True, vs')"
    "reader_Value vs' ''port'' = CInt Kint 81"
    by (auto simp: sp dest!: spec [of _ "''port''"])
  then show ?thesis using l v by blast
qed

text \<open>The conversions of one value do not agree: a boolean is 1 as \<open>Int\<close> and 0 as \<open>Int64\<close>, and the number 1 of a
  JSON document is not true while the number 1 of a YAML document is.\<close>

lemma conversions_disagree:
  "value_Int (CBool True) = 1" "value_Int64 (CBool True) = 0"
  "value_Int (CFloat64 1) = 1" "\<not> value_Bool (CFloat64 1)" "value_Bool (CInt Kint 1)" "\<not> value_Bool (CInt Kint64 1)"
  by (simp_all add: value_Int_def value_Int64_def value_Bool_def int64_def float_to_int_def)

text \<open>
  A change that could be seen but not read is never reported: the time stamp is stored before the file is read,
  so a later poll that could read it sees nothing new.
\<close>

lemma check_unreadable_change_lost:
  assumes "Stat fs p = Some t" "ReadFile fs p = Inl e" "Stat fs' p = Some t"
    and w: "fw_paths w = [p]" "check fs w = (kvs, changed, w')"
  shows "fst (snd (check fs' w')) = False"
  using assms by (auto simp: check_def split: if_splits)

lemma check_reports_change:
  assumes "Stat fs p = Some t" "ReadFile fs p = Inr data" "lastMod w p \<noteq> Some t" "fw_paths w = [p]"
  shows "check fs w = ([\<lparr>kvKey = p, kvValue = data, kvFormat = formatFromExt p\<rparr>], True, w\<lparr>lastMod := (lastMod w)(p \<mapsto> t)\<rparr>)"
  using assms by (simp add: check_def)

end
