(* ===== verification/EventBroker.thy ===== *)
theory EventBroker
  imports "HOL-Library.Sublist" Errno
begin

text \<open>
  \<open>pkg/event\<close> (the event bus and the bounded queue) and \<open>pkg/broker\<close> with its in-process broker.
\<close>

section \<open>The event bus\<close>

record 'd event =
  event_name :: string
  event_data :: 'd

text \<open>
  A Go function value is a code pointer with the variables it captured. \<open>callbackID\<close> is \<open>reflect.Value.Pointer\<close>,
  which is the code pointer only: the closures of one function literal share it.
\<close>

record 'c callback =
  code :: nat
  captured :: 'c

type_synonym 'c bus = "string \<Rightarrow> (nat \<rightharpoonup> 'c callback)"

definition NewBus :: "'c bus" where
  "NewBus = (\<lambda>_. Map.empty)"

definition callbackID :: "'c callback \<Rightarrow> nat" where
  "callbackID cb = code cb"

definition bus_Watch :: "'c bus \<Rightarrow> string \<Rightarrow> 'c callback \<Rightarrow> 'c bus" where
  "bus_Watch b name cb = b(name := (b name)(callbackID cb \<mapsto> cb))"

definition bus_Unwatch :: "'c bus \<Rightarrow> string \<Rightarrow> 'c callback \<Rightarrow> 'c bus" where
  "bus_Unwatch b name cb = b(name := (b name)(callbackID cb := None))"

text \<open>The callbacks that \<open>Dispatch\<close> calls with the event, in an order that Go leaves open.\<close>

definition Dispatch :: "'c bus \<Rightarrow> 'd event \<Rightarrow> 'c callback set" where
  "Dispatch b e = ran (b (event_name e))"

section \<open>The event queue\<close>

record 'd eventQueue =
  events :: "'d event list"
  capacity :: int

definition NewEventQueue :: "int \<Rightarrow> 'd eventQueue" where
  "NewEventQueue cap = \<lparr>events = [], capacity = cap\<rparr>"

definition Push :: "'d eventQueue \<Rightarrow> 'd event \<Rightarrow> 'd eventQueue" where
  "Push q e =
     (let es = events q @ [e]
      in q\<lparr>events := (if capacity q > 0 \<and> int (length es) > capacity q then drop (nat (int (length es) - capacity q)) es
                     else es)\<rparr>)"

definition Dump :: "'d eventQueue \<Rightarrow> 'd event list" where
  "Dump q = events q"

section \<open>The in-process broker\<close>

text \<open>Handlers are user code: a subscription keeps which one it has, and a call of it can have any result.\<close>

record 'h subscription =
  sub_topic :: string
  handler :: 'h
  autoAck :: bool
  sub_done :: bool

record subscribeOptions =
  Queue :: string
  AutoAck :: bool
  Concurrency :: int

datatype subscribeOption = WithQueue string | WithAutoAck bool | WithConcurrency int

fun apply_subscribeOption :: "subscribeOption \<Rightarrow> subscribeOptions \<Rightarrow> subscribeOptions" where
  "apply_subscribeOption (WithQueue q) opts = opts\<lparr>Queue := q\<rparr>"
| "apply_subscribeOption (WithAutoAck v) opts = opts\<lparr>AutoAck := v\<rparr>"
| "apply_subscribeOption (WithConcurrency n) opts = opts\<lparr>Concurrency := n\<rparr>"

text \<open>
  Subscriptions are objects: \<open>store\<close> holds them by address, \<open>subs\<close> the addresses of every topic in the order of
  subscription.
\<close>

record 'h memoryBroker =
  subs :: "string \<Rightarrow> nat list"
  store :: "'h subscription list"

definition New_memory :: "'h memoryBroker" where
  "New_memory = \<lparr>subs = (\<lambda>_. []), store = []\<rparr>"

definition Subscribe :: "'h memoryBroker \<Rightarrow> string \<Rightarrow> 'h \<Rightarrow> subscribeOption list \<Rightarrow> nat \<times> 'h memoryBroker" where
  "Subscribe b topic h opts =
     (let o1 = fold apply_subscribeOption opts \<lparr>Queue = [], AutoAck = True, Concurrency = 0\<rparr>;
          s = \<lparr>sub_topic = topic, handler = h, autoAck = AutoAck o1, sub_done = False\<rparr>; a = length (store b)
      in (a, b\<lparr>store := store b @ [s], subs := (subs b)(topic := subs b topic @ [a])\<rparr>))"

definition Unsubscribe :: "'h memoryBroker \<Rightarrow> nat \<Rightarrow> 'h memoryBroker" where
  "Unsubscribe b a = b\<lparr>store := (store b)[a := (store b ! a)\<lparr>sub_done := True\<rparr>]\<rparr>"

text \<open>
  A call of \<open>Publish\<close>: its topic and message, the slice \<open>subs\<close> it has copied, the index of its loop, and where it
  stands: before the test of \<open>s.done\<close>, inside the handler of \<open>subs[i]\<close>, or returned.
\<close>

datatype publish_place = At_done | In_handler | Publish_returned "err option"

record 'm publishing =
  p_topic :: string
  p_msg :: 'm
  p_subs :: "nat list"
  p_next :: nat
  p_place :: publish_place

definition Publish :: "'h memoryBroker \<Rightarrow> string \<Rightarrow> 'm \<Rightarrow> 'm publishing" where
  "Publish b topic m = \<lparr>p_topic = topic, p_msg = m, p_subs = subs b topic, p_next = 0, p_place = At_done\<rparr>"

text \<open>The loop at \<open>s.done\<close>: past the last subscription, over a cancelled one, or into the handler.\<close>

definition Publish_loop :: "'h memoryBroker \<Rightarrow> 'm publishing \<Rightarrow> 'm publishing" where
  "Publish_loop b c =
     (if p_next c \<ge> length (p_subs c) then c\<lparr>p_place := Publish_returned None\<rparr>
      else if sub_done (store b ! (p_subs c ! p_next c)) then c\<lparr>p_next := p_next c + 1\<rparr>
      else c\<lparr>p_place := In_handler\<rparr>)"

definition Publish_handled :: "'m publishing \<Rightarrow> err option \<Rightarrow> 'm publishing" where
  "Publish_handled c e =
     c\<lparr>p_next := p_next c + 1, p_place := (case e of None \<Rightarrow> At_done | Some _ \<Rightarrow> Publish_returned e)\<rparr>"

text \<open>
  The broker and the calls of \<open>Publish\<close>, named by numbers. A handler and every other goroutine may subscribe,
  unsubscribe and publish between any two steps.
\<close>

record ('h, 'm) brokerRun =
  mb :: "'h memoryBroker"
  calls :: "nat \<rightharpoonup> 'm publishing"

datatype 'm broker_label = Subscribed nat string | Unsubscribed nat | Publish_called nat string 'm
  | Delivered nat nat string 'm | Handler_returned nat nat "err option" | Looped nat

inductive broker_step :: "('h, 'm) brokerRun \<Rightarrow> 'm broker_label \<Rightarrow> ('h, 'm) brokerRun \<Rightarrow> bool" where
  subscribes: "Subscribe (mb s) topic h opts = (a, b') \<Longrightarrow> broker_step s (Subscribed a topic) (s\<lparr>mb := b'\<rparr>)"
| unsubscribes: "a < length (store (mb s)) \<Longrightarrow> broker_step s (Unsubscribed a) (s\<lparr>mb := Unsubscribe (mb s) a\<rparr>)"
| publishes: "calls s p = None
    \<Longrightarrow> broker_step s (Publish_called p topic m) (s\<lparr>calls := (calls s)(p \<mapsto> Publish (mb s) topic m)\<rparr>)"
| loops: "calls s p = Some c \<Longrightarrow> p_place c = At_done \<Longrightarrow> c' = Publish_loop (mb s) c
    \<Longrightarrow> l = (if p_place c' = In_handler then Delivered p (p_subs c ! p_next c) (p_topic c) (p_msg c) else Looped p)
    \<Longrightarrow> broker_step s l (s\<lparr>calls := (calls s)(p \<mapsto> c')\<rparr>)"
| handled: "calls s p = Some c \<Longrightarrow> p_place c = In_handler
    \<Longrightarrow> broker_step s (Handler_returned p (p_subs c ! p_next c) e) (s\<lparr>calls := (calls s)(p \<mapsto> Publish_handled c e)\<rparr>)"

inductive broker_run :: "'m broker_label list \<Rightarrow> ('h, 'm) brokerRun \<Rightarrow> bool" where
  broker_new: "broker_run [] \<lparr>mb = New_memory, calls = Map.empty\<rparr>"
| broker_more: "broker_run ls s \<Longrightarrow> broker_step s l s' \<Longrightarrow> broker_run (ls @ [l]) s'"

section \<open>The table of brokers\<close>

definition RegisterBroker :: "(string \<rightharpoonup> 'f) \<Rightarrow> string \<Rightarrow> 'f \<Rightarrow> (string \<rightharpoonup> 'f)" where
  "RegisterBroker factories name f = factories(name \<mapsto> f)"

definition GetBroker :: "(string \<rightharpoonup> ('o \<Rightarrow> err + 'b)) \<Rightarrow> string \<Rightarrow> 'o \<Rightarrow> err + 'b" where
  "GetBroker factories name opts =
     (case factories name of None \<Rightarrow> Inl (ErrString (''broker '' @ name @ '' not registered'')) | Some f \<Rightarrow> f opts)"

definition Registered_broker :: "(string \<rightharpoonup> 'f) \<Rightarrow> string \<Rightarrow> bool" where
  "Registered_broker factories name \<longleftrightarrow> factories name \<noteq> None"

section \<open>Properties of the bus\<close>

datatype 'c bus_op = WatchOp string "'c callback" | UnwatchOp string "'c callback"

fun bus_apply :: "'c bus \<Rightarrow> 'c bus_op \<Rightarrow> 'c bus" where
  "bus_apply b (WatchOp n cb) = bus_Watch b n cb"
| "bus_apply b (UnwatchOp n cb) = bus_Unwatch b n cb"

fun concerns :: "string \<Rightarrow> nat \<Rightarrow> 'c bus_op \<Rightarrow> bool" where
  "concerns n i (WatchOp m cb) \<longleftrightarrow> m = n \<and> code cb = i"
| "concerns n i (UnwatchOp m cb) \<longleftrightarrow> m = n \<and> code cb = i"

text \<open>
  C35. What a dispatch calls, after any history: for every code pointer at most one callback, the one of the last
  \<open>Watch\<close> or \<open>Unwatch\<close> of that pointer for that name. Two closures of one function literal are therefore one
  callback to the bus: the second replaces the first, and unwatching either removes whichever is there.
\<close>

theorem Dispatch_last_per_code:
  "cb \<in> Dispatch (foldl bus_apply NewBus ops) e \<longleftrightarrow>
     (\<exists>before after. ops = before @ WatchOp (event_name e) cb # after
        \<and> \<not> list_ex (concerns (event_name e) (code cb)) after)"
proof -
  have key: "foldl bus_apply NewBus ops n i = Some c \<longleftrightarrow>
      code c = i \<and> (\<exists>before after. ops = before @ WatchOp n c # after \<and> \<not> list_ex (concerns n i) after)" for n i c
  proof (induction ops rule: rev_induct)
    case Nil
    then show ?case by (simp add: NewBus_def)
  next
    case (snoc op ops)
    have split: "(\<exists>before after. ops @ [op] = before @ WatchOp n c # after \<and> \<not> list_ex (concerns n i) after) \<longleftrightarrow>
        op = WatchOp n c \<or> \<not> concerns n i op \<and> (\<exists>before after. ops = before @ WatchOp n c # after \<and> \<not> list_ex (concerns n i) after)"
      (is "?l \<longleftrightarrow> ?r")
    proof
      assume ?l
      then obtain bs as where h: "ops @ [op] = bs @ WatchOp n c # as" "\<not> list_ex (concerns n i) as" by blast
      then show ?r by (cases as rule: rev_cases) auto
    next
      assume ?r
      then show ?l
      proof
        assume "op = WatchOp n c"
        then show ?l by (intro exI [of _ ops] exI [of _ "[]"]) simp
      next
        assume "\<not> concerns n i op \<and> (\<exists>before after. ops = before @ WatchOp n c # after \<and> \<not> list_ex (concerns n i) after)"
        then obtain bs as where "ops = bs @ WatchOp n c # as" "\<not> list_ex (concerns n i) as" "\<not> concerns n i op" by blast
        then show ?l by (intro exI [of _ bs] exI [of _ "as @ [op]"]) simp
      qed
    qed
    show ?case unfolding split using snoc.IH
      by (cases op) (auto simp: bus_Watch_def bus_Unwatch_def callbackID_def)
  qed
  show ?thesis by (auto simp: Dispatch_def ran_def key)
qed

section \<open>Properties of the queue\<close>

text \<open>A bounded queue holds exactly the last \<open>capacity\<close> events; without a positive capacity it holds all.\<close>

lemma capacity_Push [simp]: "capacity (Push q e) = capacity q"
  by (simp add: Push_def Let_def)

lemma events_Push:
  "events (Push q e) = (if capacity q > 0 then last_n (nat (capacity q)) (events q @ [e]) else events q @ [e])"
proof (cases "capacity q > 0 \<and> int (length (events q @ [e])) > capacity q")
  case True
  then have "nat (int (length (events q @ [e])) - capacity q) = length (events q @ [e]) - nat (capacity q)" by linarith
  then show ?thesis unfolding Push_def Let_def last_n_def using True by simp
next
  case False
  then have "capacity q > 0 \<Longrightarrow> last_n (nat (capacity q)) (events q @ [e]) = events q @ [e]"
    by (intro last_n_short) linarith
  then show ?thesis using False by (auto simp: Push_def Let_def)
qed

lemma queue_history:
  "Dump (foldl Push (NewEventQueue cap) es) = (if cap > 0 then last_n (nat cap) es else es)
    \<and> capacity (foldl Push (NewEventQueue cap) es) = cap"
proof (induction es rule: rev_induct)
  case Nil
  then show ?case by (simp add: Dump_def NewEventQueue_def last_n_def)
qed (auto simp: Dump_def events_Push)

section \<open>Properties of the broker\<close>

fun subscribed :: "string \<Rightarrow> 'm broker_label list \<Rightarrow> nat list" where
  "subscribed t [] = []"
| "subscribed t (Subscribed a t' # ls) = (if t' = t then a # subscribed t ls else subscribed t ls)"
| "subscribed t (_ # ls) = subscribed t ls"

fun delivered :: "nat \<Rightarrow> 'm broker_label list \<Rightarrow> nat list" where
  "delivered p [] = []"
| "delivered p (Delivered q a t m # ls) = (if q = p then a # delivered p ls else delivered p ls)"
| "delivered p (_ # ls) = delivered p ls"

lemma subscribed_append [simp]: "subscribed t (ls @ ls') = subscribed t ls @ subscribed t ls'"
  by (induction t ls rule: subscribed.induct) simp_all

lemma delivered_append [simp]: "delivered p (ls @ ls') = delivered p ls @ delivered p ls'"
  by (induction p ls rule: delivered.induct) simp_all

text \<open>What the log says of the table of subscriptions.\<close>

definition table_inv :: "'m broker_label list \<Rightarrow> ('h, 'm) brokerRun \<Rightarrow> bool" where
  "table_inv ls s \<longleftrightarrow>
     (\<forall>t. subs (mb s) t = subscribed t ls) \<and> (\<forall>t. distinct (subscribed t ls))
   \<and> (\<forall>t a. a \<in> set (subscribed t ls) \<longrightarrow> a < length (store (mb s)))
   \<and> (\<forall>a. Unsubscribed a \<in> set ls \<longleftrightarrow> a < length (store (mb s)) \<and> sub_done (store (mb s) ! a))
   \<and> (\<forall>p t m. Publish_called p t m \<in> set ls \<longrightarrow> calls s p \<noteq> None)"

lemma table_inv_step: "broker_step s l s' \<Longrightarrow> table_inv ls s \<Longrightarrow> table_inv (ls @ [l]) s'"
proof (induction rule: broker_step.induct)
  case (subscribes s topic h opts a b')
  then have "a = length (store (mb s))" by (simp add: Subscribe_def Let_def)
  moreover from this have "a \<notin> set (subscribed topic ls)" using subscribes.prems by (auto simp: table_inv_def)
  ultimately show ?case using subscribes
    by (auto simp: table_inv_def Subscribe_def Let_def nth_append less_Suc_eq)
qed (auto simp: table_inv_def Unsubscribe_def nth_list_update split: if_splits)

lemma table_inv_run: "broker_run ls s \<Longrightarrow> table_inv ls s"
  by (induction rule: broker_run.induct) (simp_all add: table_inv_step, simp add: table_inv_def New_memory_def)


text \<open>What the log says of one call of \<open>Publish\<close>; \<open>passed\<close> are the subscriptions the loop has decided about.\<close>

definition passed :: "'m publishing \<Rightarrow> nat list" where
  "passed c = take (if p_place c = In_handler then Suc (p_next c) else p_next c) (p_subs c)"

definition called_with :: "nat \<Rightarrow> string \<Rightarrow> 'm \<Rightarrow> nat list \<Rightarrow> 'm broker_label list \<Rightarrow> bool" where
  "called_with p topic m as ls \<longleftrightarrow> (\<exists>xs ys. ls = xs @ Publish_called p topic m # ys \<and> as = subscribed topic xs)"

lemma called_with_snoc: "called_with p topic m as ls \<Longrightarrow> called_with p topic m as (ls @ [l])"
proof -
  assume "called_with p topic m as ls"
  then obtain xs ys where "ls = xs @ Publish_called p topic m # ys" "as = subscribed topic xs"
    by (auto simp: called_with_def)
  then show ?thesis unfolding called_with_def by (intro exI [of _ xs] exI [of _ "ys @ [l]"]) simp
qed

definition call_inv :: "'m broker_label list \<Rightarrow> 'h memoryBroker \<Rightarrow> nat \<Rightarrow> 'm publishing \<Rightarrow> bool" where
  "call_inv ls b p c \<longleftrightarrow>
     subseq (delivered p ls) (passed c)
   \<and> (\<forall>a \<in> set (passed c). a \<in> set (delivered p ls) \<or> sub_done (store b ! a))
   \<and> (\<forall>a t m. Delivered p a t m \<in> set ls \<longrightarrow> t = p_topic c \<and> m = p_msg c)
   \<and> called_with p (p_topic c) (p_msg c) (p_subs c) ls
   \<and> (p_place c = In_handler \<longrightarrow> p_next c < length (p_subs c) \<and> (\<exists>d. delivered p ls = d @ [p_subs c ! p_next c]))
   \<and> (p_place c = Publish_returned None \<longrightarrow> passed c = p_subs c)
   \<and> (\<forall>a e. Handler_returned p a (Some e) \<in> set ls \<longleftrightarrow>
        p_place c = Publish_returned (Some e) \<and> (\<exists>d as. delivered p ls = d @ [a] \<and> passed c = as @ [a]))"

definition calls_inv :: "'m broker_label list \<Rightarrow> ('h, 'm) brokerRun \<Rightarrow> bool" where
  "calls_inv ls s \<longleftrightarrow> (\<forall>p. case calls s p of
       None \<Rightarrow> delivered p ls = [] \<and> (\<forall>a t m. Delivered p a t m \<notin> set ls) \<and> (\<forall>a e. Handler_returned p a e \<notin> set ls)
     | Some c \<Rightarrow> call_inv ls (mb s) p c)"

text \<open>Steps of others keep it: the log of the call is the same, and subscriptions are only ever cancelled.\<close>

lemma call_inv_other:
  assumes "call_inv ls b p c" "delivered p [l] = []" "\<And>a t m. l \<noteq> Delivered p a t m" "\<And>a e. l \<noteq> Handler_returned p a e"
    "\<And>a. a \<in> set (passed c) \<Longrightarrow> sub_done (store b ! a) \<Longrightarrow> sub_done (store b' ! a)"
  shows "call_inv (ls @ [l]) b' p c"
proof -
  have log: "Delivered p a t m \<in> set (ls @ [l]) \<longleftrightarrow> Delivered p a t m \<in> set ls"
    "Handler_returned p a e \<in> set (ls @ [l]) \<longleftrightarrow> Handler_returned p a e \<in> set ls"
    "delivered p (ls @ [l]) = delivered p ls" for a t m e
    using assms(2) assms(3) [of a t m] assms(4) [of a e] by auto
  have "\<forall>a \<in> set (passed c). a \<in> set (delivered p ls) \<or> sub_done (store b' ! a)"
    using assms(1,5) unfolding call_inv_def by blast
  moreover have "called_with p (p_topic c) (p_msg c) (p_subs c) (ls @ [l])"
    using assms(1) by (simp add: call_inv_def called_with_snoc)
  ultimately show ?thesis using assms(1) unfolding call_inv_def log by (simp only:) simp
qed

lemma passed_subs: "a \<in> set (passed c) \<Longrightarrow> a \<in> set (p_subs c)"
  by (auto simp: passed_def dest: in_set_takeD)

lemma Publish_inv:
  assumes "table_inv ls s" "delivered p ls = []" "\<forall>a t m. Delivered p a t m \<notin> set ls" "\<forall>a e. Handler_returned p a e \<notin> set ls"
  shows "call_inv (ls @ [Publish_called p topic m]) (mb s) p (Publish (mb s) topic m)"
  using assms by (auto simp: call_inv_def Publish_def passed_def table_inv_def called_with_def)

lemma Publish_loop_inv:
  assumes "call_inv ls b p c" "p_place c = At_done" "c' = Publish_loop b c"
    "l = (if p_place c' = In_handler then Delivered p (p_subs c ! p_next c) (p_topic c) (p_msg c) else Looped p)"
  shows "call_inv (ls @ [l]) b p c'"
proof -
  have inv: "subseq (delivered p ls) (take (p_next c) (p_subs c))"
    "\<forall>a \<in> set (take (p_next c) (p_subs c)). a \<in> set (delivered p ls) \<or> sub_done (store b ! a)"
    "\<forall>a t m. Delivered p a t m \<in> set ls \<longrightarrow> t = p_topic c \<and> m = p_msg c"
    "called_with p (p_topic c) (p_msg c) (p_subs c) ls"
    "\<forall>a e. Handler_returned p a (Some e) \<notin> set ls"
    using assms(1,2) by (simp_all add: call_inv_def passed_def)
  note log' = called_with_snoc [OF inv(4)]
  consider (ends) "length (p_subs c) \<le> p_next c"
    | (skips) "p_next c < length (p_subs c)" "sub_done (store b ! (p_subs c ! p_next c))"
    | (calls) "p_next c < length (p_subs c)" "\<not> sub_done (store b ! (p_subs c ! p_next c))" by linarith
  then show ?thesis
  proof cases
    case ends
    then show ?thesis using assms(2-4) inv log' by (simp add: call_inv_def Publish_loop_def passed_def)
  next
    case skips
    then have "take (Suc (p_next c)) (p_subs c) = take (p_next c) (p_subs c) @ [p_subs c ! p_next c]"
      by (simp add: take_Suc_conv_app_nth)
    then show ?thesis using assms(2-4) inv log' skips
      by (auto simp: call_inv_def Publish_loop_def passed_def intro: subseq_rev_drop_many)
  next
    case calls
    then have "take (Suc (p_next c)) (p_subs c) = take (p_next c) (p_subs c) @ [p_subs c ! p_next c]"
      by (simp add: take_Suc_conv_app_nth)
    then show ?thesis using assms(2-4) inv log' calls
      by (auto simp: call_inv_def Publish_loop_def passed_def intro: list_emb_append_mono)
  qed
qed

lemma Publish_handled_inv:
  assumes "call_inv ls b p c" "p_place c = In_handler"
  shows "call_inv (ls @ [Handler_returned p (p_subs c ! p_next c) e]) b p (Publish_handled c e)"
proof -
  have "p_next c < length (p_subs c)" using assms by (simp add: call_inv_def)
  then have "take (Suc (p_next c)) (p_subs c) = take (p_next c) (p_subs c) @ [p_subs c ! p_next c]"
    by (simp add: take_Suc_conv_app_nth)
  then show ?thesis using assms
    by (cases e) (auto simp: call_inv_def Publish_handled_def passed_def intro: called_with_snoc)
qed

lemma store_mono:
  assumes "broker_step s l s'" "a < length (store (mb s))" "sub_done (store (mb s) ! a)"
  shows "sub_done (store (mb s') ! a)"
  using assms(1)
proof cases
  case (subscribes topic h opts b b')
  then show ?thesis using assms(2,3) by (auto simp: Subscribe_def Let_def nth_append)
next
  case (unsubscribes b)
  then show ?thesis using assms(2,3) by (cases "a = b") (simp_all add: Unsubscribe_def)
next
  case (publishes p t m)
  then have "mb s' = mb s" by simp
  with assms(3) show ?thesis by simp
next
  case (loops p c c')
  then have "mb s' = mb s" by simp
  with assms(3) show ?thesis by simp
next
  case (handled p c e)
  then have "mb s' = mb s" by simp
  with assms(3) show ?thesis by simp
qed

lemma call_subs_stored:
  assumes "table_inv ls s" "call_inv ls b p c" "a \<in> set (p_subs c)"
  shows "a < length (store (mb s))"
proof -
  obtain xs ys where "ls = xs @ Publish_called p (p_topic c) (p_msg c) # ys" "p_subs c = subscribed (p_topic c) xs"
    using assms(2) unfolding call_inv_def called_with_def by blast
  then have "a \<in> set (subscribed (p_topic c) ls)" using assms(3) by simp
  then show ?thesis using assms(1) by (auto simp: table_inv_def)
qed

fun label_call :: "'m broker_label \<Rightarrow> nat option" where
  "label_call (Publish_called p _ _) = Some p"
| "label_call (Delivered p _ _ _) = Some p"
| "label_call (Handler_returned p _ _) = Some p"
| "label_call (Looped p) = Some p"
| "label_call _ = None"

lemma broker_step_other: "broker_step s l s' \<Longrightarrow> label_call l \<noteq> Some p \<Longrightarrow> calls s' p = calls s p"
  by (induction rule: broker_step.induct) (auto split: if_splits)

lemma label_other:
  "label_call l \<noteq> Some p \<Longrightarrow> delivered p [l] = [] \<and> l \<noteq> Delivered p a t m \<and> l \<noteq> Handler_returned p a e"
  by (cases l) auto

lemma broker_step_own:
  assumes "broker_step s l s'" "label_call l = Some p" "table_inv ls s" "calls_inv ls s"
  shows "\<exists>c. calls s' p = Some c \<and> call_inv (ls @ [l]) (mb s') p c"
proof -
  have inv: "case calls s p of
       None \<Rightarrow> delivered p ls = [] \<and> (\<forall>a t m. Delivered p a t m \<notin> set ls) \<and> (\<forall>a e. Handler_returned p a e \<notin> set ls)
     | Some c \<Rightarrow> call_inv ls (mb s) p c" using assms(4) by (simp add: calls_inv_def)
  from assms(1) show ?thesis
  proof cases
    case (publishes q t m)
    then have "q = p" using assms(2) by simp
    with publishes show ?thesis using inv Publish_inv [OF assms(3), of p t m] by simp
  next
    case (loops q c c')
    then have q: "q = p" using assms(2) by (auto split: if_splits)
    then have "call_inv ls (mb s) p c" using loops(2) inv by simp
    from Publish_loop_inv [OF this loops(3,4) loops(5) [unfolded q]] show ?thesis unfolding loops(1) q by simp
  next
    case (handled q c e)
    then have q: "q = p" using assms(2) by simp
    then have "call_inv ls (mb s) p c" using handled(3) inv by simp
    from Publish_handled_inv [OF this handled(4)] show ?thesis unfolding handled(1,2) q by simp
  qed (use assms(2) in simp_all)
qed

lemma calls_inv_step:
  assumes "broker_step s l s'" "table_inv ls s" "calls_inv ls s"
  shows "calls_inv (ls @ [l]) s'"
  unfolding calls_inv_def
proof
  fix p
  show "case calls s' p of
       None \<Rightarrow> delivered p (ls @ [l]) = [] \<and> (\<forall>a t m. Delivered p a t m \<notin> set (ls @ [l]))
         \<and> (\<forall>a e. Handler_returned p a e \<notin> set (ls @ [l]))
     | Some c \<Rightarrow> call_inv (ls @ [l]) (mb s') p c"
  proof (cases "label_call l = Some p")
    case True
    then show ?thesis using broker_step_own [OF assms(1) True assms(2,3)] by auto
  next
    case False
    note other = broker_step_other [OF assms(1) False] label_other [OF False]
    have old: "case calls s p of
       None \<Rightarrow> delivered p ls = [] \<and> (\<forall>a t m. Delivered p a t m \<notin> set ls) \<and> (\<forall>a e. Handler_returned p a e \<notin> set ls)
     | Some c \<Rightarrow> call_inv ls (mb s) p c" using assms(3) by (simp add: calls_inv_def)
    show ?thesis
    proof (cases "calls s p")
      case None
      then show ?thesis using old other by auto
    next
      case (Some c)
      then have c: "call_inv ls (mb s) p c" using old by simp
      have "call_inv (ls @ [l]) (mb s') p c"
        using other(2) store_mono [OF assms(1) call_subs_stored [OF assms(2) c passed_subs]]
        by (intro call_inv_other [OF c]) blast+
      then show ?thesis using Some other(1) by simp
    qed
  qed
qed

lemma calls_inv_run: "broker_run ls s \<Longrightarrow> calls_inv ls s"
proof (induction rule: broker_run.induct)
  case (broker_more ls s l s')
  then show ?case using calls_inv_step table_inv_run by blast
qed (simp add: calls_inv_def)

text \<open>A handler is never entered for a subscription that was cancelled before.\<close>

lemma cancelled_not_delivered:
  "broker_run ls s \<Longrightarrow> ls = xs @ Delivered p a t m # ys \<Longrightarrow> Unsubscribed a \<notin> set xs"
proof (induction arbitrary: ys rule: broker_run.induct)
  case (broker_more ls s l s')
  show ?case
  proof (cases ys rule: rev_cases)
    case Nil
    then have l: "l = Delivered p a t m" "ls = xs" using broker_more.prems by simp_all
    have "\<not> sub_done (store (mb s) ! a)" using broker_more.hyps(2) l(1)
      by cases (auto simp: Publish_loop_def split: if_splits)
    then show ?thesis using table_inv_run [OF broker_more.hyps(1)] l(2) by (auto simp: table_inv_def)
  next
    case (snoc ys' y)
    then show ?thesis using broker_more.IH [of ys'] broker_more.prems by simp
  qed
qed simp

text \<open>
  C36. \<open>Publish\<close> among any number of publishers and handlers that subscribe, unsubscribe and publish at any
  moment. A call works on the subscriptions of its topic at its start, in the order of subscription. It enters
  the handlers of a part of those its loop has passed, in that order, each at most once, with its topic and message; a
  subscription that it passed over has been cancelled, and one that was cancelled before its turn is not delivered
  to. A call that returns nil has passed all of them, so that every subscription that was not cancelled has received the message,
  whatever \<open>Queue\<close> it was made with (subscribers that share a queue do not share the messages). The first
  handler that fails ends the call with its error: the subscriptions behind it do not receive the message.
\<close>

theorem Publish_delivers:
  assumes "broker_run ls s" and "calls s p = Some c"
  shows "called_with p (p_topic c) (p_msg c) (p_subs c) ls
    \<and> subseq (delivered p ls) (passed c) \<and> distinct (delivered p ls)
    \<and> (\<forall>a t m. Delivered p a t m \<in> set ls \<longrightarrow> t = p_topic c \<and> m = p_msg c)
    \<and> (\<forall>a \<in> set (passed c). a \<in> set (delivered p ls) \<or> Unsubscribed a \<in> set ls)
    \<and> (\<forall>xs ys a t m. ls = xs @ Delivered p a t m # ys \<longrightarrow> Unsubscribed a \<notin> set xs)
    \<and> (p_place c = Publish_returned None \<longrightarrow> passed c = p_subs c)
    \<and> (\<forall>a e. Handler_returned p a (Some e) \<in> set ls \<longleftrightarrow>
         p_place c = Publish_returned (Some e) \<and> (\<exists>d as. delivered p ls = d @ [a] \<and> passed c = as @ [a]))"
proof -
  note table = table_inv_run [OF assms(1)]
  have c: "call_inv ls (mb s) p c" using calls_inv_run [OF assms(1)] assms(2) by (auto simp: calls_inv_def dest: spec [of _ p])
  then have snap: "called_with p (p_topic c) (p_msg c) (p_subs c) ls" and sub: "subseq (delivered p ls) (passed c)"
    by (simp_all add: call_inv_def)
  obtain xs ys where "ls = xs @ Publish_called p (p_topic c) (p_msg c) # ys" "p_subs c = subscribed (p_topic c) xs"
    using snap unfolding called_with_def by blast
  moreover have "distinct (subscribed (p_topic c) ls)" using table by (simp add: table_inv_def)
  ultimately have "distinct (p_subs c)" by simp
  then have dist: "distinct (delivered p ls)" using sub by (auto simp: passed_def subseq_conv_nths intro: distinct_nthsI)
  have "Unsubscribed a \<in> set ls" if "a \<in> set (passed c)" "sub_done (store (mb s) ! a)" for a
    using that table call_subs_stored [OF table c passed_subs] by (simp add: table_inv_def)
  then have "\<forall>a \<in> set (passed c). a \<in> set (delivered p ls) \<or> Unsubscribed a \<in> set ls"
    using c unfolding call_inv_def by blast
  moreover have "\<forall>xs ys a t m. ls = xs @ Delivered p a t m # ys \<longrightarrow> Unsubscribed a \<notin> set xs"
    using cancelled_not_delivered [OF assms(1)] by blast
  ultimately show ?thesis using c snap sub dist unfolding call_inv_def by (simp only:) simp
qed

text \<open>Two subscribers of one queue: the handler of the first cancels the second while the message is under way.\<close>

theorem Publish_delivers_witness:
  "\<exists>ls (s :: (unit, nat) brokerRun) c. broker_run ls s \<and> calls s 0 = Some c \<and> p_place c = Publish_returned None \<and> p_subs c = [0, 1]
     \<and> passed c = p_subs c \<and> delivered 0 ls = [0] \<and> (\<forall>a \<in> set (passed c). a = 0 \<or> Unsubscribed a \<in> set ls)"
proof -
  define o1 where "o1 d = \<lparr>sub_topic = ''t'', handler = (), autoAck = True, sub_done = d\<rparr>" for d
  define b where "b d = \<lparr>subs = (\<lambda>_. [])(''t'' := [0, 1]), store = [o1 False, o1 d]\<rparr>" for d
  define c where "c n p = \<lparr>p_topic = ''t'', p_msg = 7 :: nat, p_subs = [0, 1], p_next = n, p_place = p\<rparr>" for n p
  define st where "st d n p = \<lparr>mb = b d, calls = [0 \<mapsto> c n p]\<rparr>" for d n p
  note defs = st_def c_def b_def o1_def Publish_loop_def Publish_handled_def Unsubscribe_def Publish_def
  define b1 where "b1 = \<lparr>subs = (\<lambda>_. [])(''t'' := [0]), store = [o1 False]\<rparr>"
  let ?no = "Map.empty :: nat \<rightharpoonup> nat publishing"
  let ?ls0 = "(([] @ [Subscribed 0 ''t'']) @ [Subscribed 1 ''t'']) @ [Publish_called 0 ''t'' 7]"
  have "broker_step \<lparr>mb = New_memory, calls = ?no\<rparr> (Subscribed 0 ''t'') \<lparr>mb = b1, calls = ?no\<rparr>"
    using subscribes [of "\<lparr>mb = New_memory, calls = ?no\<rparr>" "''t''" "()" "[WithQueue ''q'']" 0 b1]
    by (simp add: b1_def Subscribe_def New_memory_def o1_def)
  moreover have "broker_step \<lparr>mb = b1, calls = ?no\<rparr> (Subscribed 1 ''t'') \<lparr>mb = b False, calls = ?no\<rparr>"
    using subscribes [of "\<lparr>mb = b1, calls = ?no\<rparr>" "''t''" "()" "[WithQueue ''q'']" 1 "b False"]
    by (simp add: b1_def Subscribe_def b_def o1_def)
  ultimately have "broker_run (([] @ [Subscribed 0 ''t'']) @ [Subscribed 1 ''t'']) \<lparr>mb = b False, calls = ?no\<rparr>"
    by (blast intro: broker_new broker_more)
  from broker_more [OF this publishes, of 0 "''t''" 7]
  have r0: "broker_run ?ls0 (st False 0 At_done)" by (simp add: defs)
  have s1: "broker_step (st False 0 At_done) (Delivered 0 0 ''t'' 7) (st False 0 In_handler)"
    using loops [of "st False 0 At_done" 0 "c 0 At_done" "c 0 In_handler" "Delivered 0 0 ''t'' 7"] by (simp add: defs)
  have s2: "broker_step (st False 0 In_handler) (Unsubscribed 1) (st True 0 In_handler)"
    using unsubscribes [of 1 "st False 0 In_handler"] by (simp add: defs)
  have s3: "broker_step (st True 0 In_handler) (Handler_returned 0 0 None) (st True 1 At_done)"
    using handled [of "st True 0 In_handler" 0 "c 0 In_handler" None] by (simp add: defs)
  have s4: "broker_step (st True 1 At_done) (Looped 0) (st True 2 At_done)"
    using loops [of "st True 1 At_done" 0 "c 1 At_done" "c 2 At_done" "Looped 0"] by (simp add: defs)
  have s5: "broker_step (st True 2 At_done) (Looped 0) (st True 2 (Publish_returned None))"
    using loops [of "st True 2 At_done" 0 "c 2 At_done" "c 2 (Publish_returned None)" "Looped 0"] by (simp add: defs)
  have run: "broker_run (((((?ls0 @ [Delivered 0 0 ''t'' 7]) @ [Unsubscribed 1]) @ [Handler_returned 0 0 None])
      @ [Looped 0]) @ [Looped 0]) (st True 2 (Publish_returned None))" (is "broker_run ?ls ?s")
    by (rule broker_more [OF broker_more [OF broker_more [OF broker_more [OF broker_more [OF r0 s1] s2] s3] s4] s5])
  have call: "calls ?s 0 = Some (c 2 (Publish_returned None))" by (simp add: st_def)
  have d: "delivered 0 ?ls = [0]" by simp
  have p: "p_place (c 2 (Publish_returned None)) = Publish_returned None" "p_subs (c 2 (Publish_returned None)) = [0, 1]"
    by (simp_all add: c_def)
  note claim = Publish_delivers [OF run call, THEN conjunct2, THEN conjunct2, THEN conjunct2, THEN conjunct2]
  have all: "passed (c 2 (Publish_returned None)) = p_subs (c 2 (Publish_returned None))"
    and got: "\<forall>a \<in> set (passed (c 2 (Publish_returned None))). a \<in> set (delivered 0 ?ls) \<or> Unsubscribed a \<in> set ?ls"
    using claim [THEN conjunct2, THEN conjunct2, THEN conjunct1] claim [THEN conjunct1] p(1) by simp_all
  from got have "\<forall>a \<in> set (passed (c 2 (Publish_returned None))). a = 0 \<or> Unsubscribed a \<in> set ?ls" unfolding d by simp
  then show ?thesis
    by - (rule exI [of _ ?ls], rule exI [of _ ?s], rule exI [of _ "c 2 (Publish_returned None)"], intro conjI run call p all d)
qed

lemma Subscribe_ignores_queue: "Subscribe b topic h (WithQueue q # opts) = Subscribe b topic h opts"
proof -
  have one: "AutoAck (apply_subscribeOption x o1) = AutoAck (apply_subscribeOption x o2)" if "AutoAck o1 = AutoAck o2" for x o1 o2
    using that by (cases x) simp_all
  have all: "AutoAck o1 = AutoAck o2 \<Longrightarrow> AutoAck (fold apply_subscribeOption opts o1) = AutoAck (fold apply_subscribeOption opts o2)"
    for o1 o2
  proof (induction opts arbitrary: o1 o2)
    case (Cons x opts)
    show ?case using Cons.IH [OF one [OF Cons.prems]] by simp
  qed simp
  show ?thesis by (simp add: Subscribe_def all [of "\<lparr>Queue = q, AutoAck = True, Concurrency = 0\<rparr>" "\<lparr>Queue = [], AutoAck = True, Concurrency = 0\<rparr>"])
qed

text \<open>\<open>Unsubscribe\<close> leaves the subscription in the list of its topic for good: the list has one entry for every one there ever was.\<close>

lemma Unsubscribe_keeps_entry: "subs (Unsubscribe b a) = subs b"
  by (simp add: Unsubscribe_def)

lemma Subscribe_adds_entry: "length (subs (snd (Subscribe b topic h opts)) topic) = Suc (length (subs b topic))"
  by (simp add: Subscribe_def Let_def)

end
