(* ===== verification/HttpBinding.thy ===== *)
theory HttpBinding
  imports Errno GoStrings "HOL-Library.AList"
begin

text \<open>
  \<open>pkg/codec\<close> (binding a protobuf message from path, query and body, and building a path from a message) and the
  path templates of \<open>pkg/server/service.go\<close>. The descriptors of the generated messages, the formatting and
  parsing of floating-point numbers, \<open>Value.String\<close> of the protobuf library and the router's path parameters
  are parameters.
\<close>

section \<open>Path templates\<close>

text \<open>What stands between the brace at the head of a template and the next closing brace, and what follows it.\<close>

definition placeholder_split :: "string \<Rightarrow> (string \<times> string) option" where
  "placeholder_split cs =
     (if CHR ''}'' \<in> set cs then Some (takeWhile (\<lambda>c. c \<noteq> CHR ''}'') cs, tl (dropWhile (\<lambda>c. c \<noteq> CHR ''}'') cs)) else None)"

lemma placeholder_split_length: "placeholder_split cs = Some (p, rest) \<Longrightarrow> length rest < length cs"
proof -
  assume "placeholder_split cs = Some (p, rest)"
  then have r: "rest = tl (dropWhile (\<lambda>c. c \<noteq> CHR ''}'') cs)" "cs \<noteq> []" by (auto simp: placeholder_split_def split: if_splits)
  have "length (dropWhile (\<lambda>c. c \<noteq> CHR ''}'') cs) \<le> length cs" by (rule length_dropWhile_le)
  moreover have "0 < length cs" using r(2) by simp
  ultimately show ?thesis unfolding r(1) length_tl by linarith
qed

definition before_eq :: "string \<Rightarrow> string" where
  "before_eq p = takeWhile (\<lambda>c. c \<noteq> CHR ''='') p"

function pathFields :: "string \<Rightarrow> string list" where
  "pathFields [] = []"
| "pathFields (c # cs) =
     (if c \<noteq> CHR ''{'' then pathFields cs
      else case placeholder_split cs of
             None \<Rightarrow> []
           | Some (p, rest) \<Rightarrow> (let field = before_eq p in if field \<noteq> [] then field # pathFields rest else pathFields rest))"
  by pat_completeness auto
termination by (relation "measure length") (auto dest: placeholder_split_length)

function ginStylePath :: "string \<Rightarrow> string" where
  "ginStylePath [] = []"
| "ginStylePath (c # cs) =
     (if c \<noteq> CHR ''{'' then c # ginStylePath cs
      else case placeholder_split cs of
             None \<Rightarrow> c # ginStylePath cs
           | Some (p, rest) \<Rightarrow>
               (if CHR ''='' \<in> set p then CHR ''*'' # before_eq p else CHR '':'' # p) @ ginStylePath rest)"
  by pat_completeness auto
termination by (relation "measure length") (auto dest: placeholder_split_length)

section \<open>Messages\<close>

datatype kind = StringKind | BytesKind | BoolKind | Int32Kind | Int64Kind | Uint32Kind | Uint64Kind
  | FloatKind | DoubleKind | EnumKind | MessageKind | GroupKind

record fieldDesc =
  fname :: string
  jsonName :: string
  fkind :: kind
  isList :: bool
  isMap :: bool
  enumValues :: "(string \<times> int) list"
  messageType :: string
  hasPresence :: bool

text \<open>The fields of every message type.\<close>

type_synonym schema = "string \<Rightarrow> fieldDesc list"

datatype pvalue = VString string | VBytes string | VBool bool | VInt int | VUint int | VFloat float64 | VEnum int
  | VList "pvalue list" | VMsg "(string \<times> pvalue) list"

text \<open>A message is its populated fields, by name.\<close>

type_synonym message = "(string \<times> pvalue) list"

definition find_field :: "fieldDesc list \<Rightarrow> string \<Rightarrow> fieldDesc option" where
  "find_field fs n =
     (case find (\<lambda>f. fname f = n) fs of None \<Rightarrow> find (\<lambda>f. jsonName f = n) fs | Some f \<Rightarrow> Some f)"

fun is_zero :: "pvalue \<Rightarrow> bool" where
  "is_zero (VString s) \<longleftrightarrow> s = []"
| "is_zero (VBytes s) \<longleftrightarrow> s = []"
| "is_zero (VBool b) \<longleftrightarrow> \<not> b"
| "is_zero (VInt n) \<longleftrightarrow> n = 0"
| "is_zero (VUint n) \<longleftrightarrow> n = 0"
| "is_zero (VFloat x) \<longleftrightarrow> x = 0"
| "is_zero (VEnum n) \<longleftrightarrow> n = 0"
| "is_zero (VList vs) \<longleftrightarrow> vs = []"
| "is_zero (VMsg m) \<longleftrightarrow> False"

text \<open>\<open>m.Set\<close>: a field without presence that is set to its zero value is not populated.\<close>

definition msg_Set :: "message \<Rightarrow> fieldDesc \<Rightarrow> pvalue \<Rightarrow> message" where
  "msg_Set m f v = (if \<not> hasPresence f \<and> is_zero v then AList.delete (fname f) m else AList.update (fname f) v m)"

definition msg_Has :: "message \<Rightarrow> fieldDesc \<Rightarrow> bool" where
  "msg_Has m f \<longleftrightarrow> map_of m (fname f) \<noteq> None"

text \<open>The parts of the libraries that the code relies on and that are not modelled.\<close>

record textLib =
  parseFloat :: "nat \<Rightarrow> string \<Rightarrow> float64 option"
  formatFloat :: "nat \<Rightarrow> float64 \<Rightarrow> string"
  valueString :: "pvalue \<Rightarrow> string"

section \<open>Scalars\<close>

text \<open>\<open>ParseInt\<close> and \<open>ParseUint\<close> in base 10 at a width, and \<open>ParseBool\<close>; \<open>None\<close> is an error.\<close>

definition ParseInt :: "nat \<Rightarrow> string \<Rightarrow> int option" where
  "ParseInt bits s =
     (let neg = (s \<noteq> [] \<and> hd s = CHR ''-'');
          ds = (if s \<noteq> [] \<and> (hd s = CHR ''-'' \<or> hd s = CHR ''+'') then tl s else s);
          n = digits_value ds; v = (if neg then - n else n)
      in if ds \<noteq> [] \<and> list_all is_digit ds \<and> - (2 ^ (bits - 1)) \<le> v \<and> v < 2 ^ (bits - 1) then Some v else None)"

definition ParseUint :: "nat \<Rightarrow> string \<Rightarrow> int option" where
  "ParseUint bits s = (if s \<noteq> [] \<and> list_all is_digit s \<and> digits_value s < 2 ^ bits then Some (digits_value s) else None)"

definition ParseBool :: "string \<Rightarrow> bool option" where
  "ParseBool s =
     (if s \<in> {''1'', ''t'', ''T'', ''TRUE'', ''true'', ''True''} then Some True
      else if s \<in> {''0'', ''f'', ''F'', ''FALSE'', ''false'', ''False''} then Some False
      else None)"

definition parsed :: "string \<Rightarrow> 'a option \<Rightarrow> ('a \<Rightarrow> pvalue) \<Rightarrow> err + pvalue" where
  "parsed what r mk = (case r of None \<Rightarrow> Inl (ErrString what) | Some x \<Rightarrow> Inr (mk x))"

definition parseScalar :: "textLib \<Rightarrow> fieldDesc \<Rightarrow> string \<Rightarrow> err + pvalue" where
  "parseScalar lib field s =
     (case fkind field of
        StringKind \<Rightarrow> Inr (VString s)
      | BytesKind \<Rightarrow> Inr (VBytes s)
      | BoolKind \<Rightarrow> parsed ''parse bool'' (ParseBool s) VBool
      | Int32Kind \<Rightarrow> parsed ''parse int32'' (ParseInt 32 s) VInt
      | Int64Kind \<Rightarrow> parsed ''parse int64'' (ParseInt 64 s) VInt
      | Uint32Kind \<Rightarrow> parsed ''parse uint32'' (ParseUint 32 s) VUint
      | Uint64Kind \<Rightarrow> parsed ''parse uint64'' (ParseUint 64 s) VUint
      | FloatKind \<Rightarrow> parsed ''parse float'' (parseFloat lib 32 s) VFloat
      | DoubleKind \<Rightarrow> parsed ''parse double'' (parseFloat lib 64 s) VFloat
      | EnumKind \<Rightarrow> parsed (''unknown enum value '' @ s) (map_of (enumValues field) s) VEnum
      | _ \<Rightarrow> Inl (ErrString ''unsupported field kind''))"

text \<open>\<open>scalarString\<close>: the descriptor of an enum number that the schema does not declare is nil, and naming it panics.\<close>

definition FormatBool :: "bool \<Rightarrow> string" where
  "FormatBool b = (if b then ''true'' else ''false'')"

definition scalarString :: "textLib \<Rightarrow> fieldDesc \<Rightarrow> pvalue \<Rightarrow> string go" where
  "scalarString lib field v =
     (case (fkind field, v) of
        (EnumKind, VEnum n) \<Rightarrow>
          (case find (\<lambda>p. snd p = n) (enumValues field) of
             None \<Rightarrow> Inl (Panic ''invalid memory address or nil pointer dereference'')
           | Some (name, _) \<Rightarrow> Inr name)
      | (BoolKind, VBool b) \<Rightarrow> Inr (FormatBool b)
      | (Int32Kind, VInt n) \<Rightarrow> Inr (Itoa n)
      | (Int64Kind, VInt n) \<Rightarrow> Inr (Itoa n)
      | (Uint32Kind, VUint n) \<Rightarrow> Inr (Itoa n)
      | (Uint64Kind, VUint n) \<Rightarrow> Inr (Itoa n)
      | (FloatKind, VFloat x) \<Rightarrow> Inr (formatFloat lib 32 x)
      | (DoubleKind, VFloat x) \<Rightarrow> Inr (formatFloat lib 64 x)
      | (StringKind, VString s) \<Rightarrow> Inr s
      | _ \<Rightarrow> Inr (valueString lib v))"

section \<open>Populating a message\<close>

definition setScalar :: "textLib \<Rightarrow> message \<Rightarrow> fieldDesc \<Rightarrow> string \<Rightarrow> err + message" where
  "setScalar lib m field s = (case parseScalar lib field s of Inl e \<Rightarrow> Inl e | Inr v \<Rightarrow> Inr (msg_Set m field v))"

fun append_items :: "textLib \<Rightarrow> fieldDesc \<Rightarrow> string list \<Rightarrow> pvalue list \<Rightarrow> err + pvalue list" where
  "append_items lib field [] vs = Inr vs"
| "append_items lib field (item # items) vs =
     (case parseScalar lib field (TrimSpace item) of Inl e \<Rightarrow> Inl e | Inr v \<Rightarrow> append_items lib field items (vs @ [v]))"

definition list_of :: "pvalue option \<Rightarrow> pvalue list" where
  "list_of v = (case v of Some (VList vs) \<Rightarrow> vs | _ \<Rightarrow> [])"

definition populateList :: "textLib \<Rightarrow> message \<Rightarrow> fieldDesc \<Rightarrow> string \<Rightarrow> err + message" where
  "populateList lib m field s =
     (if s = [] then Inr m
      else case append_items lib field (Split s (CHR '','')) (list_of (map_of m (fname field))) of
             Inl e \<Rightarrow> Inl e
           | Inr vs \<Rightarrow> Inr (AList.update (fname field) (VList vs) m))"

definition message_of :: "pvalue option \<Rightarrow> message" where
  "message_of v = (case v of Some (VMsg m) \<Rightarrow> m | _ \<Rightarrow> [])"

text \<open>
  \<open>Mutable(field).Message()\<close> and \<open>Get(field).Message()\<close> of a field that is repeated or a map panic in the
  protobuf library: its value is a list or a map.
\<close>

definition not_a_message :: go_panic where
  "not_a_message = Panic ''type mismatch: cannot convert to message''"

fun populate_parts :: "textLib \<Rightarrow> schema \<Rightarrow> string \<Rightarrow> message \<Rightarrow> string list \<Rightarrow> string \<Rightarrow> (err + message) go" where
  "populate_parts lib sch ty m [] s = Inr (Inr m)"
| "populate_parts lib sch ty m (part # parts) s =
     (case find_field (sch ty) part of
        None \<Rightarrow> Inr (Inr m)
      | Some field \<Rightarrow>
          if parts \<noteq> [] then
            (if fkind field \<noteq> MessageKind then Inr (Inl (ErrString (''field '' @ part @ '' is not a message'')))
             else if isList field \<or> isMap field then Inl not_a_message
             else case populate_parts lib sch (messageType field) (message_of (map_of m (fname field))) parts s of
                    Inl p \<Rightarrow> Inl p
                  | Inr (Inl e) \<Rightarrow> Inr (Inl e)
                  | Inr (Inr sub) \<Rightarrow> Inr (Inr (AList.update (fname field) (VMsg sub) m)))
          else if isList field then Inr (populateList lib m field s)
          else Inr (setScalar lib m field s))"

definition populateField :: "textLib \<Rightarrow> schema \<Rightarrow> string \<Rightarrow> message \<Rightarrow> string \<Rightarrow> string \<Rightarrow> (err + message) go" where
  "populateField lib sch ty m name s = populate_parts lib sch ty m (Split name (CHR ''.'')) s"

text \<open>An error with what was being done in front of its text.\<close>

definition wrapped :: "string \<Rightarrow> err \<Rightarrow> err" where
  "wrapped what e = (case e of ErrString s \<Rightarrow> ErrString (what @ '': '' @ s) | _ \<Rightarrow> ErrString what)"

fun BindPath_loop :: "textLib \<Rightarrow> schema \<Rightarrow> string \<Rightarrow> (string \<Rightarrow> string) \<Rightarrow> message \<Rightarrow> string list \<Rightarrow> (err + message) go" where
  "BindPath_loop lib sch ty param m [] = Inr (Inr m)"
| "BindPath_loop lib sch ty param m (field # names) =
     (case populateField lib sch ty m field (param field) of
        Inl p \<Rightarrow> Inl p
      | Inr (Inl e) \<Rightarrow> Inr (Inl (wrapped (''codec: bind path param '' @ field) e))
      | Inr (Inr m) \<Rightarrow> BindPath_loop lib sch ty param m names)"

definition BindPath :: "textLib \<Rightarrow> schema \<Rightarrow> string \<Rightarrow> (string \<Rightarrow> string) \<Rightarrow> message \<Rightarrow> string \<Rightarrow> (err + message) go" where
  "BindPath lib sch ty param m template = BindPath_loop lib sch ty param m (pathFields template)"

text \<open>The query as its keys with their non-empty lists of values, in the order in which the loop visits them.\<close>

fun BindQuery :: "textLib \<Rightarrow> schema \<Rightarrow> string \<Rightarrow> message \<Rightarrow> (string \<times> string list) list \<Rightarrow> (err + message) go" where
  "BindQuery lib sch ty m [] = Inr (Inr m)"
| "BindQuery lib sch ty m ((key, vals) # q) =
     (case populateField lib sch ty m key (last vals) of
        Inl p \<Rightarrow> Inl p
      | Inr (Inl e) \<Rightarrow> Inr (Inl (wrapped (''codec: bind query param '' @ key) e))
      | Inr (Inr m) \<Rightarrow> BindQuery lib sch ty m q)"

text \<open>\<open>unmarshal\<close> is what the codec of the content type makes of the body, on top of the message so far.\<close>

definition BindHTTP :: "textLib \<Rightarrow> schema \<Rightarrow> string \<Rightarrow> (string \<Rightarrow> string) \<Rightarrow> (string \<times> string list) list
    \<Rightarrow> (message \<Rightarrow> err + message) \<Rightarrow> message \<Rightarrow> string \<Rightarrow> string \<Rightarrow> (err + message) go" where
  "BindHTTP lib sch ty param query unmarshal m template body =
     (case (if template \<noteq> [] then BindPath lib sch ty param m template else Inr (Inr m)) of
        Inr (Inr m) \<Rightarrow>
          (case BindQuery lib sch ty m query of
             Inr (Inr m) \<Rightarrow> if body = ''*'' then Inr (unmarshal m) else Inr (Inr m)
           | r \<Rightarrow> r)
      | r \<Rightarrow> r)"

datatype marshaler = JSON | Proto

definition FromContentType :: "string \<Rightarrow> marshaler" where
  "FromContentType ct =
     (if ct \<in> {''application/x-protobuf'', ''application/protobuf'', ''application/vnd.google.protobuf''} then Proto else JSON)"

definition Contains :: "string \<Rightarrow> string \<Rightarrow> bool" where
  "Contains s sub \<longleftrightarrow> list_ex (\<lambda>i. take (length sub) (drop i s) = sub) [0..<Suc (length s)]"

definition FromAccept :: "string \<Rightarrow> marshaler" where
  "FromAccept accept = (if Contains accept ''protobuf'' \<or> Contains accept ''octet-stream'' then Proto else JSON)"

section \<open>Building a path\<close>

fun field_parts :: "textLib \<Rightarrow> schema \<Rightarrow> string \<Rightarrow> message \<Rightarrow> string list \<Rightarrow> (err + string) go" where
  "field_parts lib sch ty m [] = Inr (Inr [])"
| "field_parts lib sch ty m (part # parts) =
     (case find_field (sch ty) part of
        None \<Rightarrow> Inr (Inl (ErrString (''unknown field '' @ part)))
      | Some field \<Rightarrow>
          if parts \<noteq> [] then
            (if fkind field \<noteq> MessageKind then Inr (Inl (ErrString (''field '' @ part @ '' is not a message'')))
             else if isList field \<or> isMap field then Inl not_a_message
             else field_parts lib sch (messageType field) (message_of (map_of m (fname field))) parts)
          else if isList field \<or> isMap field then Inr (Inl (ErrString (''field '' @ part @ '' is not a scalar'')))
          else case map_of m (fname field) of
                 None \<Rightarrow> Inr (Inr [])
               | Some v \<Rightarrow> (case scalarString lib field v of Inl p \<Rightarrow> Inl p | Inr s \<Rightarrow> Inr (Inr s)))"

definition fieldString :: "textLib \<Rightarrow> schema \<Rightarrow> string \<Rightarrow> message \<Rightarrow> string \<Rightarrow> (err + string) go" where
  "fieldString lib sch ty m name = field_parts lib sch ty m (Split name (CHR ''.''))"

text \<open>Continue with a string that was written, or with the error or panic.\<close>

definition written :: "(err + string) go \<Rightarrow> (string \<Rightarrow> string) \<Rightarrow> (err + string) go" where
  "written r f = (case r of Inl p \<Rightarrow> Inl p | Inr (Inl e) \<Rightarrow> Inr (Inl e) | Inr (Inr s) \<Rightarrow> Inr (Inr (f s)))"

function BuildPath :: "textLib \<Rightarrow> schema \<Rightarrow> string \<Rightarrow> string \<Rightarrow> message \<Rightarrow> (err + string) go" where
  "BuildPath lib sch ty [] m = Inr (Inr [])"
| "BuildPath lib sch ty (c # cs) m =
     (if c \<noteq> CHR ''{'' then written (BuildPath lib sch ty cs m) ((#) c)
      else case placeholder_split cs of
             None \<Rightarrow> written (BuildPath lib sch ty cs m) ((#) c)
           | Some (p, rest) \<Rightarrow>
               (case fieldString lib sch ty m (before_eq p) of
                  Inl pan \<Rightarrow> Inl pan
                | Inr (Inl e) \<Rightarrow> Inr (Inl (wrapped (''codec: build path param '' @ before_eq p) e))
                | Inr (Inr val) \<Rightarrow> written (BuildPath lib sch ty rest m) ((@) val)))"
  by pat_completeness auto
termination by (relation "measure (\<lambda>(lib, sch, ty, t, m). length t)") (auto dest: placeholder_split_length)


section \<open>Templates made of segments\<close>

text \<open>A template as it is meant: literal text without an opening brace, and placeholders with an optional pattern.\<close>

datatype segment = Lit string | Hole string "string option"

fun seg_ok :: "segment \<Rightarrow> bool" where
  "seg_ok (Lit s) \<longleftrightarrow> CHR ''{'' \<notin> set s"
| "seg_ok (Hole f g) \<longleftrightarrow> f \<noteq> [] \<and> CHR ''}'' \<notin> set f \<and> CHR ''='' \<notin> set f \<and> CHR ''}'' \<notin> set (slice_of g)"

fun seg_text :: "segment \<Rightarrow> string" where
  "seg_text (Lit s) = s"
| "seg_text (Hole f None) = CHR ''{'' # f @ ''}''"
| "seg_text (Hole f (Some g)) = CHR ''{'' # f @ CHR ''='' # g @ ''}''"

definition template_text :: "segment list \<Rightarrow> string" where
  "template_text segs = concat (map seg_text segs)"

definition holes :: "segment list \<Rightarrow> string list" where
  "holes segs = concat (map (\<lambda>s. case s of Lit _ \<Rightarrow> [] | Hole f _ \<Rightarrow> [f]) segs)"

fun gin_text :: "segment \<Rightarrow> string" where
  "gin_text (Lit s) = s"
| "gin_text (Hole f None) = CHR '':'' # f"
| "gin_text (Hole f (Some g)) = CHR ''*'' # f"

lemma placeholder_split_append:
  "CHR ''}'' \<notin> set p \<Longrightarrow> placeholder_split (p @ CHR ''}'' # rest) = Some (p, rest)"
proof -
  assume a: "CHR ''}'' \<notin> set p"
  then have "takeWhile (\<lambda>c. c \<noteq> CHR ''}'') (p @ CHR ''}'' # rest) = p"
    "dropWhile (\<lambda>c. c \<noteq> CHR ''}'') (p @ CHR ''}'' # rest) = CHR ''}'' # rest"
    by (induction p) auto
  then show ?thesis by (simp add: placeholder_split_def)
qed

lemma before_eq_simps [simp]:
  "CHR ''='' \<notin> set f \<Longrightarrow> before_eq f = f" "CHR ''='' \<notin> set f \<Longrightarrow> before_eq (f @ CHR ''='' # g) = f"
  by (induction f) (auto simp: before_eq_def)

text \<open>The text of a hole without its opening brace.\<close>

definition hole_body :: "string \<Rightarrow> string option \<Rightarrow> string" where
  "hole_body f g = f @ (case g of None \<Rightarrow> [] | Some p \<Rightarrow> CHR ''='' # p)"

lemma seg_text_Hole: "seg_text (Hole f g) @ rest = CHR ''{'' # hole_body f g @ CHR ''}'' # rest"
  by (cases g) (simp_all add: hole_body_def)

lemma hole_split:
  assumes "seg_ok (Hole f g)"
  shows "placeholder_split (hole_body f g @ CHR ''}'' # rest) = Some (hole_body f g, rest)" "before_eq (hole_body f g) = f"
    "CHR ''='' \<in> set (hole_body f g) \<longleftrightarrow> g \<noteq> None"
proof -
  have "CHR ''}'' \<notin> set (hole_body f g)" using assms by (cases g) (auto simp: hole_body_def)
  then show "placeholder_split (hole_body f g @ CHR ''}'' # rest) = Some (hole_body f g, rest)"
    by (rule placeholder_split_append)
  show "before_eq (hole_body f g) = f" "CHR ''='' \<in> set (hole_body f g) \<longleftrightarrow> g \<noteq> None"
    using assms by (cases g; simp add: hole_body_def)+
qed

lemma template_text_simps [simp]:
  "template_text [] = []" "template_text (s # segs) = seg_text s @ template_text segs"
  by (simp_all add: template_text_def)

lemma pathFields_lit: "CHR ''{'' \<notin> set s \<Longrightarrow> pathFields (s @ t) = pathFields t"
  by (induction s) auto

lemma ginStylePath_lit: "CHR ''{'' \<notin> set s \<Longrightarrow> ginStylePath (s @ t) = s @ ginStylePath t"
  by (induction s) auto

lemma written_written [simp]: "written (written r f) g = written r (g \<circ> f)"
  by (simp add: written_def split: sum.split)

lemma BuildPath_lit: "CHR ''{'' \<notin> set s \<Longrightarrow> BuildPath lib sch ty (s @ t) m = written (BuildPath lib sch ty t m) ((@) s)"
proof (induction s)
  case Nil
  show ?case by (simp add: written_def split: sum.split)
next
  case (Cons c s)
  then show ?case by (auto simp: o_def)
qed

lemma pathFields_template: "list_all seg_ok segs \<Longrightarrow> pathFields (template_text segs) = holes segs"
proof (induction segs)
  case (Cons s segs)
  show ?case
  proof (cases s)
    case (Lit t)
    then show ?thesis using Cons by (simp add: holes_def pathFields_lit)
  next
    case (Hole f g)
    then show ?thesis using Cons hole_split(1) [of f g "template_text segs"] hole_split(2,3) [of f g]
      by (simp add: holes_def seg_text_Hole del: seg_text.simps(2,3))
  qed
qed (simp add: holes_def)

lemma ginStylePath_template: "list_all seg_ok segs \<Longrightarrow> ginStylePath (template_text segs) = concat (map gin_text segs)"
proof (induction segs)
  case (Cons s segs)
  show ?case
  proof (cases s)
    case (Lit t)
    then show ?thesis using Cons by (simp add: ginStylePath_lit)
  next
    case (Hole f g)
    then show ?thesis using Cons hole_split(1) [of f g "template_text segs"] hole_split(2,3) [of f g]
      by (cases g) (simp_all add: seg_text_Hole hole_body_def del: seg_text.simps(2,3))
  qed
qed simp

text \<open>A template with an empty placeholder, which the comment says is kept literally, becomes a nameless parameter.\<close>

lemma ginStylePath_empty_placeholder: "ginStylePath ''/a/{}'' = ''/a/:''"
  by code_simp

section \<open>Round trips of scalars\<close>

fun scalar_of_kind :: "fieldDesc \<Rightarrow> pvalue \<Rightarrow> bool" where
  "scalar_of_kind f (VString s) \<longleftrightarrow> fkind f = StringKind"
| "scalar_of_kind f (VBool b) \<longleftrightarrow> fkind f = BoolKind"
| "scalar_of_kind f (VInt n) \<longleftrightarrow>
     fkind f = Int32Kind \<and> - (2 ^ 31) \<le> n \<and> n < 2 ^ 31 \<or> fkind f = Int64Kind \<and> - (2 ^ 63) \<le> n \<and> n < 2 ^ 63"
| "scalar_of_kind f (VUint n) \<longleftrightarrow>
     fkind f = Uint32Kind \<and> 0 \<le> n \<and> n < 2 ^ 32 \<or> fkind f = Uint64Kind \<and> 0 \<le> n \<and> n < 2 ^ 64"
| "scalar_of_kind f (VEnum n) \<longleftrightarrow> fkind f = EnumKind \<and> n \<in> snd ` set (enumValues f) \<and> distinct (map fst (enumValues f))"
| "scalar_of_kind f _ \<longleftrightarrow> False"

lemma Itoa_nat_all_digits: "list_all is_digit (Itoa_nat n)" "Itoa_nat n \<noteq> []" "hd (Itoa_nat n) \<notin> {CHR ''-'', CHR ''+''}"
proof -
  note d = Itoa_nat_digits [of n]
  show "list_all is_digit (Itoa_nat n)" "Itoa_nat n \<noteq> []" using d by (auto simp: list_all_iff digit_char_simps)
  obtain k where "k < 10" "hd (Itoa_nat n) = digit_char k" using d by (meson hd_in_set)
  then show "hd (Itoa_nat n) \<notin> {CHR ''-'', CHR ''+''}" using digit_char_simps(4,6) by simp
qed

lemma ParseInt_Itoa: "- (2 ^ (bits - 1)) \<le> n \<Longrightarrow> n < 2 ^ (bits - 1) \<Longrightarrow> ParseInt bits (Itoa n) = Some n"
  using Itoa_nat_all_digits [of "nat n"] Itoa_nat_all_digits [of "nat (- n)"]
  by (cases "n < 0") (simp_all add: ParseInt_def Itoa_def Let_def digits_value_Itoa_nat)

lemma ParseUint_Itoa: "0 \<le> n \<Longrightarrow> n < 2 ^ bits \<Longrightarrow> ParseUint bits (Itoa n) = Some n"
  using Itoa_nat_all_digits [of "nat n"] by (simp add: ParseUint_def Itoa_def digits_value_Itoa_nat)

lemma find_snd_map_of:
  assumes "n \<in> snd ` set xs" "distinct (map fst xs)"
  obtains k where "find (\<lambda>p. snd p = n) xs = Some (k, n)" "map_of xs k = Some n"
proof -
  obtain p where p: "find (\<lambda>p. snd p = n) xs = Some p"
    using assms(1) by (cases "find (\<lambda>p. snd p = n) xs") (auto simp: find_None_iff)
  then have "p \<in> set xs" "snd p = n" by (auto simp: find_Some_iff)
  then show ?thesis using p assms(2) that [of "fst p"] by (auto simp: map_of_is_SomeI prod_eq_iff)
qed

lemma parseScalar_scalarString:
  assumes "scalar_of_kind f v"
  obtains s where "scalarString lib f v = Inr s" "parseScalar lib f s = Inr v"
proof (cases v)
  case (VEnum n)
  then have e: "n \<in> snd ` set (enumValues f)" "distinct (map fst (enumValues f))" using assms by simp_all
  obtain k where "find (\<lambda>p. snd p = n) (enumValues f) = Some (k, n)" "map_of (enumValues f) k = Some n"
    by (rule find_snd_map_of [OF e])
  then show ?thesis using that [of k] assms VEnum by (simp add: scalarString_def parseScalar_def parsed_def)
next
  case (VInt n)
  then show ?thesis using that [of "Itoa n"] assms ParseInt_Itoa [of 32 n] ParseInt_Itoa [of 64 n]
    by (auto simp: scalarString_def parseScalar_def parsed_def)
next
  case (VUint n)
  then show ?thesis using that [of "Itoa n"] assms ParseUint_Itoa [of n 32] ParseUint_Itoa [of n 64]
    by (auto simp: scalarString_def parseScalar_def parsed_def)
next
  case (VBool b)
  then show ?thesis using that [of "FormatBool b"] assms
    by (cases b) (simp_all add: scalarString_def parseScalar_def parsed_def FormatBool_def ParseBool_def)
qed (use assms that in \<open>auto simp: scalarString_def parseScalar_def parsed_def\<close>)


section \<open>A path that is built binds back\<close>

definition path_field :: "schema \<Rightarrow> string \<Rightarrow> message \<Rightarrow> string \<Rightarrow> bool" where
  "path_field sch ty m f \<longleftrightarrow> CHR ''.'' \<notin> set f
     \<and> (case find_field (sch ty) f of
          None \<Rightarrow> False
        | Some fd \<Rightarrow> \<not> isList fd \<and> \<not> isMap fd
            \<and> (case map_of m (fname fd) of None \<Rightarrow> False | Some v \<Rightarrow> scalar_of_kind fd v \<and> (hasPresence fd \<or> \<not> is_zero v)))"

lemma field_roundtrip:
  assumes "path_field sch ty m f"
  obtains fd v s where "find_field (sch ty) f = Some fd" "map_of m (fname fd) = Some v"
    "fieldString lib sch ty m f = Inr (Inr s)"
    "\<forall>m0. populateField lib sch ty m0 f s = Inr (Inr (AList.update (fname fd) v m0))"
proof -
  obtain fd v where fd: "find_field (sch ty) f = Some fd" "\<not> isList fd" "\<not> isMap fd" "map_of m (fname fd) = Some v"
    "scalar_of_kind fd v" "hasPresence fd \<or> \<not> is_zero v" and dot: "CHR ''.'' \<notin> set f"
    using assms by (auto simp: path_field_def split: option.splits)
  obtain s where s: "scalarString lib fd v = Inr s" "parseScalar lib fd s = Inr v"
    by (rule parseScalar_scalarString [OF fd(5)])
  show ?thesis
  proof (rule that [OF fd(1,4), of s])
    show "fieldString lib sch ty m f = Inr (Inr s)"
      using fd s dot by (simp add: fieldString_def Split_no_sep)
    show "\<forall>m0. populateField lib sch ty m0 f s = Inr (Inr (AList.update (fname fd) v m0))"
      using fd s dot by (auto simp: populateField_def Split_no_sep setScalar_def msg_Set_def)
  qed
qed

definition field_text :: "textLib \<Rightarrow> schema \<Rightarrow> string \<Rightarrow> message \<Rightarrow> string \<Rightarrow> string" where
  "field_text lib sch ty m f = (case fieldString lib sch ty m f of Inr (Inr s) \<Rightarrow> s | _ \<Rightarrow> [])"

fun filled :: "(string \<Rightarrow> string) \<Rightarrow> segment \<Rightarrow> string" where
  "filled txt (Lit s) = s"
| "filled txt (Hole f g) = txt f"

lemma BuildPath_template:
  assumes "list_all seg_ok segs" "\<forall>f \<in> set (holes segs). path_field sch ty m f"
  shows "BuildPath lib sch ty (template_text segs) m = Inr (Inr (concat (map (filled (field_text lib sch ty m)) segs)))"
  using assms
proof (induction segs)
  case (Cons s segs)
  show ?case
  proof (cases s)
    case (Lit t)
    then show ?thesis using Cons by (simp add: BuildPath_lit holes_def written_def)
  next
    case (Hole f g)
    then have "path_field sch ty m f" using Cons.prems(2) by (simp add: holes_def)
    then obtain x where x: "fieldString lib sch ty m f = Inr (Inr x)" by (rule field_roundtrip)
    have "BuildPath lib sch ty (template_text segs) m = Inr (Inr (concat (map (filled (field_text lib sch ty m)) segs)))"
      using Cons Hole by (simp add: holes_def)
    moreover have "field_text lib sch ty m f = x" using x by (simp add: field_text_def)
    ultimately show ?thesis
      using x Hole Cons.prems(1) hole_split(1) [of f g "template_text segs"] hole_split(2) [of f g]
      by (simp add: seg_text_Hole written_def del: seg_text.simps(2,3))
  qed
qed simp

lemma BindPath_loop_built:
  assumes "\<forall>f \<in> set fs. path_field sch ty m f \<and> param f = field_text lib sch ty m f"
  shows "\<exists>m'. BindPath_loop lib sch ty param m0 fs = Inr (Inr m')
    \<and> (\<forall>k. map_of m' k = (if \<exists>f \<in> set fs. \<exists>fd. find_field (sch ty) f = Some fd \<and> fname fd = k then map_of m k else map_of m0 k))"
  using assms
proof (induction fs arbitrary: m0)
  case (Cons f fs)
  have pf: "path_field sch ty m f" using Cons.prems by simp
  obtain fd v s where f: "find_field (sch ty) f = Some fd" "map_of m (fname fd) = Some v"
    "fieldString lib sch ty m f = Inr (Inr s)"
    "\<forall>m0. populateField lib sch ty m0 f s = Inr (Inr (AList.update (fname fd) v m0))"
    by (rule field_roundtrip [OF pf, of lib])
  have p: "param f = s" using Cons.prems f(3) by (simp add: field_text_def)
  let ?m1 = "AList.update (fname fd) v m0"
  let ?named = "\<lambda>fs k. \<exists>f \<in> set fs. \<exists>fd. find_field (sch ty) f = Some fd \<and> fname fd = k"
  obtain m' where m': "BindPath_loop lib sch ty param ?m1 fs = Inr (Inr m')"
    "\<forall>k. map_of m' k = (if ?named fs k then map_of m k else map_of ?m1 k)"
    using Cons.IH [of ?m1] Cons.prems by auto
  have "map_of m' k = (if ?named (f # fs) k then map_of m k else map_of m0 k)" for k
    using m'(2) f(1,2) by (cases "?named fs k"; cases "fname fd = k") (auto simp: update_conv')
  then show ?case using m'(1) f p by simp
qed simp

text \<open>
  What the code relies on of the router (gin). A route it can serve exactly: it starts with a slash, a placeholder
  has no pattern, is not followed by more text of its path segment, and its name has none of the router's own
  characters; the literal text needs no escaping in a URL. For such a route \<open>ginStylePath\<close> gives \<open>:field\<close> parameters,
  and gin documents that a parameter takes the non-empty text up to the next slash.
\<close>

definition unreserved :: "char \<Rightarrow> bool" where
  "unreserved c \<longleftrightarrow> c \<in> set ''ABCDEFGHIJKLMNOPQRSTUVWXYZabcdefghijklmnopqrstuvwxyz0123456789-_.~''"

definition url_text :: "string \<Rightarrow> bool" where
  "url_text t \<longleftrightarrow> t \<noteq> [] \<and> list_all unreserved t"

definition at_slash :: "string \<Rightarrow> bool" where
  "at_slash t \<longleftrightarrow> t = [] \<or> hd t = CHR ''/''"

fun plain_route :: "segment list \<Rightarrow> bool" where
  "plain_route [] \<longleftrightarrow> True"
| "plain_route (Lit s # segs) \<longleftrightarrow> list_all (\<lambda>c. unreserved c \<or> c = CHR ''/'') s \<and> plain_route segs"
| "plain_route (Hole f g # segs) \<longleftrightarrow> g = None \<and> f \<noteq> [] \<and> CHR ''/'' \<notin> set f \<and> CHR '':'' \<notin> set f \<and> CHR ''*'' \<notin> set f
     \<and> (case segs of [] \<Rightarrow> True | Lit s # _ \<Rightarrow> s \<noteq> [] \<and> hd s = CHR ''/'' | _ \<Rightarrow> False) \<and> plain_route segs"

definition gin_route :: "segment list \<Rightarrow> bool" where
  "gin_route segs \<longleftrightarrow> plain_route segs \<and> distinct (holes segs)
     \<and> (case segs of Lit s # _ \<Rightarrow> s \<noteq> [] \<and> hd s = CHR ''/'' | _ \<Rightarrow> False)"

text \<open>\<open>router route path\<close>: the parameters (\<open>c.Param\<close>) of a request for \<open>path\<close> when \<open>route\<close> is registered, if it matches.\<close>

definition gin_law :: "(string \<Rightarrow> string \<Rightarrow> (string \<Rightarrow> string) option) \<Rightarrow> bool" where
  "gin_law router \<longleftrightarrow>
     (\<forall>segs txt. gin_route segs \<longrightarrow> (\<forall>f \<in> set (holes segs). url_text (txt f)) \<longrightarrow>
        (\<exists>param. router (concat (map gin_text segs)) (concat (map (filled txt) segs)) = Some param
          \<and> (\<forall>f \<in> set (holes segs). param f = txt f)))"

text \<open>
  C37. A path built from a message binds back to it. Take a template of literals and plain placeholders, one to a path
  segment, that name populated scalar fields whose text is not empty and needs no escaping in a URL (no slash in
  particular). Then building the path succeeds, the route that the server registers for the template matches it, and
  binding the parameters of the match gives every one of these fields its value again. Placeholders with a pattern are
  not covered: the router returns their text with a slash in front (\<open>BindPath_glob_slash\<close>).
\<close>

theorem BindPath_BuildPath:
  assumes "list_all seg_ok segs" and "gin_route segs" and "gin_law router"
    and "\<forall>f \<in> set (holes segs). path_field sch ty m f \<and> url_text (field_text lib sch ty m f)"
  shows "\<exists>path param m'. BuildPath lib sch ty (template_text segs) m = Inr (Inr path)
    \<and> router (ginStylePath (template_text segs)) path = Some param
    \<and> BindPath lib sch ty param [] (template_text segs) = Inr (Inr m')
    \<and> (\<forall>f \<in> set (holes segs). \<forall>fd. find_field (sch ty) f = Some fd \<longrightarrow> map_of m' (fname fd) = map_of m (fname fd))"
proof -
  let ?txt = "field_text lib sch ty m"
  have built: "BuildPath lib sch ty (template_text segs) m = Inr (Inr (concat (map (filled ?txt) segs)))"
    using assms(1,4) by (intro BuildPath_template) auto
  obtain param where param: "router (ginStylePath (template_text segs)) (concat (map (filled ?txt) segs)) = Some param"
      "\<forall>f \<in> set (holes segs). param f = ?txt f"
    using assms(3) [unfolded gin_law_def, rule_format, OF assms(2), of ?txt] assms(4) ginStylePath_template [OF assms(1)] by auto
  obtain m' where m': "BindPath_loop lib sch ty param [] (holes segs) = Inr (Inr m')"
    "\<forall>k. map_of m' k = (if \<exists>f \<in> set (holes segs). \<exists>fd. find_field (sch ty) f = Some fd \<and> fname fd = k then map_of m k else map_of [] k)"
    using BindPath_loop_built [of "holes segs" sch ty m param lib "[]"] assms(4) param(2) by blast
  have "\<forall>f \<in> set (holes segs). \<forall>fd. find_field (sch ty) f = Some fd \<longrightarrow> map_of m' (fname fd) = map_of m (fname fd)"
    using m'(2) by auto
  then show ?thesis using built param(1) m'(1) by (simp add: BindPath_def pathFields_template [OF assms(1)])
qed

text \<open>A reference router: it matches a route with \<open>:field\<close> parameters as gin documents it.\<close>

function match_route :: "string \<Rightarrow> string \<Rightarrow> (string \<times> string) list option" where
  "match_route [] path = (if path = [] then Some [] else None)"
| "match_route (c # route) path =
     (if c = CHR '':'' then
        (let v = takeWhile (\<lambda>c. c \<noteq> CHR ''/'') path
         in if v = [] then None
            else map_option ((#) (takeWhile (\<lambda>c. c \<noteq> CHR ''/'') route, v))
              (match_route (dropWhile (\<lambda>c. c \<noteq> CHR ''/'') route) (dropWhile (\<lambda>c. c \<noteq> CHR ''/'') path)))
      else case path of [] \<Rightarrow> None | d # path \<Rightarrow> if c = d then match_route route path else None)"
  by pat_completeness auto
termination by (relation "measure (\<lambda>(route, path). length route)") (auto simp: length_dropWhile_le le_imp_less_Suc)

definition reference_router :: "string \<Rightarrow> string \<Rightarrow> (string \<Rightarrow> string) option" where
  "reference_router route path = map_option (\<lambda>ps f. slice_of (map_of ps f)) (match_route route path)"

lemma until_slash:
  assumes "CHR ''/'' \<notin> set f" "at_slash t"
  shows "takeWhile (\<lambda>c. c \<noteq> CHR ''/'') (f @ t) = f" "dropWhile (\<lambda>c. c \<noteq> CHR ''/'') (f @ t) = t"
proof -
  have f: "\<forall>c \<in> set f. c \<noteq> CHR ''/''" using assms(1) by auto
  have "takeWhile (\<lambda>c. c \<noteq> CHR ''/'') t = []" "dropWhile (\<lambda>c. c \<noteq> CHR ''/'') t = t"
    using assms(2) by (cases t; simp add: at_slash_def)+
  then show "takeWhile (\<lambda>c. c \<noteq> CHR ''/'') (f @ t) = f" "dropWhile (\<lambda>c. c \<noteq> CHR ''/'') (f @ t) = t"
    using f by (simp_all add: takeWhile_append2 dropWhile_append2)
qed

lemma unreserved_plain: "unreserved c \<Longrightarrow> c \<noteq> CHR '':'' \<and> c \<noteq> CHR ''/''"
  by (auto simp: unreserved_def)

lemma match_route_lit:
  "list_all (\<lambda>c. unreserved c \<or> c = CHR ''/'') s \<Longrightarrow> match_route (s @ route) (s @ path) = match_route route path"
  by (induction s) (auto dest: unreserved_plain)

lemma match_route_template:
  assumes "plain_route segs" "\<forall>f \<in> set (holes segs). url_text (txt f)"
  shows "match_route (concat (map gin_text segs)) (concat (map (filled txt) segs)) = Some (map (\<lambda>f. (f, txt f)) (holes segs))"
  using assms
proof (induction segs rule: plain_route.induct)
  case (2 s segs)
  then show ?case by (simp add: match_route_lit holes_def)
next
  case (3 f g segs)
  have f: "g = None" "CHR ''/'' \<notin> set f" "url_text (txt f)" using "3.prems" by (simp_all add: holes_def)
  then have v: "txt f \<noteq> []" "CHR ''/'' \<notin> set (txt f)"
    by (auto simp: url_text_def list_all_iff dest: unreserved_plain)
  have "at_slash (concat (map gin_text segs))" "at_slash (concat (map (filled txt) segs))"
    using "3.prems"(1) by (auto simp: at_slash_def split: list.splits segment.splits)
  then show ?case using "3.IH" "3.prems" f v by (simp add: holes_def until_slash)
qed (simp add: holes_def)

lemma reference_router_law: "gin_law reference_router"
  unfolding gin_law_def
proof (intro allI impI)
  fix segs :: "segment list" and vals
  assume route: "gin_route segs" and vals: "\<forall>f \<in> set (holes segs). url_text (vals f)"
  have "match_route (concat (map gin_text segs)) (concat (map (filled vals) segs)) = Some (map (\<lambda>f. (f, vals f)) (holes segs))"
    using route vals by (intro match_route_template) (simp_all add: gin_route_def)
  moreover have "\<forall>f \<in> set (holes segs). map_of (map (\<lambda>f. (f, vals f)) (holes segs)) f = Some (vals f)"
    using map_of_map_restrict [of vals "holes segs"] by (auto simp: restrict_map_def)
  ultimately show "\<exists>param. reference_router (concat (map gin_text segs)) (concat (map (filled vals) segs)) = Some param
      \<and> (\<forall>f \<in> set (holes segs). param f = vals f)"
    by (simp add: reference_router_def)
qed

definition example_field :: "string \<Rightarrow> kind \<Rightarrow> fieldDesc" where
  "example_field n k = \<lparr>fname = n, jsonName = n, fkind = k, isList = False, isMap = False, enumValues = [], messageType = [],
     hasPresence = False\<rparr>"

definition example_schema :: schema where
  "example_schema ty = [example_field ''id'' Int64Kind, example_field ''name'' StringKind]"

definition example_lib :: textLib where
  "example_lib = \<lparr>parseFloat = (\<lambda>_ _. None), formatFloat = (\<lambda>_ _. []), valueString = (\<lambda>_. [])\<rparr>"

theorem BindPath_BuildPath_witness:
  "\<exists>path param m'. BuildPath example_lib example_schema ''User'' ''/u/{id}'' [(''id'', VInt 42)] = Inr (Inr path)
     \<and> reference_router (ginStylePath ''/u/{id}'') path = Some param
     \<and> BindPath example_lib example_schema ''User'' param [] ''/u/{id}'' = Inr (Inr m') \<and> map_of m' ''id'' = Some (VInt 42)"
proof -
  let ?segs = "[Lit ''/u/'', Hole ''id'' None]" and ?m = "[(''id'', VInt 42)]"
  have t: "template_text ?segs = ''/u/{id}''" by simp
  have ok: "list_all seg_ok ?segs" by simp
  have route: "gin_route ?segs" by (simp add: gin_route_def holes_def unreserved_def)
  have field: "find_field (example_schema ''User'') ''id'' = Some (example_field ''id'' Int64Kind)"
    by (simp add: find_field_def example_schema_def example_field_def)
  have forty_two: "field_text example_lib example_schema ''User'' ?m ''id'' = ''42''" by code_simp
  have "path_field example_schema ''User'' ?m ''id''" using field by (simp add: path_field_def example_field_def)
  then have fields: "\<forall>f \<in> set (holes ?segs). path_field example_schema ''User'' ?m f
      \<and> url_text (field_text example_lib example_schema ''User'' ?m f)"
    using forty_two by (simp add: holes_def url_text_def unreserved_def)
  from BindPath_BuildPath [OF ok route reference_router_law fields] field show ?thesis
    unfolding t by (auto simp: holes_def example_field_def)
qed

text \<open>A placeholder with a pattern is a catch-all parameter, which gin returns with its leading slash: it is bound with it.\<close>

lemma BindPath_glob_slash:
  assumes "find_field (sch ty) f = Some fd" "fkind fd = StringKind" "\<not> isList fd" "CHR ''.'' \<notin> set f" "seg_ok (Hole f (Some g))"
  shows "ginStylePath (template_text [Lit ''/v1/'', Hole f (Some g)]) = ''/v1/*'' @ f"
    and "BindPath lib sch ty (\<lambda>_. CHR ''/'' # t) [] (template_text [Lit ''/v1/'', Hole f (Some g)])
       = Inr (Inr (msg_Set [] fd (VString (CHR ''/'' # t))))"
proof -
  have ok: "list_all seg_ok [Lit ''/v1/'', Hole f (Some g)]" using assms(5) by simp
  show "ginStylePath (template_text [Lit ''/v1/'', Hole f (Some g)]) = ''/v1/*'' @ f"
    unfolding ginStylePath_template [OF ok] by simp
  show "BindPath lib sch ty (\<lambda>_. CHR ''/'' # t) [] (template_text [Lit ''/v1/'', Hole f (Some g)])
       = Inr (Inr (msg_Set [] fd (VString (CHR ''/'' # t))))"
    unfolding BindPath_def pathFields_template [OF ok] using assms(1-4)
    by (simp add: holes_def populateField_def Split_no_sep setScalar_def parseScalar_def)
qed

text \<open>
  C38. The query is bound after the path and wins: when a query key names a string field that the path also names,
  the message carries the value of the query, whatever the path said.
\<close>

theorem query_overrides_path:
  assumes f: "find_field (sch ty) f = Some fd" "fkind fd = StringKind" "\<not> isList fd" "CHR ''.'' \<notin> set f"
    and seg: "list_all seg_ok [Lit pre, Hole f None]" and v: "last vals \<noteq> []"
  shows "\<exists>m'. BindHTTP lib sch ty param [(f, vals)] unmarshal [] (template_text [Lit pre, Hole f None]) [] = Inr (Inr m')
    \<and> map_of m' (fname fd) = Some (VString (last vals))"
proof -
  have pop: "populateField lib sch ty m f x = Inr (Inr (msg_Set m fd (VString x)))" for m x
    using f by (simp add: populateField_def Split_no_sep setScalar_def parseScalar_def)
  have "template_text [Lit pre, Hole f None] \<noteq> []" by simp
  then show ?thesis
    using v by (auto simp: BindHTTP_def BindPath_def pathFields_template [OF seg] holes_def pop msg_Set_def update_conv'
        simp del: template_text_simps)
qed

theorem query_overrides_path_witness:
  "\<exists>m'. BindHTTP example_lib example_schema ''User'' (\<lambda>_. ''alice'') [(''name'', [''bob''])] Inr [] ''/u/{name}'' [] = Inr (Inr m')
     \<and> map_of m' ''name'' = Some (VString ''bob'')"
proof -
  have t: "template_text [Lit ''/u/'', Hole ''name'' None] = ''/u/{name}''" by simp
  have f: "find_field (example_schema ''User'') ''name'' = Some (example_field ''name'' StringKind)"
    by (simp add: find_field_def example_schema_def example_field_def)
  have "\<exists>m'. BindHTTP example_lib example_schema ''User'' (\<lambda>_. ''alice'') [(''name'', [''bob''])] Inr []
      (template_text [Lit ''/u/'', Hole ''name'' None]) [] = Inr (Inr m')
    \<and> map_of m' (fname (example_field ''name'' StringKind)) = Some (VString (last [''bob'']))"
    by (rule query_overrides_path [where sch = example_schema and ty = "''User''", OF f]) (simp_all add: example_field_def)
  then show ?thesis unfolding t by (simp add: example_field_def)
qed

text \<open>
  A query key that goes through a repeated or map field panics; an unknown placeholder makes \<open>BuildPath\<close> fail
  and is not left verbatim; a message field is printed by \<open>Value.String\<close> and is not an error.
\<close>

lemma BindQuery_panics:
  assumes "find_field (sch ty) f = Some fd" "fkind fd = MessageKind" "isList fd \<or> isMap fd" "CHR ''.'' \<notin> set f"
  shows "BindQuery lib sch ty m [(f @ CHR ''.'' # g, vals)] = Inl not_a_message"
  using assms by (simp add: populateField_def Split_append)

lemma BuildPath_unknown_placeholder:
  assumes "find_field (sch ty) f = None" "CHR ''.'' \<notin> set f" "seg_ok (Hole f None)"
  shows "BuildPath lib sch ty (seg_text (Hole f None)) m = Inr (Inl (ErrString (''codec: build path param '' @ f @ '': unknown field '' @ f)))"
  using assms hole_split(1) [of f None "[]"] hole_split(2) [of f None]
  by (simp add: fieldString_def Split_no_sep hole_body_def wrapped_def)

lemma fieldString_message:
  assumes "find_field (sch ty) f = Some fd" "fkind fd = MessageKind" "\<not> isList fd" "\<not> isMap fd" "CHR ''.'' \<notin> set f"
    and "map_of m (fname fd) = Some (VMsg sub)"
  shows "fieldString lib sch ty m f = Inr (Inr (valueString lib (VMsg sub)))"
  using assms by (simp add: fieldString_def Split_no_sep scalarString_def)

end
