(* ===== verification/Server.thy ===== *)
theory Server
  imports RegistryCache HttpBinding
begin

text \<open>
  \<open>pkg/server\<close>: the common start of the HTTP and gRPC servers, the service group, the proto-first HTTP method,
  route groups, and the life cycle of a \<open>MeshServer\<close> as an interleaving of \<open>Run\<close> and \<open>GracefulStop\<close>. The
  network, the servers of gin and gRPC, the registrar and \<open>errgroup\<close> are parameters.
\<close>

section \<open>Starting one server\<close>

text \<open>
  What \<open>serve\<close> does to its surroundings, and what it waits for: the server exits on its own, or the context
  is done first, and then the shutdown and the server return.
\<close>

datatype serve_action = Listen | Register serviceInstance | ServeConns | Shutdown | CloseListener

datatype serve_race = server_exits "err option" | context_done "err option" "err option"

definition serve_result :: "(err \<Rightarrow> bool) \<Rightarrow> err option \<Rightarrow> err option" where
  "serve_result isClosedError e = (case e of Some e \<Rightarrow> if isClosedError e then None else Some e | None \<Rightarrow> None)"

definition serve :: "(err \<Rightarrow> bool) \<Rightarrow> err option \<Rightarrow> (serviceInstance \<Rightarrow> err option) option \<Rightarrow> serviceInstance option
    \<Rightarrow> serve_race \<Rightarrow> err option \<times> serve_action list" where
  "serve isClosedError listen reg inst race =
     (case listen of
        Some e \<Rightarrow> (Some e, [Listen])
      | None \<Rightarrow>
          (let (rerr, acts) = (case (reg, inst) of (Some r, Some i) \<Rightarrow> (r i, [Register i]) | _ \<Rightarrow> (None, []))
           in case rerr of
                Some e \<Rightarrow> (Some e, [Listen] @ acts @ [CloseListener])
              | None \<Rightarrow>
                  (case race of
                     server_exits e \<Rightarrow> (serve_result isClosedError e, [Listen] @ acts @ [ServeConns, CloseListener])
                   | context_done shut e \<Rightarrow>
                       (serve_result isClosedError e, [Listen] @ acts @ [ServeConns, Shutdown, CloseListener]))))"

text \<open>\<open>Stop\<close> of the HTTP server: deregistration, whose error is only logged, then the shutdown of a started server.\<close>

datatype stop_action = Deregister serviceInstance | StopServer

definition HTTPServer_Stop :: "(serviceInstance \<Rightarrow> err option) option \<Rightarrow> serviceInstance option \<Rightarrow> bool \<Rightarrow> err option
    \<Rightarrow> err option \<times> stop_action list" where
  "HTTPServer_Stop dereg inst started shutdown =
     (let acts = (case (dereg, inst) of (Some _, Some i) \<Rightarrow> [Deregister i] | _ \<Rightarrow> [])
      in if \<not> started then (None, acts) else (shutdown, acts @ [StopServer]))"

text \<open>\<open>Stop\<close> of the gRPC server: a graceful stop that is forced when the context ends first (\<open>Some\<close> its error).\<close>

definition GRPCServer_Stop :: "(serviceInstance \<Rightarrow> err option) option \<Rightarrow> serviceInstance option \<Rightarrow> err option
    \<Rightarrow> err option \<times> stop_action list" where
  "GRPCServer_Stop dereg inst timed_out =
     (let acts = (case (dereg, inst) of (Some _, Some i) \<Rightarrow> [Deregister i] | _ \<Rightarrow> []) in (timed_out, acts @ [StopServer]))"

text \<open>
  \<open>Serve\<close>: a server that returns first decides the result; when the context is done the server is stopped, an
  error of the stop is only logged, and the result is what \<open>Start\<close> returns after that.
\<close>

definition Serve :: "serve_race \<Rightarrow> err option \<times> bool" where
  "Serve race = (case race of server_exits e \<Rightarrow> (e, False) | context_done stop_err e \<Rightarrow> (e, True))"

section \<open>Service groups\<close>

text \<open>A server that can be stopped in a state of the world \<open>'w\<close>.\<close>

record 'w serviceEntry =
  se_name :: string
  se_stop :: "'w \<Rightarrow> err option \<times> 'w"

type_synonym 'w serviceGroup = "'w serviceEntry list"

definition NewServiceGroup :: "'w serviceGroup" where
  "NewServiceGroup = []"

definition group_Add :: "'w serviceGroup \<Rightarrow> string \<Rightarrow> ('w \<Rightarrow> err option \<times> 'w) \<Rightarrow> 'w serviceGroup" where
  "group_Add g name s = g @ [\<lparr>se_name = name, se_stop = s\<rparr>]"

text \<open>The loop of \<open>Stop\<close> from index \<open>i - 1\<close> down to 0; the result is joined into one error.\<close>

fun stop_loop :: "'w serviceGroup \<Rightarrow> nat \<Rightarrow> (string \<times> err) list \<Rightarrow> 'w \<Rightarrow> (string \<times> err) list \<times> 'w" where
  "stop_loop services 0 errs w = (errs, w)"
| "stop_loop services (Suc i) errs w =
     (let (e, w) = se_stop (services ! i) w
      in stop_loop services i (case e of None \<Rightarrow> errs | Some e \<Rightarrow> errs @ [(se_name (services ! i), e)]) w)"

definition group_Stop :: "'w serviceGroup \<Rightarrow> 'w \<Rightarrow> (string \<times> err) list \<times> 'w" where
  "group_Stop services w = stop_loop services (length services) [] w"

text \<open>\<open>Start\<close> gives \<open>errgroup\<close> one function per server, which names the server in its error.\<close>

definition group_Start :: "((string \<times> err) option list \<Rightarrow> (string \<times> err) option) \<Rightarrow> (string \<times> err option) list
    \<Rightarrow> (string \<times> err) option" where
  "group_Start errgroup started =
     errgroup (map (\<lambda>(name, e). case e of None \<Rightarrow> None | Some e \<Rightarrow> Some (name, e)) started)"

section \<open>Methods\<close>

text \<open>
  A value of interface type is nil, or has a type and a value of it, which for a message is a pointer that may
  itself be nil.
\<close>

datatype 'm iface = NilIface | Iface "'m option"

text \<open>
  The hooks \<open>Render\<close> and \<open>RenderError\<close> are of a type \<open>'f\<close>; nil is the renderer of \<open>pkg/codec\<close>. \<open>Validate\<close> may set
  defaults in the request.
\<close>

record ('q, 'm, 'f) serverMethod =
  m_name :: string
  m_method :: string
  m_path :: string
  m_body :: string
  m_status :: int
  newReq :: "'q option"
  m_handler :: "'q \<Rightarrow> err + 'm iface"
  m_render :: "'f option"
  m_renderError :: "'f option"
  validate :: "('q \<Rightarrow> err option \<times> 'q) option"

text \<open>The request that reaches the handler was made by \<open>newReq\<close>, so the assertion of its type holds.\<close>

definition NewMethod :: "string \<Rightarrow> string \<Rightarrow> string \<Rightarrow> string \<Rightarrow> 'q \<Rightarrow> ('q \<Rightarrow> err + 'm option) \<Rightarrow> ('q, 'm, 'f) serverMethod" where
  "NewMethod name method path body zero h =
     \<lparr>m_name = name, m_method = method, m_path = path, m_body = body, m_status = 0, newReq = Some zero,
      m_handler = (\<lambda>r. case h r of Inl e \<Rightarrow> Inl e | Inr resp \<Rightarrow> Inr (Iface resp)),
      m_render = None, m_renderError = None, validate = None\<rparr>"

definition StatusOK :: int where "StatusOK = 200"

definition StatusOrDefault :: "('q, 'm, 'f) serverMethod \<Rightarrow> int" where
  "StatusOrDefault m = (if m_status m = 0 then StatusOK else m_status m)"

text \<open>How a request is answered: with an error, with a status alone, or by rendering a response.\<close>

datatype ('m, 'f) answer = answer_error "'f option" err | answer_status int | answer_render "'f option" int "'m iface"

definition httpHandler :: "('q, 'm, 'f) serverMethod \<Rightarrow> ('q \<Rightarrow> string \<Rightarrow> string \<Rightarrow> err + 'q) \<Rightarrow> ('m, 'f) answer" where
  "httpHandler m bindHTTP =
     (case newReq m of
        None \<Rightarrow> answer_error (m_renderError m)
                  (ErrString (''server: method '' @ m_name m @ '': no request factory; build the Method with server.NewMethod''))
      | Some msg \<Rightarrow>
          (case bindHTTP msg (m_path m) (m_body m) of
             Inl e \<Rightarrow> answer_error (m_renderError m) e
           | Inr msg \<Rightarrow>
               (case (case validate m of None \<Rightarrow> (None, msg) | Some v \<Rightarrow> v msg) of
                  (Some e, msg) \<Rightarrow> answer_error (m_renderError m) e
                | (None, msg) \<Rightarrow>
                    (case m_handler m msg of
                       Inl e \<Rightarrow> answer_error (m_renderError m) e
                     | Inr NilIface \<Rightarrow> (if m_status m \<noteq> 0 then answer_status (m_status m) else answer_status StatusOK)
                     | Inr resp \<Rightarrow> answer_render (m_render m) (StatusOrDefault m) resp))))"

section \<open>Route groups\<close>

record 'h route =
  r_method :: string
  r_path :: string
  r_handler :: 'h

datatype ('mw, 'h) routeGroup = RouteGroup (g_prefix: string) (g_middleware: "'mw list") (g_routes: "'h route list")
  (g_children: "('mw, 'h) routeGroup list")

definition NewGroup :: "string \<Rightarrow> 'mw list \<Rightarrow> ('mw, 'h) routeGroup" where
  "NewGroup prefix mws = RouteGroup prefix mws [] []"

definition group_Use :: "('mw, 'h) routeGroup \<Rightarrow> 'mw list \<Rightarrow> ('mw, 'h) routeGroup" where
  "group_Use g mws = (case g of RouteGroup p m r c \<Rightarrow> RouteGroup p (m @ mws) r c)"

definition group_Handle :: "('mw, 'h) routeGroup \<Rightarrow> string \<Rightarrow> string \<Rightarrow> 'h \<Rightarrow> ('mw, 'h) routeGroup" where
  "group_Handle g method path h =
     (case g of RouteGroup p m r c \<Rightarrow> RouteGroup p m (r @ [\<lparr>r_method = method, r_path = path, r_handler = h\<rparr>]) c)"

definition group_child :: "('mw, 'h) routeGroup \<Rightarrow> ('mw, 'h) routeGroup \<Rightarrow> ('mw, 'h) routeGroup" where
  "group_child g child = (case g of RouteGroup p m r c \<Rightarrow> RouteGroup p m r (c @ [child]))"

text \<open>
  \<open>Apply\<close>: the routes that gin is given, each with the prefixes and the middlewares of the groups around it, from
  the outermost inwards.
\<close>

fun group_Apply :: "string list \<Rightarrow> 'mw list \<Rightarrow> ('mw, 'h) routeGroup \<Rightarrow> (string list \<times> 'mw list \<times> 'h route) list" where
  "group_Apply prefixes mws (RouteGroup p m r c) =
     map (\<lambda>x. (prefixes @ [p], mws @ m, x)) r @ concat (map (group_Apply (prefixes @ [p]) (mws @ m)) c)"

section \<open>The life cycle of a MeshServer\<close>

text \<open>
  Calls of \<open>Run\<close> whose options applied and whose group could be built are numbered. The service group of a call is built by it and known by its number.
  \<open>stopped_groups\<close> are the groups whose \<open>Stop\<close>, which also deregisters, has run.
\<close>

datatype run_phase = run_built | run_started | run_returned | run_cleaned | run_cleared | run_over

record meshServer =
  hooks :: "nat option"           \<comment> \<open>the call whose \<open>cancel\<close> and \<open>done\<close> are published\<close>
  group :: "nat option"
  stop_used :: bool               \<comment> \<open>\<open>stop.Once\<close> has been used\<close>
  stopped_groups :: "nat set"
  cancelled :: "nat set"
  phases :: "nat \<rightharpoonup> run_phase"
  stoppers :: "nat \<rightharpoonup> nat"       \<comment> \<open>calls of \<open>GracefulStop\<close> that wait, with the call of \<open>Run\<close> whose \<open>done\<close> they wait for\<close>

definition NewMeshServer :: meshServer where
  "NewMeshServer = \<lparr>hooks = None, group = None, stop_used = False, stopped_groups = {}, cancelled = {},
     phases = Map.empty, stoppers = Map.empty\<rparr>"

definition publish :: "meshServer \<Rightarrow> nat \<Rightarrow> meshServer" where
  "publish s r = s\<lparr>group := Some r, hooks := Some r, phases := (phases s)(r \<mapsto> run_started)\<rparr>"

definition stopGroup :: "meshServer \<Rightarrow> meshServer" where
  "stopGroup s =
     (case group s of
        None \<Rightarrow> s
      | Some g \<Rightarrow> if stop_used s then s else s\<lparr>stop_used := True, stopped_groups := insert g (stopped_groups s)\<rparr>)"

definition clear_hooks :: "meshServer \<Rightarrow> meshServer" where
  "clear_hooks s = s\<lparr>hooks := None\<rparr>"

text \<open>
  \<open>GracefulStop\<close> up to its \<open>select\<close>: it returns nil at once when no hooks are published, otherwise it cancels the run
  and waits.
\<close>

definition GracefulStop :: "meshServer \<Rightarrow> nat \<Rightarrow> err option option \<times> meshServer" where
  "GracefulStop s g =
     (case hooks s of
        None \<Rightarrow> (Some None, s)
      | Some r \<Rightarrow> (None, s\<lparr>cancelled := insert r (cancelled s), stoppers := (stoppers s)(g \<mapsto> r)\<rparr>))"

text \<open>A return of \<open>GracefulStop\<close> shows the run it had found, if any, and its result.\<close>

datatype mesh_label = Silent | Graceful_returned "nat option" "err option"

inductive mesh_step :: "meshServer \<Rightarrow> mesh_label \<Rightarrow> meshServer \<Rightarrow> bool" where
  run_call: "phases s r = None \<Longrightarrow> mesh_step s Silent (s\<lparr>phases := (phases s)(r \<mapsto> run_built)\<rparr>)"
| run_publish: "phases s r = Some run_built \<Longrightarrow> mesh_step s Silent (publish s r)"
| run_start_returns: "phases s r = Some run_started
    \<Longrightarrow> mesh_step s Silent (s\<lparr>phases := (phases s)(r \<mapsto> run_returned)\<rparr>)"
| run_stop: "phases s r = Some run_returned
    \<Longrightarrow> mesh_step s Silent ((stopGroup s)\<lparr>phases := (phases s)(r \<mapsto> run_cleaned)\<rparr>)"
| run_clear: "phases s r = Some run_cleaned
    \<Longrightarrow> mesh_step s Silent ((clear_hooks s)\<lparr>phases := (phases s)(r \<mapsto> run_cleared)\<rparr>)"
| run_close: "phases s r = Some run_cleared
    \<Longrightarrow> mesh_step s Silent (s\<lparr>phases := (phases s)(r \<mapsto> run_over)\<rparr>)"
| graceful_noop: "stoppers s g = None \<Longrightarrow> GracefulStop s g = (Some e, s') \<Longrightarrow> mesh_step s (Graceful_returned None e) s'"
| graceful_call: "stoppers s g = None \<Longrightarrow> GracefulStop s g = (None, s') \<Longrightarrow> mesh_step s Silent s'"
| graceful_done: "stoppers s g = Some r \<Longrightarrow> phases s r = Some run_over
    \<Longrightarrow> mesh_step s (Graceful_returned (Some r) None) (s\<lparr>stoppers := (stoppers s)(g := None)\<rparr>)"
| graceful_timeout: "stoppers s g = Some r \<Longrightarrow> e \<in> {ContextCanceled, ContextDeadlineExceeded}
    \<Longrightarrow> mesh_step s (Graceful_returned (Some r) (Some e)) (s\<lparr>stoppers := (stoppers s)(g := None)\<rparr>)"

inductive mesh_run :: "mesh_label list \<Rightarrow> meshServer \<Rightarrow> bool" where
  mesh_new: "mesh_run [] NewMeshServer"
| mesh_more: "mesh_run ls s \<Longrightarrow> mesh_step s l s' \<Longrightarrow> mesh_run (ls @ [l]) s'"


section \<open>Properties of one server\<close>

text \<open>
  A listener that was opened is closed at the end on every path, connections are served only after a configured
  registration succeeded, and being closed is never an error of a server that served.
\<close>

lemma serve_cleans_up:
  assumes "serve isClosedError None reg inst race = (res, acts)"
  shows "acts \<noteq> [] \<and> last acts = CloseListener \<and> CloseListener \<notin> set (butlast acts)
    \<and> (ServeConns \<in> set acts \<longrightarrow> (\<forall>r i. reg = Some r \<longrightarrow> inst = Some i \<longrightarrow> r i = None \<and> Register i \<in> set acts))
    \<and> (\<forall>e. res = Some e \<longrightarrow> ServeConns \<in> set acts \<longrightarrow> \<not> isClosedError e)"
  using assms
  by (auto simp: serve_def serve_result_def Let_def split: option.splits serve_race.splits if_splits)

section \<open>Properties of service groups\<close>

text \<open>Stopping a list of servers one after the other.\<close>

fun stop_all :: "'w serviceEntry list \<Rightarrow> 'w \<Rightarrow> (string \<times> err) list \<times> 'w" where
  "stop_all [] w = ([], w)"
| "stop_all (s # ss) w =
     (let (e, w) = se_stop s w; (errs, w) = stop_all ss w
      in ((case e of None \<Rightarrow> errs | Some e \<Rightarrow> (se_name s, e) # errs), w))"

lemma stop_loop_stop_all:
  "n \<le> length services \<Longrightarrow> stop_loop services n errs w =
     (errs @ fst (stop_all (rev (take n services)) w), snd (stop_all (rev (take n services)) w))"
proof (induction n arbitrary: errs w)
  case (Suc n)
  then have "rev (take (Suc n) services) = services ! n # rev (take n services)" by (simp add: take_Suc_conv_app_nth)
  then show ?case using Suc by (simp add: Let_def split_beta split: option.split)
qed simp

text \<open>
  C39. Stopping a group stops every server exactly once, in the reverse order of registration, whatever the
  servers before it returned; every error is reported with the name of its server, in that order, and the stop
  succeeds only if all of them did.
\<close>

theorem group_Stop_reverse:
  "group_Stop services w = stop_all (rev services) w
    \<and> ((\<forall>s \<in> set services. \<forall>w. snd (se_stop s w) = w @ [se_name s]) \<longrightarrow> snd (group_Stop services w) = w @ rev (map se_name services))"
proof -
  have eq: "group_Stop services w = stop_all (rev services) w" for services and w :: "'x"
    using stop_loop_stop_all [of "length services" services "[]" w] by (simp add: group_Stop_def)
  have log: "\<forall>s \<in> set ss. \<forall>w. snd (se_stop s w) = w @ [se_name s] \<Longrightarrow> snd (stop_all ss w) = w @ map se_name ss"
    for ss :: "string list serviceEntry list" and w
    by (induction ss arbitrary: w) (simp_all add: Let_def split_beta)
  show ?thesis using eq [of services w] log [of "rev services" w] by (auto simp: rev_map)
qed

theorem group_Stop_reverse_witness:
  "snd (group_Stop [\<lparr>se_name = ''grpc'', se_stop = (\<lambda>w. (Some ContextCanceled, w @ [''grpc'']))\<rparr>,
                    \<lparr>se_name = ''http'', se_stop = (\<lambda>w. (None, w @ [''http'']))\<rparr>] []) = [''http'', ''grpc'']"
proof -
  let ?g = "[\<lparr>se_name = ''grpc'', se_stop = (\<lambda>w. (Some ContextCanceled, w @ [''grpc'']))\<rparr>,
             \<lparr>se_name = ''http'', se_stop = (\<lambda>w. (None, w @ [''http'']))\<rparr>]"
  have "\<forall>s \<in> set ?g. \<forall>w. snd (se_stop s w) = w @ [se_name s]" by simp
  then show ?thesis using group_Stop_reverse [of ?g "[]"] by simp
qed

section \<open>Properties of methods\<close>

text \<open>
  A method built by \<open>NewMethod\<close> never answers with a status alone: a handler that returns a nil message
  returns an interface that is not nil, so the nil message is rendered, with status 200 or the declared one.
\<close>

theorem NewMethod_nil_rendered:
  fixes f :: "'f option"
  shows "httpHandler ((NewMethod name method path body zero h)\<lparr>m_status := st, m_render := f, validate := v\<rparr>) bindHTTP \<noteq> answer_status k
   \<and> (case bindHTTP zero path body of
        Inl e \<Rightarrow> True
      | Inr q \<Rightarrow> h q = Inr None \<longrightarrow> v = None \<longrightarrow>
          httpHandler ((NewMethod name method path body zero h)\<lparr>m_status := st, m_render := f, validate := v\<rparr>) bindHTTP
            = answer_render f (if st = 0 then 200 else st) (Iface None))"
  by (auto simp: httpHandler_def NewMethod_def StatusOrDefault_def StatusOK_def split: sum.split option.split prod.split)

text \<open>The middlewares of an outer group run around those of the groups inside it.\<close>

lemma group_Apply_nested:
  "(ps, ms, x) \<in> set (group_Apply prefixes mws g) \<Longrightarrow> \<exists>ps' ms'. ps = prefixes @ g_prefix g # ps' \<and> ms = mws @ g_middleware g @ ms'"
proof (induction prefixes mws g rule: group_Apply.induct)
  case (1 prefixes mws p m r c)
  from "1.prems" consider "(ps, ms, x) \<in> (\<lambda>x. (prefixes @ [p], mws @ m, x)) ` set r"
    | g where "g \<in> set c" "(ps, ms, x) \<in> set (group_Apply (prefixes @ [p]) (mws @ m) g)" by auto
  then show ?case
  proof cases
    case 2
    then show ?thesis using "1.IH" [OF 2] by auto
  qed auto
qed

section \<open>Properties of the life cycle\<close>

lemma GracefulStop_iff:
  "GracefulStop s g = (Some e, s') \<longleftrightarrow> hooks s = None \<and> e = None \<and> s' = s"
  "GracefulStop s g = (None, s') \<longleftrightarrow>
     (\<exists>r. hooks s = Some r \<and> s' = s\<lparr>cancelled := insert r (cancelled s), stoppers := (stoppers s)(g \<mapsto> r)\<rparr>)"
  by (auto simp: GracefulStop_def split: option.splits)

lemma mesh_step_stopped:
  "mesh_step s l s' \<Longrightarrow> (stop_used s \<or> stopped_groups s = {}) \<and> (\<exists>g. stopped_groups s \<subseteq> {g})
    \<Longrightarrow> (stop_used s' \<or> stopped_groups s' = {}) \<and> (\<exists>g. stopped_groups s' \<subseteq> {g})"
  by (induction rule: mesh_step.induct, auto simp: publish_def stopGroup_def clear_hooks_def GracefulStop_iff split: option.split, blast)

lemma mesh_run_stopped: "mesh_run ls s \<Longrightarrow> (stop_used s \<or> stopped_groups s = {}) \<and> (\<exists>g. stopped_groups s \<subseteq> {g})"
proof (induction rule: mesh_run.induct)
  case (mesh_more ls s l s')
  then show ?case using mesh_step_stopped by blast
qed (simp add: NewMeshServer_def)

text \<open>
  A \<open>MeshServer\<close> stops at most one service group in its life: of two runs that are over, one has never been
  stopped and deregistered.
\<close>

theorem second_run_never_stopped:
  assumes "mesh_run ls s" and "r1 \<noteq> r2" and "phases s r1 = Some run_over" and "phases s r2 = Some run_over"
  shows "r1 \<notin> stopped_groups s \<or> r2 \<notin> stopped_groups s"
  using mesh_run_stopped [OF assms(1)] assms(2) by auto

lemma one_more_run:
  assumes "mesh_run ls s" "phases s r = None"
  shows "\<exists>ls' s'. mesh_run ls' s' \<and> phases s' = (phases s)(r \<mapsto> run_over)"
proof -
  define s1 where "s1 = s\<lparr>phases := (phases s)(r \<mapsto> run_built)\<rparr>"
  define s2 where "s2 = publish s1 r"
  define s3 where "s3 = s2\<lparr>phases := (phases s2)(r \<mapsto> run_returned)\<rparr>"
  define s4 where "s4 = (stopGroup s3)\<lparr>phases := (phases s3)(r \<mapsto> run_cleaned)\<rparr>"
  define s5 where "s5 = (clear_hooks s4)\<lparr>phases := (phases s4)(r \<mapsto> run_cleared)\<rparr>"
  define s6 where "s6 = s5\<lparr>phases := (phases s5)(r \<mapsto> run_over)\<rparr>"
  have ph: "phases s1 r = Some run_built" "phases s2 r = Some run_started" "phases s3 r = Some run_returned"
    "phases s4 r = Some run_cleaned" "phases s5 r = Some run_cleared" "phases s6 = (phases s)(r \<mapsto> run_over)"
    by (simp_all add: s1_def s2_def s3_def s4_def s5_def s6_def publish_def)
  have "mesh_run (ls @ [Silent]) s1" unfolding s1_def by (rule mesh_more [OF assms(1) run_call [OF assms(2)]])
  then have "mesh_run ((ls @ [Silent]) @ [Silent]) s2" unfolding s2_def using run_publish [OF ph(1)] by (rule mesh_more)
  then have "mesh_run (((ls @ [Silent]) @ [Silent]) @ [Silent]) s3"
    unfolding s3_def using run_start_returns [OF ph(2)] by (rule mesh_more)
  then have "mesh_run ((((ls @ [Silent]) @ [Silent]) @ [Silent]) @ [Silent]) s4"
    unfolding s4_def using run_stop [OF ph(3)] by (rule mesh_more)
  then have "mesh_run (((((ls @ [Silent]) @ [Silent]) @ [Silent]) @ [Silent]) @ [Silent]) s5"
    unfolding s5_def using run_clear [OF ph(4)] by (rule mesh_more)
  then have "mesh_run ((((((ls @ [Silent]) @ [Silent]) @ [Silent]) @ [Silent]) @ [Silent]) @ [Silent]) s6"
    unfolding s6_def using run_close [OF ph(5)] by (rule mesh_more)
  then show ?thesis using ph(6) by blast
qed

theorem second_run_never_stopped_witness:
  "\<exists>ls s. mesh_run ls s \<and> phases s 0 = Some run_over \<and> phases s 5 = Some run_over
     \<and> (0 \<notin> stopped_groups s \<or> 5 \<notin> stopped_groups s)"
proof -
  obtain ls1 s1 where r1: "mesh_run ls1 s1" "phases s1 = (phases NewMeshServer)(0 \<mapsto> run_over)"
    using one_more_run [OF mesh_new, of 0] by (auto simp: NewMeshServer_def)
  then have "phases s1 5 = None" by (simp add: NewMeshServer_def)
  from one_more_run [OF r1(1) this] r1(2) obtain ls s where
    s: "mesh_run ls s" "phases s 0 = Some run_over" "phases s 5 = Some run_over" by auto
  then show ?thesis using second_run_never_stopped [OF s(1) _ s(2,3)] by auto
qed







text \<open>
  A \<open>GracefulStop\<close> during the build of the group returns nil, and the run goes on to serve without being cancelled.
\<close>

lemma GracefulStop_while_building:
  "\<exists>ls s. mesh_run ls s \<and> Graceful_returned None None \<in> set ls \<and> phases s 0 = Some run_started \<and> 0 \<notin> cancelled s"
proof -
  define s1 where "s1 = NewMeshServer\<lparr>phases := [0 \<mapsto> run_built]\<rparr>"
  have "mesh_step NewMeshServer Silent s1" using run_call [of NewMeshServer 0] by (simp add: s1_def NewMeshServer_def)
  moreover have "mesh_step s1 (Graceful_returned None None) s1"
    by (rule graceful_noop [of _ 5]) (simp_all add: s1_def NewMeshServer_def GracefulStop_def)
  moreover have "mesh_step s1 Silent (publish s1 0)" by (rule run_publish) (simp add: s1_def)
  ultimately have "mesh_run ((([] @ [Silent]) @ [Graceful_returned None None]) @ [Silent]) (publish s1 0)"
    by (blast intro: mesh_more mesh_new)
  then show ?thesis
    by (intro exI [of _ "(([] @ [Silent]) @ [Graceful_returned None None]) @ [Silent]"] exI [of _ "publish s1 0"])
      (simp add: publish_def s1_def NewMeshServer_def)
qed

end
