(* ===== verification/Client.thy ===== *)
theory Client
  imports Selector Limit Retry RegistryCache Transport GoStrings
begin

text \<open>
  \<open>pkg/client\<close>: the resilience chain of the gRPC and HTTP clients built from the components of
  \<open>pkg/resilience\<close>, the HTTP client with its node cache, the gRPC resolver, and the headers of a request.
  The status codes of errors, the parsing of URLs, discovery and the network are parameters.
\<close>

section \<open>Classification of errors\<close>

datatype grpcCode = OK | Canceled | Unknown | InvalidArgument | DeadlineExceeded | NotFound | AlreadyExists
  | PermissionDenied | ResourceExhausted | FailedPrecondition | Aborted | OutOfRange | Unimplemented | Internal
  | Unavailable | DataLoss | Unauthenticated

text \<open>\<open>statusOf\<close> is the gRPC code of an error, \<open>httpCode\<close> the code that the error library gives it.\<close>

definition grpcAcceptable :: "(err option \<Rightarrow> grpcCode) \<Rightarrow> (err option \<Rightarrow> int) \<Rightarrow> err option \<Rightarrow> bool" where
  "grpcAcceptable statusOf httpCode e =
     (if statusOf e \<in> {DeadlineExceeded, Internal, Unavailable, DataLoss, Unimplemented} then False
      else if statusOf e = Unknown then (if httpCode e > 0 then httpCode e < StatusInternalServerError else True)
      else True)"

definition grpcRetryable :: "(err option \<Rightarrow> grpcCode) \<Rightarrow> (err option \<Rightarrow> int) \<Rightarrow> err \<Rightarrow> bool" where
  "grpcRetryable statusOf httpCode e =
     (if statusOf (Some e) \<in> {DeadlineExceeded, Internal, Unavailable, DataLoss, ResourceExhausted} then True
      else if statusOf (Some e) = Unknown
        then (if httpCode (Some e) > 0
              then httpCode (Some e) \<ge> StatusInternalServerError \<or> httpCode (Some e) = StatusTooManyRequests else False)
      else False)"

section \<open>The chain\<close>

record resilienceConfig =
  rc_timeout :: duration
  rc_maxConcurrent :: int
  rc_maxAttempts :: int
  rc_baseBackoff :: duration
  rc_maxBackoff :: duration
  rc_breakerWindow :: duration
  rc_breakerProbe :: duration
  rc_retryable :: "(err \<Rightarrow> bool) option"

definition enabled :: "resilienceConfig \<Rightarrow> bool" where
  "enabled c \<longleftrightarrow> rc_timeout c > 0 \<or> rc_maxConcurrent c > 0 \<or> rc_breakerWindow c > 0 \<or> rc_maxAttempts c > 1"

text \<open>The middlewares that were configured, outermost first, each with its state.\<close>

record chain =
  ch_deadline :: "duration option"
  ch_bulkhead :: "limit option"
  ch_breaker :: "(sreBreaker \<times> (err option \<Rightarrow> bool)) option"
  ch_retry :: "(retryConfig \<times> retryPercentageLimiter option) option"

definition chain_breaker :: "(err option \<Rightarrow> bool) \<Rightarrow> resilienceConfig \<Rightarrow> time \<Rightarrow> (sreBreaker \<times> (err option \<Rightarrow> bool)) option go" where
  "chain_breaker acceptable cfg now =
     (if rc_breakerWindow cfg > 0
      then (let bc = foldl apply_breakerOption defaultBreakerConfig
                       [WithWindow (rc_breakerWindow cfg), WithProbeInterval (rc_breakerProbe cfg), WithAcceptable acceptable]
            in case newSREBreaker bc now of Inl p \<Rightarrow> Inl p | Inr b \<Rightarrow> Inr (Some (b, cacceptable bc)))
      else Inr None)"

definition chain_retry :: "(err \<Rightarrow> bool) \<Rightarrow> resilienceConfig \<Rightarrow> time \<Rightarrow> (retryConfig \<times> retryPercentageLimiter option) option go" where
  "chain_retry retryable cfg now =
     (if rc_maxAttempts cfg > 1
      then (case retry_setup [WithMaxAttempts (rc_maxAttempts cfg), WithBackoff (rc_baseBackoff cfg) (rc_maxBackoff cfg),
                    WithRetryable (Some (case rc_retryable cfg of None \<Rightarrow> retryable | Some f \<Rightarrow> f))] now of
              Inl p \<Rightarrow> Inl p | Inr r \<Rightarrow> Inr (Some r))
      else Inr None)"

definition buildResilienceChain :: "(err option \<Rightarrow> bool) \<Rightarrow> (err \<Rightarrow> bool) \<Rightarrow> resilienceConfig \<Rightarrow> time \<Rightarrow> chain go" where
  "buildResilienceChain acceptable retryable cfg now =
     (case (if rc_maxConcurrent cfg > 0 then Bulkhead (rc_maxConcurrent cfg) else Inr None) of
        Inl p \<Rightarrow> Inl p
      | Inr bulk \<Rightarrow>
          (case chain_breaker acceptable cfg now of
             Inl p \<Rightarrow> Inl p
           | Inr br \<Rightarrow>
               (case chain_retry retryable cfg now of
                  Inl p \<Rightarrow> Inl p
                | Inr re \<Rightarrow>
                    Inr \<lparr>ch_deadline = (if rc_timeout cfg > 0 then Some (rc_timeout cfg) else None), ch_bulkhead = bulk,
                         ch_breaker = br, ch_retry = re\<rparr>)))"

text \<open>
  One call through the chain. \<open>resp n\<close> is what the request of attempt \<open>n\<close> returns; the environment has the clock
  readings, the random draw of the breaker and what the retry loop meets.
\<close>

record call_env =
  ce_now :: time
  ce_end :: time
  ce_rnd :: float64
  ce_attempts :: "nat \<Rightarrow> attempt_env"
  ce_ctx :: ctx

definition retry_call :: "call_env \<Rightarrow> (nat \<Rightarrow> err option) \<Rightarrow> chain \<Rightarrow> (err option \<times> chain) go" where
  "retry_call env resp ch =
     (case ch_retry ch of
        None \<Rightarrow> Inr (resp 0, ch)
      | Some (cfg, limiter) \<Rightarrow>
          (case Retry cfg limiter resp (ce_attempts env) (ce_ctx env) of
             Inl p \<Rightarrow> Inl p
           | Inr r \<Rightarrow> Inr (rr_error r, ch\<lparr>ch_retry := Some (cfg, rr_limiter r)\<rparr>)))"

definition breaker_call :: "call_env \<Rightarrow> (nat \<Rightarrow> err option) \<Rightarrow> chain \<Rightarrow> (err option \<times> chain) go" where
  "breaker_call env resp ch =
     (case ch_breaker ch of
        None \<Rightarrow> retry_call env resp ch
      | Some (b, acceptable) \<Rightarrow>
          (let rejected = (case accept b (ce_now env) (ce_rnd env) of Inr (Some e, _) \<Rightarrow> True | _ \<Rightarrow> False);
               inner = (if rejected then Inr (None, ch) else retry_call env resp ch)
           in case inner of
                Inl p \<Rightarrow> Inl p
              | Inr (e, ch') \<Rightarrow>
                  (case doReq b (ce_now env) (ce_rnd env) (\<lambda>_. Inr e) (ce_end env) acceptable of
                     Inr (Inr e', b') \<Rightarrow> Inr (e', ch'\<lparr>ch_breaker := Some (b', acceptable)\<rparr>)
                   | Inr (Inl p, _) \<Rightarrow> Inl p
                   | Inl p \<Rightarrow> Inl p)))"

definition bulkhead_call :: "call_env \<Rightarrow> (nat \<Rightarrow> err option) \<Rightarrow> chain \<Rightarrow> (err option \<times> chain) go" where
  "bulkhead_call env resp ch =
     (case Bulkhead_enter (ch_bulkhead ch) of
        (Some e, b) \<Rightarrow> Inr (Some e, ch\<lparr>ch_bulkhead := b\<rparr>)
      | (None, b) \<Rightarrow>
          (case breaker_call env resp (ch\<lparr>ch_bulkhead := b\<rparr>) of
             Inl p \<Rightarrow> Inl p
           | Inr (e, ch') \<Rightarrow> Inr (e, ch'\<lparr>ch_bulkhead := Bulkhead_exit (ch_bulkhead ch')\<rparr>)))"

definition chain_call :: "call_env \<Rightarrow> (nat \<Rightarrow> err option) \<Rightarrow> chain \<Rightarrow> (err option \<times> chain) go" where
  "chain_call env resp ch =
     (case bulkhead_call env resp ch of
        Inl p \<Rightarrow> Inl p
      | Inr (e, ch') \<Rightarrow>
          Inr (case ch_deadline ch of None \<Rightarrow> e | Some d \<Rightarrow> Deadline d (ce_now env) (\<lambda>_. e) (ce_ctx env), ch'))"

text \<open>The gRPC client builds its interceptors once, when it dials, and calls go through the same chain.\<close>

fun grpc_calls :: "chain \<Rightarrow> (call_env \<times> (nat \<Rightarrow> err option)) list \<Rightarrow> (err option list \<times> chain) go" where
  "grpc_calls ch [] = Inr ([], ch)"
| "grpc_calls ch ((env, resp) # calls) =
     (case chain_call env resp ch of
        Inl p \<Rightarrow> Inl p
      | Inr (e, ch) \<Rightarrow> (case grpc_calls ch calls of Inl p \<Rightarrow> Inl p | Inr (es, ch) \<Rightarrow> Inr (e # es, ch)))"

section \<open>The HTTP client\<close>

definition parseSchemeHost :: "string \<Rightarrow> err + (string \<times> string)" where
  "parseSchemeHost endpoint =
     (let pre = takeWhile (\<lambda>i. take 3 (drop i endpoint) \<noteq> ''://'') [0..<length endpoint]; i = length pre
      in if i = length endpoint then Inr ([], endpoint)
         else let scheme = take i endpoint; rest = drop (i + 3) endpoint
              in if scheme = [] \<or> rest = [] then Inl (ErrString (''endpoint '' @ endpoint @ '' has invalid scheme://host''))
                 else Inr (scheme, rest))"

definition metadataWeight :: "(string \<rightharpoonup> string) option \<Rightarrow> int" where
  "metadataWeight md =
     (case md of None \<Rightarrow> 100
      | Some m \<Rightarrow> (case m ''weight'' of None \<Rightarrow> 100 | Some w \<Rightarrow> (case Atoi w of None \<Rightarrow> 100 | Some n \<Rightarrow> n)))"

definition endpoint_nodes :: "string \<Rightarrow> serviceInstance \<Rightarrow> string \<Rightarrow> node list" where
  "endpoint_nodes serviceName inst ep =
     (case parseSchemeHost ep of
        Inl e \<Rightarrow> []
      | Inr (scheme, hostport) \<Rightarrow>
          if scheme \<noteq> [] \<and> scheme \<noteq> ''http'' \<and> scheme \<noteq> ''https'' then []
          else [NewNode hostport scheme serviceName (metadataWeight (serviceInstance.Metadata inst))
                  (case serviceInstance.Metadata inst of None \<Rightarrow> Map.empty | Some m \<Rightarrow> m)])"

definition instancesToNodes :: "string \<Rightarrow> serviceInstance list \<Rightarrow> node list" where
  "instancesToNodes serviceName insts =
     concat (map (\<lambda>inst. concat (map (endpoint_nodes serviceName inst) (slice_of (Endpoints inst)))) insts)"

text \<open>
  The cached nodes after the background watch: the first reply of the discovery, whether a watcher could be had,
  and what the watcher returned until its first error, after which the goroutine ends.
\<close>

fun watch_updates :: "string \<Rightarrow> node list option \<Rightarrow> (err + serviceInstance list) list \<Rightarrow> node list option" where
  "watch_updates serviceName nodes [] = nodes"
| "watch_updates serviceName nodes (r # rs) =
     (case r of Inl e \<Rightarrow> nodes | Inr insts \<Rightarrow> watch_updates serviceName (Some (instancesToNodes serviceName insts)) rs)"

definition http_watch :: "string \<Rightarrow> err + serviceInstance list \<Rightarrow> bool \<Rightarrow> (err + serviceInstance list) list \<Rightarrow> node list option" where
  "http_watch serviceName reply watchable updates =
     (let nodes = (case reply of Inl e \<Rightarrow> None | Inr insts \<Rightarrow> Some (instancesToNodes serviceName insts))
      in if watchable then watch_updates serviceName nodes updates else nodes)"

text \<open>
  \<open>Do\<close>: the nodes, from the cache or by asking the discovery (\<open>sync\<close>) while nothing is cached; then the request,
  through a chain that is built for this call when resilience is configured. A cached empty slice is nil.
\<close>

definition do_nodes :: "string \<Rightarrow> node list option \<Rightarrow> err + serviceInstance list \<Rightarrow> err + node list" where
  "do_nodes serviceName cached sync =
     (case (case cached of Some (n # ns) \<Rightarrow> Inr (n # ns)
            | _ \<Rightarrow> (case sync of Inl e \<Rightarrow> Inl e | Inr insts \<Rightarrow> Inr (instancesToNodes serviceName insts))) of
        Inl e \<Rightarrow> Inl e
      | Inr nodes \<Rightarrow> if nodes = [] then Inl (ErrString (''client: no instances for '' @ serviceName)) else Inr nodes)"

definition resilient_do :: "(err option \<Rightarrow> bool) \<Rightarrow> (err \<Rightarrow> bool) \<Rightarrow> resilienceConfig \<Rightarrow> call_env \<Rightarrow> (nat \<Rightarrow> err option)
    \<Rightarrow> err option go" where
  "resilient_do acceptable retryable cfg env resp =
     (if enabled cfg
      then (case buildResilienceChain acceptable retryable cfg (ce_now env) of
              Inl p \<Rightarrow> Inl p
            | Inr ch \<Rightarrow> (case chain_call env resp ch of Inl p \<Rightarrow> Inl p | Inr (e, _) \<Rightarrow> Inr e))
      else Inr (resp 0))"

definition HTTPClient_Do :: "(err option \<Rightarrow> bool) \<Rightarrow> (err \<Rightarrow> bool) \<Rightarrow> string \<Rightarrow> resilienceConfig \<Rightarrow> node list option
    \<Rightarrow> err + serviceInstance list \<Rightarrow> call_env \<Rightarrow> (node list \<Rightarrow> nat \<Rightarrow> err option) \<Rightarrow> err option go" where
  "HTTPClient_Do acceptable retryable serviceName cfg cached sync env resp =
     (case do_nodes serviceName cached sync of
        Inl e \<Rightarrow> Inr (Some e)
      | Inr nodes \<Rightarrow> resilient_do acceptable retryable cfg env (resp nodes))"

text \<open>
  The response of one exchange: a network error, or a status with a body. \<open>text\<close> is the name of a status and
  \<open>decode\<close> the codec.
\<close>

definition exchange_result :: "(int \<Rightarrow> string) \<Rightarrow> (string \<Rightarrow> err option) \<Rightarrow> bool \<Rightarrow> err + (int \<times> (err + string)) \<Rightarrow> int \<times> err option" where
  "exchange_result statusText unmarshal want_resp r =
     (case r of
        Inl e \<Rightarrow> (0, Some e)
      | Inr (st, body) \<Rightarrow>
          if st \<ge> StatusBadRequest
          then (st, Some (ErrorX st (statusText st) (''HTTP request failed with status '' @ Itoa st) None))
          else if want_resp then (case body of Inl e \<Rightarrow> (st, Some e) | Inr data \<Rightarrow> (st, unmarshal data))
          else (st, None))"

section \<open>The gRPC resolver\<close>

definition maxResolveBackoff :: duration where "maxResolveBackoff = 30 * Second"

definition next_backoff :: "duration \<Rightarrow> duration" where
  "next_backoff b =
     (if b < maxResolveBackoff then (let b = 2 * b in if b > maxResolveBackoff then maxResolveBackoff else b) else b)"

datatype 'a resolver_event = ReportError err | UpdateState 'a | Sleep duration

text \<open>\<open>urlParse\<close> gives scheme and host of an endpoint.\<close>

definition endpointHostPort :: "(string \<Rightarrow> err + (string \<times> string)) \<Rightarrow> string \<Rightarrow> string \<Rightarrow> err + string" where
  "endpointHostPort urlParse endpoint wantScheme =
     (case urlParse endpoint of
        Inl e \<Rightarrow> Inl e
      | Inr (scheme, host) \<Rightarrow>
          if wantScheme \<noteq> [] \<and> scheme \<noteq> [] \<and> scheme \<noteq> wantScheme then Inl (ErrString (''endpoint '' @ endpoint @ '' has scheme '' @ scheme))
          else if host = [] then Inl (ErrString (''endpoint '' @ endpoint @ '' has no host'')) else Inr host)"

text \<open>An address with the weight that goes into its attributes, beside the strategy and the service.\<close>

definition instance_addrs :: "(string \<Rightarrow> err + (string \<times> string)) \<Rightarrow> serviceInstance \<Rightarrow> (string \<times> int) list" where
  "instance_addrs urlParse inst =
     concat (map (\<lambda>ep. case endpointHostPort urlParse ep ''grpc'' of Inl e \<Rightarrow> []
                     | Inr hostport \<Rightarrow> [(hostport, metadataWeight (serviceInstance.Metadata inst))]) (slice_of (Endpoints inst)))"

definition update :: "(string \<Rightarrow> err + (string \<times> string)) \<Rightarrow> string \<Rightarrow> serviceInstance list \<Rightarrow> (string \<times> int) list resolver_event list" where
  "update urlParse serviceName insts =
     (let addrs = concat (map (instance_addrs urlParse) insts)
      in if addrs = [] then [ReportError (ErrString (''client: no instances for '' @ serviceName)), UpdateState []]
         else [UpdateState addrs])"

text \<open>
  The first resolution: \<open>replies\<close> are what the discovery returns on the calls that are made; the context ends
  while the resolver sleeps when they run out.
\<close>

fun resolve_loop :: "duration \<Rightarrow> err \<Rightarrow> (err + serviceInstance list) list \<Rightarrow> 'a resolver_event list \<times> serviceInstance list option" where
  "resolve_loop b e [] = ([ReportError e, Sleep b], None)"
| "resolve_loop b e (r # rs) =
     (case r of
        Inr insts \<Rightarrow> ([ReportError e, Sleep b], Some insts)
      | Inl e' \<Rightarrow> (let (evs, res) = resolve_loop (next_backoff b) e' rs in ([ReportError e, Sleep b] @ evs, res)))"

fun watch_events :: "(string \<Rightarrow> err + (string \<times> string)) \<Rightarrow> string \<Rightarrow> (err + serviceInstance list) list
    \<Rightarrow> (string \<times> int) list resolver_event list" where
  "watch_events urlParse serviceName [] = []"
| "watch_events urlParse serviceName (r # rs) =
     (case r of Inl e \<Rightarrow> [] | Inr insts \<Rightarrow> update urlParse serviceName insts @ watch_events urlParse serviceName rs)"

definition resolver_watch :: "(string \<Rightarrow> err + (string \<times> string)) \<Rightarrow> string \<Rightarrow> err + serviceInstance list
    \<Rightarrow> (err + serviceInstance list) list \<Rightarrow> bool \<Rightarrow> (err + serviceInstance list) list \<Rightarrow> (string \<times> int) list resolver_event list" where
  "resolver_watch urlParse serviceName first retries watchable updates =
     (let (evs, res) = (case first of Inr insts \<Rightarrow> ([], Some insts) | Inl e \<Rightarrow> resolve_loop Second e retries)
      in case res of
           None \<Rightarrow> evs
         | Some insts \<Rightarrow> evs @ update urlParse serviceName insts
             @ (if watchable then watch_events urlParse serviceName updates else []))"

section \<open>Headers and metadata\<close>

text \<open>The headers of the context on an outgoing request; a header that is given replaces what was there.\<close>

definition applyRequestHeaders :: "header \<Rightarrow> (string \<times> string list) list \<Rightarrow> header" where
  "applyRequestHeaders h hs =
     foldl (\<lambda>h (name, vals). foldl (\<lambda>h v. httpHeader_Add h name v) (filter (\<lambda>p. fst p \<noteq> CanonicalHeaderKey name) h) vals) h hs"

type_synonym metadata = "string \<rightharpoonup> string"

definition MergeContext :: "metadata option \<Rightarrow> metadata \<Rightarrow> bool \<Rightarrow> metadata option" where
  "MergeContext existing patch overwrite =
     (let merged = (case existing of None \<Rightarrow> Map.empty | Some m \<Rightarrow> m)
      in Some (\<lambda>k. case patch k of None \<Rightarrow> merged k | Some v \<Rightarrow> if merged k = None \<or> overwrite then Some v else merged k))"

definition metadata_Set :: "metadata option \<Rightarrow> string \<Rightarrow> string \<Rightarrow> metadata option" where
  "metadata_Set md key v = Some ((case md of None \<Rightarrow> Map.empty | Some m \<Rightarrow> m)(key \<mapsto> v))"

definition metadata_Delete :: "metadata option \<Rightarrow> string \<Rightarrow> metadata option" where
  "metadata_Delete md key = (case md of None \<Rightarrow> None | Some m \<Rightarrow> Some (m(key := None)))"

definition metadata_Get :: "metadata option \<Rightarrow> string \<Rightarrow> string \<times> bool" where
  "metadata_Get md key = (case md of None \<Rightarrow> ([], False) | Some m \<Rightarrow> (case m key of None \<Rightarrow> ([], False) | Some v \<Rightarrow> (v, True)))"


section \<open>The chain of the HTTP client\<close>

lemma new_breaker:
  assumes "40 \<le> rc_breakerWindow cfg"
  shows "\<exists>b acc. chain_breaker acceptable cfg now = Inr (Some (b, acc)) \<and> breaker_ok now [] 0 b \<and> 0 < interval (stat b)"
proof -
  have pos: "0 < rc_breakerWindow cfg sdiv 40" using assms by (simp add: pos_imp_zdiv_pos_iff)
  obtain b where b: "newSREBreaker (foldl apply_breakerOption defaultBreakerConfig
      [WithWindow (rc_breakerWindow cfg), WithProbeInterval (rc_breakerProbe cfg), WithAcceptable acceptable]) now = Inr b"
      "interval (stat b) = rc_breakerWindow cfg sdiv 40"
    by (simp add: newSREBreaker_def defaultBreakerConfig_def defaultBucket_def NewRollingWindow_def)
  then show ?thesis
    using assms pos newSREBreaker_ok [OF b(1)] by (auto simp: chain_breaker_def Let_def)
qed

lemma doReq_new_breaker:
  assumes ok: "breaker_ok now [] 0 b" and le: "now \<le> now'" and pos: "0 < interval (stat b)"
  shows "accept b now rnd = Inr (None, b) \<and> (\<exists>b'. doReq b now rnd (\<lambda>_. Inr e) now' acceptable = Inr (Inr e, b'))"
proof -
  have t: "0 \<le> tick now (interval (stat b)) now" "0 \<le> tick now (interval (stat b)) now'"
    using le pos by (simp_all add: tick_def pos_imp_zdiv_nonneg_iff)
  have acc: "accept b now rnd = Inr (None, b)"
    using accept_protected [OF ok t(1)] by (simp add: window_outcomes_def outcomes_since_def)
  obtain b' where "mark b now' (if acceptable e then resultSuccess else resultFailure) = Inr b'"
    using mark_ok [OF ok t(2)] by blast
  then show ?thesis using acc by (simp add: doReq_def Let_def)
qed

lemma retry_call_result:
  "ch_retry ch = ch_retry ch' \<Longrightarrow> map_sum id fst (retry_call env resp ch) = map_sum id fst (retry_call env resp ch')"
  by (simp add: retry_call_def split: option.split sum.split)

lemma breaker_call_new:
  assumes "ch_breaker ch = None \<or> (\<exists>b acc. ch_breaker ch = Some (b, acc) \<and> breaker_ok (ce_now env) [] 0 b \<and> 0 < interval (stat b))"
    and le: "ce_now env \<le> ce_end env"
  shows "map_sum id fst (breaker_call env resp ch) = map_sum id fst (retry_call env resp ch)"
  using assms(1)
proof
  assume "\<exists>b acc. ch_breaker ch = Some (b, acc) \<and> breaker_ok (ce_now env) [] 0 b \<and> 0 < interval (stat b)"
  then obtain b acc where b: "ch_breaker ch = Some (b, acc)" "breaker_ok (ce_now env) [] 0 b" "0 < interval (stat b)" by blast
  note fresh = doReq_new_breaker [OF b(2) le b(3), where rnd = "ce_rnd env" and acceptable = acc]
  show ?thesis
  proof (cases "retry_call env resp ch")
    case (Inr r)
    obtain e ch' where r: "r = (e, ch')" by (cases r)
    obtain b' where "doReq b (ce_now env) (ce_rnd env) (\<lambda>_. Inr e) (ce_end env) acc = Inr (Inr e, b')" using fresh by blast
    then show ?thesis using Inr r b(1) fresh by (simp add: breaker_call_def Let_def)
  qed (use b(1) fresh in \<open>simp add: breaker_call_def Let_def\<close>)
qed (simp add: breaker_call_def)

lemma Bulkhead_new:
  "0 < n \<Longrightarrow> \<exists>l l'. Bulkhead n = Inr (Some l) \<and> Bulkhead_enter (Some l) = (None, Some l')"
  by (auto simp: Bulkhead_def NewLimit_def Bulkhead_enter_def Limit_TryBorrow_def)

lemma chain_call_new:
  assumes br: "ch_breaker ch = None \<or> (\<exists>b acc. ch_breaker ch = Some (b, acc) \<and> breaker_ok (ce_now env) [] 0 b \<and> 0 < interval (stat b))"
    and bulk: "fst (Bulkhead_enter (ch_bulkhead ch)) = None" and le: "ce_now env \<le> ce_end env"
  shows "map_sum id fst (chain_call env resp ch) =
    map_sum id (\<lambda>(e, _). case ch_deadline ch of None \<Rightarrow> e | Some d \<Rightarrow> Deadline d (ce_now env) (\<lambda>_. e) (ce_ctx env)) (retry_call env resp ch)"
proof -
  obtain b where b: "Bulkhead_enter (ch_bulkhead ch) = (None, b)" using bulk by (cases "Bulkhead_enter (ch_bulkhead ch)") auto
  let ?ch = "ch\<lparr>ch_bulkhead := b\<rparr>"
  have "map_sum id fst (breaker_call env resp ?ch) = map_sum id fst (retry_call env resp ch)"
    using breaker_call_new [of ?ch env resp] br le retry_call_result [of ?ch ch env resp] by simp
  then show ?thesis
    by (cases "breaker_call env resp ?ch"; cases "retry_call env resp ch")
      (auto simp: chain_call_def bulkhead_call_def b split: option.split)
qed

lemma resilient_do_fresh:
  assumes w: "rc_breakerWindow cfg \<le> 0 \<or> 40 \<le> rc_breakerWindow cfg" and le: "ce_now env \<le> ce_end env"
  shows "resilient_do acceptable retryable cfg env resp
    = resilient_do acceptable retryable (cfg\<lparr>rc_maxConcurrent := 0, rc_breakerWindow := 0\<rparr>) env resp"
proof -
  let ?cfg = "cfg\<lparr>rc_maxConcurrent := 0, rc_breakerWindow := 0\<rparr>"
  have retry: "chain_retry retryable ?cfg (ce_now env) = chain_retry retryable cfg (ce_now env)"
    by (simp add: chain_retry_def)
  obtain bulk where bulk: "(if rc_maxConcurrent cfg > 0 then Bulkhead (rc_maxConcurrent cfg) else Inr None) = Inr bulk"
    "fst (Bulkhead_enter bulk) = None"
    using Bulkhead_new [of "rc_maxConcurrent cfg"] by (cases "rc_maxConcurrent cfg > 0") (auto simp: Bulkhead_enter_def)
  obtain br where br: "chain_breaker acceptable cfg (ce_now env) = Inr br"
    "br = None \<or> (\<exists>b acc. br = Some (b, acc) \<and> breaker_ok (ce_now env) [] 0 b \<and> 0 < interval (stat b))"
  proof (cases "rc_breakerWindow cfg \<le> 0")
    case True
    then show ?thesis using that [of None] by (simp add: chain_breaker_def)
  next
    case False
    then show ?thesis using new_breaker [of cfg acceptable "ce_now env"] w that by blast
  qed
  have one: "map_sum id fst (chain_call env resp \<lparr>ch_deadline = d, ch_bulkhead = bulk, ch_breaker = br, ch_retry = re\<rparr>)
      = map_sum id fst (chain_call env resp \<lparr>ch_deadline = d, ch_bulkhead = None, ch_breaker = None, ch_retry = re\<rparr>)" for d re
  proof -
    let ?a = "\<lparr>ch_deadline = d, ch_bulkhead = bulk, ch_breaker = br, ch_retry = re\<rparr>"
    let ?b = "\<lparr>ch_deadline = d, ch_bulkhead = None, ch_breaker = None, ch_retry = re\<rparr>"
    have "map_sum id fst (retry_call env resp ?a) = map_sum id fst (retry_call env resp ?b)" by (rule retry_call_result) simp
    then show ?thesis
      using chain_call_new [of ?a env resp] chain_call_new [of ?b env resp] br(2) bulk(2) le
      by (cases "retry_call env resp ?a"; cases "retry_call env resp ?b") (auto simp: Bulkhead_enter_def)
  qed
  let ?d = "if rc_timeout cfg > 0 then Some (rc_timeout cfg) else None"
  have fst_res: "(case r of Inl p \<Rightarrow> Inl p | Inr (e, c) \<Rightarrow> Inr e) = map_sum id fst r" for r :: "(err option \<times> chain) go"
    by (auto split: sum.split)
  have full: "resilient_do acceptable retryable cfg env resp = (if enabled cfg then
      (case chain_retry retryable cfg (ce_now env) of Inl p \<Rightarrow> Inl p | Inr re \<Rightarrow>
        map_sum id fst (chain_call env resp \<lparr>ch_deadline = ?d, ch_bulkhead = bulk, ch_breaker = br, ch_retry = re\<rparr>))
      else Inr (resp 0))"
    unfolding resilient_do_def buildResilienceChain_def bulk(1) br(1) fst_res by (simp split: sum.split)
  have bare: "resilient_do acceptable retryable ?cfg env resp = (if enabled ?cfg then
      (case chain_retry retryable cfg (ce_now env) of Inl p \<Rightarrow> Inl p | Inr re \<Rightarrow>
        map_sum id fst (chain_call env resp \<lparr>ch_deadline = ?d, ch_bulkhead = None, ch_breaker = None, ch_retry = re\<rparr>))
      else Inr (resp 0))"
    unfolding resilient_do_def buildResilienceChain_def fst_res retry by (simp add: chain_breaker_def split: sum.split)
  show ?thesis
  proof (cases "enabled ?cfg")
    case True
    then have "enabled cfg" by (auto simp: enabled_def)
    then show ?thesis using True unfolding full bare by (simp add: one split: sum.split)
  next
    case False
    then have "chain_retry retryable cfg (ce_now env) = Inr None" "?d = None" by (auto simp: enabled_def chain_retry_def)
    moreover have "chain_call env resp \<lparr>ch_deadline = None, ch_bulkhead = None, ch_breaker = None, ch_retry = None\<rparr>
        = Inr (resp 0, \<lparr>ch_deadline = None, ch_bulkhead = None, ch_breaker = None, ch_retry = None\<rparr>)"
      by (simp add: chain_call_def bulkhead_call_def Bulkhead_enter_def breaker_call_def retry_call_def Bulkhead_exit_def)
    ultimately show ?thesis using False unfolding full bare by (simp add: one)
  qed
qed

text \<open>
  C2. The HTTP client builds its chain anew for every call, so a configured circuit breaker and a configured
  bulkhead have no effect: whatever happened in earlier or concurrent calls, a call ends exactly as it would
  without them.
\<close>

theorem http_breaker_bulkhead_no_effect:
  assumes "rc_breakerWindow cfg \<le> 0 \<or> 40 \<le> rc_breakerWindow cfg" and "ce_now env \<le> ce_end env"
  shows "HTTPClient_Do acceptable retryable serviceName cfg cached sync env resp
    = HTTPClient_Do acceptable retryable serviceName (cfg\<lparr>rc_maxConcurrent := 0, rc_breakerWindow := 0\<rparr>) cached sync env resp"
  using resilient_do_fresh [OF assms] by (simp add: HTTPClient_Do_def split: sum.split)

definition example_env :: call_env where
  "example_env = \<lparr>ce_now = 5, ce_end = 7, ce_rnd = 0, ce_attempts = (\<lambda>_. \<lparr>ae_start = 5, ae_fail = 6, ae_draw = 0, ae_cancel = None\<rparr>),
     ce_ctx = \<lparr>deadline = None\<rparr>\<rparr>"

definition breaker_only :: resilienceConfig where
  "breaker_only = \<lparr>rc_timeout = 0, rc_maxConcurrent = 1, rc_maxAttempts = 0, rc_baseBackoff = 0, rc_maxBackoff = 0,
     rc_breakerWindow = 10 * Second, rc_breakerProbe = Second, rc_retryable = None\<rparr>"

theorem http_breaker_bulkhead_no_effect_witness:
  "HTTPClient_Do (\<lambda>e. e = None) (\<lambda>_. True) ''svc'' breaker_only (Some [NewNode ''h:1'' [] ''svc'' 100 Map.empty]) (Inr []) example_env
     (\<lambda>_ _. Some ErrServiceOverloaded) = Inr (Some ErrServiceOverloaded)"
proof -
  have "HTTPClient_Do (\<lambda>e. e = None) (\<lambda>_. True) ''svc'' breaker_only (Some [NewNode ''h:1'' [] ''svc'' 100 Map.empty]) (Inr []) example_env
      (\<lambda>_ _. Some ErrServiceOverloaded)
    = HTTPClient_Do (\<lambda>e. e = None) (\<lambda>_. True) ''svc'' (breaker_only\<lparr>rc_maxConcurrent := 0, rc_breakerWindow := 0\<rparr>)
      (Some [NewNode ''h:1'' [] ''svc'' 100 Map.empty]) (Inr []) example_env (\<lambda>_ _. Some ErrServiceOverloaded)"
    by (rule http_breaker_bulkhead_no_effect) (simp_all add: breaker_only_def example_env_def Second_def)
  then show ?thesis by (simp add: breaker_only_def HTTPClient_Do_def do_nodes_def resilient_do_def enabled_def)
qed

section \<open>The resolver\<close>

lemma next_backoff_closed: "next_backoff (min (2 ^ k * Second) maxResolveBackoff) = min (2 ^ Suc k * Second) maxResolveBackoff"
  by (auto simp: next_backoff_def maxResolveBackoff_def Second_def min_def)

text \<open>While the registry cannot be reached the resolver reports every error and sleeps \<open>min (2^k s) 30 s\<close> after the k-th.\<close>

lemma resolve_backoff:
  "resolve_loop (min (2 ^ k * Second) maxResolveBackoff) e (map Inl es) =
     (concat (map (\<lambda>(i, e). [ReportError e, Sleep (min (2 ^ (k + i) * Second) maxResolveBackoff)]) (enumerate 0 (e # es))), None)"
proof (induction es arbitrary: k e)
  case (Cons e' es)
  have shift: "concat (map (\<lambda>(i, e). [ReportError e, Sleep (min (2 ^ (Suc k + i) * Second) maxResolveBackoff)]) (enumerate 0 xs))
      = concat (map (\<lambda>(i, e). [ReportError e, Sleep (min (2 ^ (k + i) * Second) maxResolveBackoff)]) (enumerate 1 xs))"
    for xs :: "err list"
    by (simp add: enumerate_Suc_eq [of 0 xs] comp_def case_prod_unfold)
  show ?case using Cons [of "Suc k" e'] shift [of "e' # es"] by (simp add: next_backoff_closed del: power_Suc)
qed simp

text \<open>
  What the resolver publishes after a watcher's updates is what the last update says; after the first error of
  the watcher nothing is published any more.
\<close>

lemma watch_events_stop: "watch_events urlParse name (map Inr us @ Inl e # rest) = concat (map (update urlParse name) us)"
  by (induction us) simp_all

section \<open>Headers and metadata\<close>

lemma header_values_put: "header_values (header_put k vs h) k' = (if k' = k then vs else header_values h k')"
  by (induction h) (auto simp: header_values_def)

lemma header_values_add_all:
  "header_values (foldl (\<lambda>h v. httpHeader_Add h name v) h vals) k =
     (if k = CanonicalHeaderKey name then header_values h k @ vals else header_values h k)"
  by (induction vals arbitrary: h) (simp_all add: httpHeader_Add_def header_values_put)

text \<open>A header of the context replaces the one of the request, and other headers stay.\<close>

lemma applyRequestHeaders_one:
  "header_values (applyRequestHeaders h [(name, vals)]) k = (if k = CanonicalHeaderKey name then vals else header_values h k)"
proof -
  have "header_values (filter (\<lambda>p. fst p \<noteq> c) h) k = (if k = c then [] else header_values h k)" for c k
    by (induction h) (auto simp: header_values_def)
  then show ?thesis by (simp add: applyRequestHeaders_def header_values_add_all)
qed

lemma MergeContext_Get:
  "metadata_Get (MergeContext md patch overwrite) k =
     (let old = metadata_Get md k; new = metadata_Get (Some patch) k
      in if snd new \<and> (overwrite \<or> \<not> snd old) then new else old)"
  by (auto simp: MergeContext_def metadata_Get_def Let_def split: option.split)

end
