(* ===== verification/Spec2Isabelle.thy ===== *)
theory Spec2Isabelle
  imports Ring_Queue SreBreaker Limit Retry Shedder Hedge Resiliency RateStore Balancer Cache RegistryCache
    RegistryStatic SingleFlight Syncx Middleware Executors Config EventBroker Server Client
begin

text \<open>
  Verification of onexmesh, a microservice framework in Go (\<open>src/pkg\<close>).

  \<^bold>\<open>The program.\<close> A service built on the framework is a \<open>MeshServer\<close> (\<open>pkg/server\<close>) that serves its methods over
  HTTP and gRPC behind one chain of middlewares (\<open>pkg/middleware\<close>), publishes itself in a registry
  (\<open>pkg/registry\<close>) and reads its configuration from merged sources (\<open>pkg/config\<close>). A client (\<open>pkg/client\<close>)
  discovers instances through the registry, usually behind a cache, chooses one with a selector
  (\<open>pkg/selector\<close>, inside gRPC through \<open>pkg/client/balancer\<close>) and protects the call with the patterns of
  \<open>pkg/resilience\<close> (breaker, bulkhead, retry, hedge, shedder, deadline) or with the declarative policies of
  \<open>pkg/resiliency\<close>; \<open>pkg/ratelimit\<close> limits the rate of requests. All of these are built on the data structures
  and synchronisation primitives of \<open>pkg/core\<close>. \<open>pkg/event\<close> and \<open>pkg/broker\<close> carry events and messages.

  \<^bold>\<open>Conventions.\<close> A struct is a record, an operation a function from the state to a result and the new state. A
  call that can panic returns \<open>'a go\<close>, which is \<open>Inl\<close> of the panic or \<open>Inr\<close> of the result; an error is a value
  of \<open>err\<close> (theory \<open>Errno\<close>), absent when \<open>None\<close>. Time is an integer number of nanoseconds and every clock
  reading, random draw and reply of a callee is an argument. A mutex makes an operation one step; where the code
  works without a lock or with several goroutines the model is an \<open>inductive\<close> step relation, one step per
  critical section, atomic access, channel operation or call, and the theorems quantify over all
  interleavings. Integers are \<open>int\<close> or \<open>nat\<close> with \<open>int64\<close>, \<open>int32\<close> or a \<open>word\<close> where their width matters;
  \<open>float64\<close> is an exact rational: rounding is not modelled. A Go map is a HOL map, or a list of pairs where
  the code loops over it. Loops are structural recursion or have a termination proof; no definition needs fuel.

  \<^bold>\<open>Theories and sources.\<close>
  \<^item> \<open>Prelude\<close>: integers, durations, panics, last elements of a list, association lists with slices.
  \<^item> \<open>GoStrings\<close>: the parts of \<open>strings\<close> and \<open>strconv\<close> that are used, with the round trip of numbers.
  \<^item> \<open>Errno\<close>: \<open>pkg/errno\<close>, its sentinels and predicates.
  \<^item> \<open>Ring_Queue\<close>, \<open>RollingWindow\<close>, \<open>SafeMap\<close>, \<open>TimingWheel\<close>, \<open>Cache\<close>: \<open>pkg/core/collection\<close>. The rolling window
    represents the history of what was added (locale \<open>bucket\<close>, interpreted for every bucket type); a tick of the
    wheel refines an abstract countdown and a timer fires on the tick it was set for; the cache never exceeds its
    limit, and the first expiry deadlocks it.
  \<^item> \<open>Syncx\<close>, \<open>SingleFlight\<close>: \<open>pkg/core/syncx\<close>. One run per key is shared by all callers (locale
    \<open>exclusive_calls\<close>, interpreted for single flight and locked calls); a pool creates at most its limit; a wake-up
    of the timed limit can be lost.
  \<^item> \<open>Executors\<close>: \<open>pkg/core/executors\<close>. The interface \<open>TaskContainer\<close> is the locale \<open>task_container\<close>, interpreted for
    bulk and chunk containers: no task is lost or run twice, and with a positive interval all tasks can be run and all
    callers released from every state, without another call (without one the flusher panics and \<open>Add\<close> can block for
    good); \<open>Wait\<close> does not wait for the executions.
  \<^item> \<open>Limit\<close>, \<open>Retry\<close>, \<open>SreBreaker\<close>, \<open>Shedder\<close>, \<open>Hedge\<close>: \<open>pkg/core/limit\<close> and \<open>pkg/resilience\<close>. The semaphore is a
    locale with the laws that bulkhead and concurrency limiter rely on; requests in a bulkhead are a step relation in
    which every request arrives, is inside and ends, and ending runs the deferred \<open>Return\<close>; the breaker records every outcome once and
    is characterised over the history of outcomes in its window; the shedder counts the requests in flight.
  \<^item> \<open>ResiliencyBreaker\<close>, \<open>Resiliency\<close>: \<open>pkg/resiliency\<close>, the state machine of the breaker in all interleavings,
    the policies, their parsing and \<open>Runner\<close>.
  \<^item> \<open>Buckets\<close>, \<open>RateStore\<close>: \<open>pkg/ratelimit\<close>, bounds on what is granted over time and in all interleavings.
  \<^item> \<open>Selector\<close>, \<open>P2C\<close>, \<open>Balancer\<close>: \<open>pkg/selector\<close> and \<open>pkg/client/balancer\<close>. Every strategy chooses one of the
    nodes (locale); round robin is fair, selection with breakers skips tripped nodes.
  \<^item> \<open>RegistryCache\<close>, \<open>RegistryStatic\<close>: \<open>pkg/registry\<close>, its cache as a refinement of what the discovery replied, the
    static backend and the factory tables.
  \<^item> \<open>Transport\<close>, \<open>Matcher\<close>, \<open>Middleware\<close>: \<open>pkg/transport\<close> and \<open>pkg/middleware\<close>, the header views (locale
    \<open>header_view\<close>), the selection of middlewares for an operation, authentication, recovery, CORS and the
    bridges to gin and gRPC.
  \<^item> \<open>Config\<close>: \<open>pkg/config\<close>, merging characterised at every path, typed access, loading, watching, the file source.
  \<^item> \<open>EventBroker\<close>: \<open>pkg/event\<close> and \<open>pkg/broker\<close>. \<open>Publish\<close> of the memory broker is a step relation with publishers,
    subscribers and handlers in any order; what it delivers is characterised over the log of a run.
  \<^item> \<open>HttpBinding\<close>: \<open>pkg/codec\<close> and the path templates of \<open>pkg/server\<close>. A path built from a message
    matches the registered route and binds back, under \<open>gin_law\<close>, which says what gin documents of a route with
    plain parameters; \<open>reference_router\<close> is a function with that law.
  \<^item> \<open>Server\<close>: \<open>pkg/server\<close>, the start and stop of servers and groups, methods, route groups and the life cycle
    of a \<open>MeshServer\<close> with concurrent \<open>GracefulStop\<close>, which returns nil at once when no run has published its hooks.
  \<^item> \<open>Client\<close>: \<open>pkg/client\<close>, the composition of breaker, bulkhead, retry and deadline into the chain of a call,
    the HTTP client, the resolver, headers and \<open>pkg/metadata\<close>.

  \<^bold>\<open>Not modelled.\<close> Generated code (protobuf), commands and code generators, examples; the adapters to external
  services (registries other than static, Redis broker, Polaris configuration), which only call their client
  libraries; logging, metrics and tracing; flags and the assembly of servers from options; the codecs themselves,
  \<open>gin\<close>, \<open>net/http\<close> and gRPC. Still to come: \<open>pkg/core/mr\<close>, \<open>pkg/core/bytebufferpool\<close>, the validation of
  \<open>pkg/options\<close> and the round tripper of \<open>pkg/client/rest\<close>.
\<close>

end
